(* ===== verification/Prelude.thy ===== *)
theory Prelude
  imports Main "HOL-Library.Word"
begin

text \<open>
  Shared vocabulary of the development: the machine integer types of the C sources, the
  error codes the LibOS functions return, the allocator as an explicit sequence of outcomes,
  and the order lemmas on words that the interval arguments of several components use.
\<close>

unbundle bit_operations_syntax

section \<open>Machine integers\<close>

type_synonym u8 = "8 word"
type_synonym u32 = "32 word"
type_synonym u64 = "64 word"

named_theorems word_order "order facts on machine words next to the range ends"

lemma word_le_pred_iff [word_order]: "0 < (s::u64) \<Longrightarrow> b \<le> s - 1 \<longleftrightarrow> b < s"
  by unat_arith

lemma word_pred_less_iff [word_order]: "0 < (s::u64) \<Longrightarrow> s - 1 < b \<longleftrightarrow> s \<le> b"
  by unat_arith

lemma word_succ_le_iff [word_order]: "(e::u64) < - 1 \<Longrightarrow> e + 1 \<le> b \<longleftrightarrow> e < b"
  by unat_arith

lemma word_less_succ_iff [word_order]: "(e::u64) < - 1 \<Longrightarrow> b < e + 1 \<longleftrightarrow> b \<le> e"
  by unat_arith

lemma word_pred_le [word_order]: "0 < (s::u64) \<Longrightarrow> s \<le> e \<Longrightarrow> s - 1 \<le> e"
  by unat_arith

lemma word_le_succ [word_order]: "(e::u64) < - 1 \<Longrightarrow> b \<le> e \<Longrightarrow> b \<le> e + 1"
  by unat_arith

lemma word_less_neq_max: "(a::u64) < b \<Longrightarrow> a < - 1"
  by (metis order_less_le_trans word_n1_ge)

lemma word_less_pos: "(a::u64) < b \<Longrightarrow> 0 < b"
  using word_gt_0 by fastforce

lemma unat_add_no_wrap: "(x::u64) \<le> x + len \<Longrightarrow> unat (x + len) = unat x + unat len"
  by unat_arith

section \<open>Error codes\<close>

text \<open>
  The C functions return 0 or a negated error code. In the model a function that can only
  fail or succeed returns \<open>errno option\<close> (\<open>None\<close> is 0), and one that produces a value
  returns \<open>errno + 'a\<close>.
\<close>

datatype errno =
    EPERM | ENOENT | EINTR | EIO | EBADF | EAGAIN | ENOMEM | EACCES | EFAULT | EEXIST
  | ENOTDIR | EISDIR | EINVAL | EMFILE | ENFILE | ENOSYS | ERANGE | EOVERFLOW | ETIMEDOUT

section \<open>The allocator\<close>

text \<open>
  A call of \<open>malloc\<close> either returns memory or \<open>NULL\<close>, and which of the two is not up to
  the caller. A component that allocates takes the outcomes of its future calls as a list:
  every call consumes one; once the list is used up every call succeeds.
\<close>

type_synonym mem = "bool list"

fun malloc :: "mem \<Rightarrow> bool \<times> mem" where
  "malloc [] = (True, [])"
| "malloc (ok # m) = (ok, m)"

section \<open>Lists\<close>

lemma sorted_wrt_append_Cons:
  "sorted_wrt P (xs @ y # ys) \<longleftrightarrow>
     sorted_wrt P (xs @ ys) \<and> (\<forall>x\<in>set xs. P x y) \<and> (\<forall>z\<in>set ys. P y z)"
  by (auto simp: sorted_wrt_append)

lemma takeWhile_dropWhile_split:
  "\<exists>pre suf. xs = pre @ suf \<and> takeWhile P xs = pre \<and> dropWhile P xs = suf \<and>
     (\<forall>x\<in>set pre. P x) \<and> (suf \<noteq> [] \<longrightarrow> \<not> P (hd suf))"
  by (metis hd_dropWhile set_takeWhileD takeWhile_dropWhile_id)

end
