(* ===== verification/Fs_Lock.thy ===== *)
theory Fs_Lock
  imports Prelude
begin

text \<open>
  File locks: \<^verbatim>\<open>libos/src/fs/libos_fs_lock.c\<close> and \<^verbatim>\<open>libos/include/libos_fs_lock.h\<close>.
  POSIX (fcntl) and BSD (flock) locks of a file are one list per dentry, kept by the process
  leader; pending requests are a second list. The lists are HOL lists in the order of the C
  lists (\<open>LISTP_ADD\<close> is a prepend). Allocation outcomes are the explicit argument of type
  \<open>mem\<close>; what the code reports to a waiter is a list of notifications.
\<close>

section \<open>Data\<close>

datatype libos_file_lock_family = FILE_LOCK_UNKNOWN | FILE_LOCK_POSIX | FILE_LOCK_FLOCK

datatype lock_type = F_RDLCK | F_WRLCK | F_UNLCK

record libos_file_lock =
  family :: libos_file_lock_family
  ltype :: lock_type
  start :: u64
  endb :: u64
  pid :: u32
  handle_id :: u64

definition FS_LOCK_EOF :: u64 where
  "FS_LOCK_EOF = - 1"

text \<open>
  \<open>struct file_lock_request\<close>. The \<open>notify\<close> part is \<open>None\<close> between the allocation of the
  request and the assignment of its fields, which the C code leaves uninitialised meanwhile.
  A local waiter has \<open>vmid = 0\<close> and an event, a remote one a vmid and a sequence number.
\<close>

datatype notify = Local_Waiter nat | Remote_Waiter u32 u32

record file_lock_request =
  req_lock :: libos_file_lock
  req_notify :: "notify option"

record dent_file_locks =
  posix_used :: bool
  flock_used :: bool
  file_locks :: "libos_file_lock list"
  file_lock_requests :: "file_lock_request list"

text \<open>What a processed request sends: an event with its result, an IPC response with its result,
  or whatever the uninitialised \<open>notify\<close> fields happen to hold.\<close>

datatype notification =
    Event_Set nat "errno option"
  | Ipc_Response u32 u64 "errno option"
  | Uninitialised_Notify "errno option"

section \<open>Conflicts\<close>

definition posix_conflict :: "libos_file_lock \<Rightarrow> libos_file_lock \<Rightarrow> bool" where
  "posix_conflict fl cur \<longleftrightarrow>
     pid cur \<noteq> pid fl \<and> start fl \<le> endb cur \<and> start cur \<le> endb fl \<and>
     (ltype cur = F_WRLCK \<or> ltype fl = F_WRLCK)"

definition flock_conflict :: "libos_file_lock \<Rightarrow> libos_file_lock \<Rightarrow> bool" where
  "flock_conflict fl cur \<longleftrightarrow>
     handle_id cur \<noteq> handle_id fl \<and> (ltype cur = F_WRLCK \<or> ltype fl = F_WRLCK)"

definition file_lock_find_conflict ::
    "libos_file_lock list \<Rightarrow> libos_file_lock \<Rightarrow> libos_file_lock option" where
  "file_lock_find_conflict locks fl =
     (if family fl = FILE_LOCK_POSIX then find (posix_conflict fl) locks
      else find (flock_conflict fl) locks)"

section \<open>Setting a lock\<close>

text \<open>
  The loop of \<open>_posix_lock_set\<close>. \<open>s\<close> and \<open>e\<close> are the target range, \<open>prev\<close> the position of
  the element after which the new lock goes (\<open>None\<close>: the head of the list), \<open>don\<close> the
  elements already passed. The result is the final range, the final \<open>prev\<close> and the list.
\<close>

fun posix_loop ::
    "libos_file_lock \<Rightarrow> u64 \<Rightarrow> u64 \<Rightarrow> nat option \<Rightarrow> libos_file_lock list \<Rightarrow> libos_file_lock list \<Rightarrow>
     u64 \<times> u64 \<times> nat option \<times> libos_file_lock list" where
  "posix_loop fl s e prev don [] = (s, e, prev, don)"
| "posix_loop fl s e prev don (cur # rest) =
    (if family cur \<noteq> FILE_LOCK_POSIX then posix_loop fl s e prev (don @ [cur]) rest
     else if pid cur < pid fl then posix_loop fl s e (Some (length don)) (don @ [cur]) rest
     else if pid fl < pid cur then (s, e, prev, don @ cur # rest)
     else if ltype cur = ltype fl then
       (if 0 < s \<and> endb cur < s - 1 then
          posix_loop fl s e (Some (length don)) (don @ [cur]) rest
        else if e < FS_LOCK_EOF \<and> e + 1 < start cur then (s, e, prev, don @ cur # rest)
        else posix_loop fl (min s (start cur)) (max e (endb cur)) prev don rest)
     else
       (if endb cur < s then posix_loop fl s e (Some (length don)) (don @ [cur]) rest
        else if e < start cur then (s, e, prev, don @ cur # rest)
        else if start cur < s \<and> endb cur \<le> e then
          posix_loop fl s e (Some (length don)) (don @ [cur\<lparr>endb := s - 1\<rparr>]) rest
        else if start cur < s \<and> e < endb cur then
          (s, e, Some (length don),
           don @ cur\<lparr>endb := s - 1\<rparr> #
             \<lparr>family = FILE_LOCK_POSIX, ltype = ltype cur, start = e + 1, endb = endb cur,
              pid = pid cur, handle_id = 0\<rparr> # rest)
        else if s \<le> start cur \<and> endb cur \<le> e then posix_loop fl s e prev don rest
        else (s, e, prev, don @ cur\<lparr>start := e + 1\<rparr> # rest)))"

definition insert_after :: "'a \<Rightarrow> nat option \<Rightarrow> 'a list \<Rightarrow> 'a list" where
  "insert_after x prev xs =
     (case prev of None \<Rightarrow> x # xs | Some i \<Rightarrow> take (Suc i) xs @ x # drop (Suc i) xs)"

definition posix_lock_set ::
    "mem \<Rightarrow> libos_file_lock list \<Rightarrow> libos_file_lock \<Rightarrow>
     mem \<times> errno option \<times> libos_file_lock list" where
  "posix_lock_set m locks fl =
     (let (new_ok, m1) = (if ltype fl \<noteq> F_UNLCK then malloc m else (True, m)) in
      if \<not> new_ok then (m1, Some ENOMEM, locks) else
      let (extra_ok, m2) = malloc m1 in
      if \<not> extra_ok then (m2, Some ENOMEM, locks) else
      let (s, e, prev, ls) = posix_loop fl (start fl) (endb fl) None [] locks in
      (m2, None,
       if ltype fl = F_UNLCK then ls
       else insert_after
         \<lparr>family = FILE_LOCK_POSIX, ltype = ltype fl, start = s, endb = e, pid = pid fl,
          handle_id = 0\<rparr> prev ls))"

fun flock_remove :: "u64 \<Rightarrow> libos_file_lock list \<Rightarrow> libos_file_lock list" where
  "flock_remove h [] = []"
| "flock_remove h (cur # rest) =
     (if family cur \<noteq> FILE_LOCK_FLOCK then cur # flock_remove h rest
      else if handle_id cur = h then rest
      else cur # flock_remove h rest)"

definition flock_lock_set ::
    "mem \<Rightarrow> libos_file_lock list \<Rightarrow> libos_file_lock \<Rightarrow>
     mem \<times> errno option \<times> libos_file_lock list" where
  "flock_lock_set m locks fl =
     (let (new_ok, m1) = (if ltype fl \<noteq> F_UNLCK then malloc m else (True, m)) in
      if \<not> new_ok then (m1, Some ENOMEM, locks) else
      let ls = flock_remove (handle_id fl) locks in
      (m1, None,
       if ltype fl = F_UNLCK then ls
       else \<lparr>family = FILE_LOCK_FLOCK, ltype = ltype fl, start = 0, endb = 0, pid = 0,
             handle_id = handle_id fl\<rparr> # ls))"

definition lock_set_by_family ::
    "mem \<Rightarrow> libos_file_lock list \<Rightarrow> libos_file_lock \<Rightarrow>
     mem \<times> errno option \<times> libos_file_lock list" where
  "lock_set_by_family m locks fl =
     (if family fl = FILE_LOCK_POSIX then posix_lock_set m locks fl else flock_lock_set m locks fl)"

section \<open>Pending requests\<close>

definition notify_waiter :: "file_lock_request \<Rightarrow> errno option \<Rightarrow> notification" where
  "notify_waiter req result =
     (case req_notify req of
        Some (Local_Waiter ev) \<Rightarrow> Event_Set ev result
      | Some (Remote_Waiter v sq) \<Rightarrow> Ipc_Response v (ucast sq) result
      | None \<Rightarrow> Uninitialised_Notify result)"

text \<open>One round of the \<open>do ... while (changed)\<close> loop of \<open>file_lock_process_requests\<close>.\<close>

fun process_pass ::
    "mem \<Rightarrow> libos_file_lock list \<Rightarrow> file_lock_request list \<Rightarrow>
     mem \<times> libos_file_lock list \<times> file_lock_request list \<times> notification list \<times> bool" where
  "process_pass m locks [] = (m, locks, [], [], False)"
| "process_pass m locks (req # rest) =
     (case file_lock_find_conflict locks (req_lock req) of
        None \<Rightarrow>
          (let (m1, result, locks1) = lock_set_by_family m locks (req_lock req);
               (m2, locks2, rest2, ns, _) = process_pass m1 locks1 rest
           in (m2, locks2, rest2, notify_waiter req result # ns, True))
      | Some _ \<Rightarrow>
          (let (m2, locks2, rest2, ns, changed) = process_pass m locks rest
           in (m2, locks2, req # rest2, ns, changed)))"

lemma process_pass_length:
  "process_pass m locks reqs = (m', locks', reqs', ns, changed) \<Longrightarrow>
     length reqs' \<le> length reqs \<and> (changed \<longrightarrow> length reqs' < length reqs)"
proof (induction reqs arbitrary: m locks m' locks' reqs' ns changed)
  case Nil
  then show ?case by simp
next
  case (Cons req rest)
  from Cons.prems show ?case
    by (auto split: option.splits prod.splits dest: Cons.IH)
qed

function file_lock_process_requests ::
    "mem \<Rightarrow> libos_file_lock list \<Rightarrow> file_lock_request list \<Rightarrow>
     mem \<times> libos_file_lock list \<times> file_lock_request list \<times> notification list" where
  "file_lock_process_requests m locks reqs =
     (let (m1, locks1, reqs1, ns1, changed) = process_pass m locks reqs in
      if changed then
        (let (m2, locks2, reqs2, ns2) = file_lock_process_requests m1 locks1 reqs1
         in (m2, locks2, reqs2, ns1 @ ns2))
      else (m1, locks1, reqs1, ns1))"
  by pat_completeness auto
termination
proof (relation "measure (\<lambda>(m, locks, reqs). length reqs)", goal_cases)
  case 1
  show ?case by simp
next
  case (2 m locks reqs x m1 y locks1 z reqs1 w ns1 changed)
  then show ?case using process_pass_length [of m locks reqs m1 locks1 reqs1 ns1 True] by auto
qed

declare file_lock_process_requests.simps [simp del]

section \<open>The locks of all files\<close>

text \<open>
  \<open>g_dent_file_locks_list\<close> with the dentry of each entry; \<open>dent->file_locks\<close> is the entry of
  the dentry in this list, and \<open>dent_refs\<close> counts the references to a dentry.
\<close>

record fs_lock_state =
  dent_locks :: "(nat \<times> dent_file_locks) list"
  dent_refs :: "nat \<Rightarrow> nat"

definition find_dent_file_locks ::
    "mem \<Rightarrow> fs_lock_state \<Rightarrow> nat \<Rightarrow> bool \<Rightarrow> mem \<times> errno option \<times> fs_lock_state" where
  "find_dent_file_locks m st dent create =
     (if map_of (dent_locks st) dent = None \<and> create then
        (let (ok, m1) = malloc m in
         if \<not> ok then (m1, Some ENOMEM, st)
         else (m1, None,
           st\<lparr>dent_locks := (dent, \<lparr>posix_used = False, flock_used = False, file_locks = [],
                                  file_lock_requests = []\<rparr>) # dent_locks st,
              dent_refs := (dent_refs st)(dent := dent_refs st dent + 1)\<rparr>))
      else (m, None, st))"

definition set_dent_file_locks ::
    "fs_lock_state \<Rightarrow> nat \<Rightarrow> dent_file_locks \<Rightarrow> fs_lock_state" where
  "set_dent_file_locks st dent d =
     st\<lparr>dent_locks := map (\<lambda>(k, v). if k = dent then (k, d) else (k, v)) (dent_locks st)\<rparr>"

definition dent_file_locks_gc :: "fs_lock_state \<Rightarrow> nat \<Rightarrow> fs_lock_state" where
  "dent_file_locks_gc st dent =
     (case map_of (dent_locks st) dent of
        None \<Rightarrow> st
      | Some d \<Rightarrow>
          (if file_locks d = [] \<and> file_lock_requests d = [] then
             st\<lparr>dent_locks := filter (\<lambda>(k, v). k \<noteq> dent) (dent_locks st),
                dent_refs := (dent_refs st)(dent := dent_refs st dent - 1)\<rparr>
           else st))"

definition file_lock_add_request ::
    "mem \<Rightarrow> dent_file_locks \<Rightarrow> libos_file_lock \<Rightarrow> mem \<times> errno option \<times> dent_file_locks" where
  "file_lock_add_request m d fl =
     (let (ok, m1) = malloc m in
      if \<not> ok then (m1, Some ENOMEM, d)
      else (m1, None,
        d\<lparr>file_lock_requests := \<lparr>req_lock = fl, req_notify = None\<rparr> # file_lock_requests d\<rparr>))"

definition mark_used :: "libos_file_lock \<Rightarrow> dent_file_locks \<Rightarrow> dent_file_locks" where
  "mark_used fl d =
     (if ltype fl = F_UNLCK then d
      else if family fl = FILE_LOCK_POSIX then d\<lparr>posix_used := True\<rparr>
      else if family fl = FILE_LOCK_FLOCK then d\<lparr>flock_used := True\<rparr>
      else d)"

text \<open>
  The part of \<open>file_lock_set_or_add_request\<close> that works on the entry of the dentry: the
  result code, whether a request was added, the notifications sent, and the new entry.
\<close>

definition set_or_add_in_dent ::
    "mem \<Rightarrow> dent_file_locks \<Rightarrow> libos_file_lock \<Rightarrow> bool \<Rightarrow>
     mem \<times> errno option \<times> bool \<times> notification list \<times> dent_file_locks" where
  "set_or_add_in_dent m d fl wait =
     (if ltype fl \<noteq> F_UNLCK \<and>
         (family fl = FILE_LOCK_FLOCK \<and> posix_used d \<or> family fl = FILE_LOCK_POSIX \<and> flock_used d)
      then (m, Some EPERM, False, [], d)
      else if ltype fl \<noteq> F_UNLCK \<and> file_lock_find_conflict (file_locks d) fl \<noteq> None then
        (if \<not> wait then (m, Some EAGAIN, False, [], d)
         else
           (let (m1, ret, d1) = file_lock_add_request m d fl in
            if ret \<noteq> None then (m1, ret, False, [], d1)
            else (m1, None, True, [], mark_used fl d1)))
      else
        (let (m1, ret, locks1) = lock_set_by_family m (file_locks d) fl in
         if ret \<noteq> None then (m1, ret, False, [], d)
         else
           (let (m2, locks2, reqs2, ns) =
                  file_lock_process_requests m1 locks1 (file_lock_requests d)
            in (m2, None, False, ns,
                mark_used fl (d\<lparr>file_locks := locks2, file_lock_requests := reqs2\<rparr>)))))"

definition file_lock_set_or_add_request ::
    "mem \<Rightarrow> fs_lock_state \<Rightarrow> nat \<Rightarrow> libos_file_lock \<Rightarrow> bool \<Rightarrow>
     mem \<times> errno option \<times> bool \<times> notification list \<times> fs_lock_state" where
  "file_lock_set_or_add_request m st dent fl wait =
     (let (m1, ret, st1) = find_dent_file_locks m st dent (ltype fl \<noteq> F_UNLCK) in
      if ret \<noteq> None then (m1, ret, False, [], st1)
      else
        (case map_of (dent_locks st1) dent of
           None \<Rightarrow> (m1, None, False, [], st1)
         | Some d \<Rightarrow>
             (let (m2, ret2, added, ns, d2) = set_or_add_in_dent m1 d fl wait
              in (m2, ret2, added, ns, dent_file_locks_gc (set_dent_file_locks st1 dent d2) dent))))"

text \<open>
  \<open>file_lock_set\<close> in the process leader, up to the point where it returns or blocks on the
  event. \<open>ev\<close> is the outcome of \<open>PalEventCreate\<close>. The fresh request is the head of the list
  of pending requests of the dentry.
\<close>

definition fill_notify :: "fs_lock_state \<Rightarrow> nat \<Rightarrow> notify \<Rightarrow> fs_lock_state" where
  "fill_notify st dent n =
     (case map_of (dent_locks st) dent of
        Some d \<Rightarrow>
          (case file_lock_requests d of
             req # reqs \<Rightarrow>
               set_dent_file_locks st dent
                 (d\<lparr>file_lock_requests := req\<lparr>req_notify := Some n\<rparr> # reqs\<rparr>)
           | [] \<Rightarrow> st)
      | None \<Rightarrow> st)"

datatype set_outcome = Returned "errno option" | Blocked nat

definition file_lock_set_leader ::
    "mem \<Rightarrow> errno + nat \<Rightarrow> fs_lock_state \<Rightarrow> nat \<Rightarrow> libos_file_lock \<Rightarrow> bool \<Rightarrow>
     mem \<times> set_outcome \<times> notification list \<times> fs_lock_state" where
  "file_lock_set_leader m ev st dent fl wait =
     (let (m1, ret, added, ns, st1) = file_lock_set_or_add_request m st dent fl wait in
      if ret \<noteq> None then (m1, Returned ret, ns, st1)
      else if added then
        (case ev of
           Inl err \<Rightarrow> (m1, Returned (Some err), ns, st1)
         | Inr event \<Rightarrow> (m1, Blocked event, ns, fill_notify st1 dent (Local_Waiter event)))
      else (m1, Returned None, ns, st1))"

text \<open>
  \<open>file_lock_set\<close> and \<open>file_lock_get\<close> in any other process: \<open>maybe_has\<close> is
  \<open>maybe_has_file_locks\<close> of the dentry, \<open>path\<close> the outcome of \<open>dentry_abs_path\<close>, \<open>ipc\<close> what
  the call to the leader returns for that path. The result says also whether the leader was asked.
\<close>

definition file_lock_set_follower ::
    "bool \<Rightarrow> libos_file_lock \<Rightarrow> errno + string \<Rightarrow> (string \<Rightarrow> errno option) \<Rightarrow>
     bool \<times> bool \<times> errno option" where
  "file_lock_set_follower maybe_has fl path ipc =
     (let maybe_has' = (if ltype fl = F_RDLCK \<or> ltype fl = F_WRLCK then True else maybe_has) in
      if \<not> (ltype fl = F_RDLCK \<or> ltype fl = F_WRLCK) \<and> \<not> maybe_has then (maybe_has', False, None)
      else
        (case path of
           Inl err \<Rightarrow> (maybe_has', False, Some err)
         | Inr p \<Rightarrow> (maybe_has', True, ipc p)))"

definition file_lock_get_follower ::
    "errno + string \<Rightarrow> (string \<Rightarrow> errno + libos_file_lock) \<Rightarrow> errno + libos_file_lock" where
  "file_lock_get_follower path ipc = (case path of Inl err \<Rightarrow> Inl err | Inr p \<Rightarrow> ipc p)"

text \<open>
  \<open>file_lock_set_from_ipc\<close>; \<open>looked_up\<close> is the outcome of \<open>path_lookupat\<close>, which takes a
  reference to the dentry it returns. The sequence number is stored in a field of type
  \<open>unsigned int\<close> when the response is deferred.
\<close>

definition file_lock_set_from_ipc ::
    "mem \<Rightarrow> errno + nat \<Rightarrow> fs_lock_state \<Rightarrow> libos_file_lock \<Rightarrow> bool \<Rightarrow> u32 \<Rightarrow> u64 \<Rightarrow>
     mem \<times> notification list \<times> fs_lock_state" where
  "file_lock_set_from_ipc m looked_up st fl wait vmid sq =
     (case looked_up of
        Inl err \<Rightarrow> (m, [Ipc_Response vmid sq (Some err)], st)
      | Inr dent \<Rightarrow>
          (let st0 = st\<lparr>dent_refs := (dent_refs st)(dent := dent_refs st dent + 1)\<rparr>;
               (m1, ret, added, ns, st1) = file_lock_set_or_add_request m st0 dent fl wait;
               st2 = (if added then fill_notify st1 dent (Remote_Waiter vmid (ucast sq)) else st1);
               st3 = st2\<lparr>dent_refs := (dent_refs st2)(dent := dent_refs st2 dent - 1)\<rparr>
           in (m1, if added then ns else ns @ [Ipc_Response vmid sq ret], st3)))"

definition file_lock_get_leader ::
    "fs_lock_state \<Rightarrow> nat \<Rightarrow> libos_file_lock \<Rightarrow> libos_file_lock \<Rightarrow> libos_file_lock \<times> fs_lock_state"
  where
  "file_lock_get_leader st dent fl out =
     (case map_of (dent_locks st) dent of
        None \<Rightarrow> (out\<lparr>ltype := F_UNLCK\<rparr>, st)
      | Some d \<Rightarrow>
          (case file_lock_find_conflict (file_locks d) fl of
             Some c \<Rightarrow> (c, dent_file_locks_gc st dent)
           | None \<Rightarrow> (out\<lparr>ltype := F_UNLCK\<rparr>, dent_file_locks_gc st dent)))"

text \<open>\<open>file_lock_get_from_ipc\<close>: the lookup error, or the answer of \<open>file_lock_get\<close>.\<close>

definition file_lock_get_from_ipc ::
    "errno + nat \<Rightarrow> fs_lock_state \<Rightarrow> libos_file_lock \<Rightarrow> libos_file_lock \<Rightarrow>
     (errno + libos_file_lock) \<times> fs_lock_state" where
  "file_lock_get_from_ipc looked_up st fl out =
     (case looked_up of
        Inl err \<Rightarrow> (Inl err, st)
      | Inr dent \<Rightarrow>
          (let st0 = st\<lparr>dent_refs := (dent_refs st)(dent := dent_refs st dent + 1)\<rparr>;
               (res, st1) = file_lock_get_leader st0 dent fl out
           in (Inr res, st1\<lparr>dent_refs := (dent_refs st1)(dent := dent_refs st1 dent - 1)\<rparr>)))"

section \<open>Process exit\<close>

definition is_posix_of :: "u32 \<Rightarrow> libos_file_lock \<Rightarrow> bool" where
  "is_posix_of p fl \<longleftrightarrow> family fl = FILE_LOCK_POSIX \<and> pid fl = p"

definition file_lock_clear_pid_from_dentry ::
    "mem \<Rightarrow> fs_lock_state \<Rightarrow> nat \<Rightarrow> u32 \<Rightarrow> mem \<times> notification list \<times> fs_lock_state" where
  "file_lock_clear_pid_from_dentry m st dent p =
     (case map_of (dent_locks st) dent of
        None \<Rightarrow> (m, [], st)
      | Some d \<Rightarrow>
          (let locks1 = filter (\<lambda>fl. \<not> is_posix_of p fl) (file_locks d);
               changed = (\<exists>fl\<in>set (file_locks d). is_posix_of p fl);
               reqs1 = filter (\<lambda>req. \<not> is_posix_of p (req_lock req)) (file_lock_requests d)
           in if changed then
                (let (m1, locks2, reqs2, ns) = file_lock_process_requests m locks1 reqs1
                 in (m1, ns,
                     dent_file_locks_gc
                       (set_dent_file_locks st dent
                          (d\<lparr>file_locks := locks2, file_lock_requests := reqs2\<rparr>)) dent))
              else
                (m, [],
                 set_dent_file_locks st dent
                   (d\<lparr>file_locks := locks1, file_lock_requests := reqs1\<rparr>))))"

fun clear_pid_loop ::
    "mem \<Rightarrow> fs_lock_state \<Rightarrow> nat list \<Rightarrow> u32 \<Rightarrow> mem \<times> notification list \<times> fs_lock_state" where
  "clear_pid_loop m st [] p = (m, [], st)"
| "clear_pid_loop m st (dent # dents) p =
     (let (m1, ns1, st1) = file_lock_clear_pid_from_dentry m st dent p;
          (m2, ns2, st2) = clear_pid_loop m1 st1 dents p
      in (m2, ns1 @ ns2, st2))"

definition file_lock_clear_pid ::
    "mem \<Rightarrow> fs_lock_state \<Rightarrow> u32 \<Rightarrow> mem \<times> notification list \<times> fs_lock_state" where
  "file_lock_clear_pid m st p = clear_pid_loop m st (map fst (dent_locks st)) p"

text \<open>
  The assertion \<open>!req->notify.event\<close> of \<open>file_lock_clear_pid_from_dentry\<close>: a request that is
  removed does not wait on an event of the leader; then the same for the whole loop.
\<close>

definition waits_locally :: "file_lock_request \<Rightarrow> bool" where
  "waits_locally req = (case req_notify req of Some (Local_Waiter ev) \<Rightarrow> True | _ \<Rightarrow> False)"

definition clear_pid_from_dentry_asserts :: "fs_lock_state \<Rightarrow> nat \<Rightarrow> u32 \<Rightarrow> bool" where
  "clear_pid_from_dentry_asserts st dent p =
     (case map_of (dent_locks st) dent of
        None \<Rightarrow> True
      | Some d \<Rightarrow> \<not> (\<exists>req\<in>set (file_lock_requests d). is_posix_of p (req_lock req) \<and> waits_locally req))"

fun clear_pid_asserts :: "mem \<Rightarrow> fs_lock_state \<Rightarrow> nat list \<Rightarrow> u32 \<Rightarrow> bool" where
  "clear_pid_asserts m st [] p = True"
| "clear_pid_asserts m st (dent # dents) p =
     (clear_pid_from_dentry_asserts st dent p \<and>
      (let (m1, ns1, st1) = file_lock_clear_pid_from_dentry m st dent p
       in clear_pid_asserts m1 st1 dents p))"

text \<open>
  \<open>init_fs_lock\<close> returns what \<open>create_lock\<close> returns, a \<open>bool\<close>, as its \<open>int\<close> result; the
  initialisation macro \<open>RUN_INIT\<close> takes a result below 0 for a failure.
\<close>

definition init_fs_lock :: "u32 \<Rightarrow> bool \<Rightarrow> int" where
  "init_fs_lock leader_vmid lock_created =
     (if leader_vmid \<noteq> 0 then 0 else if lock_created then 1 else 0)"

end
