(* ===== verification/Fs_Lock_Posix.thy ===== *)
theory Fs_Lock_Posix
  imports Fs_Lock
begin

text \<open>
  What \<open>_posix_lock_set\<close> does to the bytes of a file. The list of POSIX locks is sorted by PID
  and position, its ranges do not overlap within a PID, and neighbours of the same type are
  not even adjacent. Setting or removing a lock changes who holds what exactly on the bytes of
  the given range for the given PID.
\<close>

section \<open>The order of the list and the bytes it covers\<close>

definition lock_before :: "libos_file_lock \<Rightarrow> libos_file_lock \<Rightarrow> bool" where
  "lock_before a b \<longleftrightarrow>
     pid a < pid b \<or>
     pid a = pid b \<and> endb a < start b \<and> (ltype a = ltype b \<longrightarrow> endb a + 1 < start b)"

definition posix_wf :: "libos_file_lock list \<Rightarrow> bool" where
  "posix_wf locks \<longleftrightarrow>
     sorted_wrt lock_before locks \<and>
     (\<forall>a\<in>set locks. family a = FILE_LOCK_POSIX \<and> start a \<le> endb a \<and> ltype a \<noteq> F_UNLCK)"

definition holds :: "libos_file_lock list \<Rightarrow> u32 \<Rightarrow> u64 \<Rightarrow> lock_type \<Rightarrow> bool" where
  "holds locks p b t \<longleftrightarrow>
     (\<exists>a\<in>set locks. pid a = p \<and> start a \<le> b \<and> b \<le> endb a \<and> ltype a = t)"

lemma holds_Nil [simp]: "\<not> holds [] p b t"
  by (simp add: holds_def)

lemma holds_append [simp]: "holds (xs @ ys) p b t \<longleftrightarrow> holds xs p b t \<or> holds ys p b t"
  by (auto simp: holds_def)

lemma holds_Cons [simp]:
  "holds (a # xs) p b t \<longleftrightarrow>
     pid a = p \<and> start a \<le> b \<and> b \<le> endb a \<and> ltype a = t \<or> holds xs p b t"
  by (auto simp: holds_def)

text \<open>A lock before, and a lock after, the target range \<open>s..e\<close> of a lock of type \<open>t\<close> of
  process \<open>p\<close>, far enough not to merge with it.\<close>

definition before_target :: "u32 \<Rightarrow> lock_type \<Rightarrow> u64 \<Rightarrow> libos_file_lock \<Rightarrow> bool" where
  "before_target p t s a \<longleftrightarrow> pid a < p \<or> pid a = p \<and> endb a < s \<and> (ltype a = t \<longrightarrow> endb a + 1 < s)"

definition after_target :: "u32 \<Rightarrow> lock_type \<Rightarrow> u64 \<Rightarrow> libos_file_lock \<Rightarrow> bool" where
  "after_target p t e a \<longleftrightarrow> p < pid a \<or> pid a = p \<and> e < start a \<and> (ltype a = t \<longrightarrow> e + 1 < start a)"

lemma succ_less: "(x::u64) < y \<Longrightarrow> y < z \<Longrightarrow> x + 1 < z"
  by unat_arith

lemma succ_less_le: "(x::u64) < y \<Longrightarrow> y \<le> z \<Longrightarrow> x + 1 \<le> z"
  by unat_arith

lemma less_pred_succ: "(x::u64) < s - 1 \<Longrightarrow> 0 < s \<Longrightarrow> x < s \<and> x + 1 < s"
  by unat_arith

lemma succ_less_succ: "(e::u64) < - 1 \<Longrightarrow> e + 1 < x \<Longrightarrow> e < x"
  by unat_arith

lemma posix_wf_append_Cons:
  "posix_wf (xs @ a # ys) \<longleftrightarrow>
     posix_wf (xs @ ys) \<and> (\<forall>x\<in>set xs. lock_before x a) \<and> (\<forall>y\<in>set ys. lock_before a y) \<and>
     family a = FILE_LOCK_POSIX \<and> start a \<le> endb a \<and> ltype a \<noteq> F_UNLCK"
  by (auto simp: posix_wf_def sorted_wrt_append_Cons)

lemma lock_before_after_target:
  assumes "lock_before a b" "start a \<le> endb a"
    and "p < pid a \<or> pid a = p \<and> e < endb a"
  shows "after_target p t e b"
  using assms succ_less [of e "endb a" "start b"]
  by (auto simp: lock_before_def after_target_def)

section \<open>The loop\<close>

definition prev_of :: "'a list \<Rightarrow> nat option" where
  "prev_of d = (if d = [] then None else Some (length d - 1))"

lemma prev_of_simps [simp]: "prev_of [] = None" "prev_of (d @ [a]) = Some (length d)"
  by (simp_all add: prev_of_def)

lemma insert_after_prev_of: "insert_after x (prev_of d) (d @ r) = d @ x # r"
  by (cases d rule: rev_cases) (simp_all add: insert_after_def)

text \<open>\<open>loop_effect\<close>: the list \<open>ls\<close> covers the bytes of \<open>L\<close> but for those of \<open>p\<close> in the final range,
  and what the range gained over \<open>s..e\<close> was covered by locks of the target type.\<close>

definition loop_effect ::
    "libos_file_lock \<Rightarrow> u64 \<Rightarrow> u64 \<Rightarrow> libos_file_lock list \<Rightarrow> u64 \<Rightarrow> u64 \<Rightarrow> libos_file_lock list \<Rightarrow> bool"
  where
  "loop_effect fl s e L s' e' ls \<longleftrightarrow>
     s' \<le> s \<and> e \<le> e' \<and>
     (\<forall>q b u. holds ls q b u \<longleftrightarrow> holds L q b u \<and> \<not> (q = pid fl \<and> s' \<le> b \<and> b \<le> e')) \<and>
     (\<forall>b. s' \<le> b \<and> b \<le> e' \<and> \<not> (s \<le> b \<and> b \<le> e) \<longrightarrow> holds L (pid fl) b (ltype fl))"

definition loop_pre ::
    "libos_file_lock \<Rightarrow> u64 \<Rightarrow> u64 \<Rightarrow> nat option \<Rightarrow> libos_file_lock list \<Rightarrow> libos_file_lock list \<Rightarrow> bool"
  where
  "loop_pre fl s e prev don rest \<longleftrightarrow>
     posix_wf (don @ rest) \<and> s \<le> e \<and> prev = prev_of don \<and>
     (\<forall>a\<in>set don. before_target (pid fl) (ltype fl) s a)"

definition loop_post ::
    "libos_file_lock \<Rightarrow> u64 \<Rightarrow> u64 \<Rightarrow> libos_file_lock list \<Rightarrow>
     u64 \<times> u64 \<times> nat option \<times> libos_file_lock list \<Rightarrow> bool" where
  "loop_post fl s e L res \<longleftrightarrow>
     (\<exists>s' e' d r. res = (s', e', prev_of d, d @ r) \<and> posix_wf (d @ r) \<and>
        (\<forall>a\<in>set d. before_target (pid fl) (ltype fl) s' a) \<and>
        (\<forall>a\<in>set r. after_target (pid fl) (ltype fl) e' a) \<and>
        s' \<le> e' \<and> loop_effect fl s e L s' e' (d @ r))"

lemma loop_postI:
  assumes "posix_wf (d @ r)" "s' \<le> e'"
    and "\<forall>a\<in>set d. before_target (pid fl) (ltype fl) s' a"
    and "\<forall>a\<in>set r. after_target (pid fl) (ltype fl) e' a"
    and "loop_effect fl s e L s' e' (d @ r)"
  shows "loop_post fl s e L (s', e', prev_of d, d @ r)"
  using assms unfolding loop_post_def by blast

text \<open>Composition: one step turns \<open>L\<close> into \<open>L1\<close> and the range into \<open>s1..e1\<close>; the rest of the loop
  starts there.\<close>

lemma loop_post_step:
  assumes post: "loop_post fl s1 e1 L1 res"
    and range: "s1 \<le> s" "e \<le> e1"
    and removed: "\<And>q b u. holds L1 q b u \<longleftrightarrow> holds L q b u \<and> \<not> (q = pid fl \<and> l \<le> b \<and> b \<le> h)"
    and inside: "s1 \<le> l" "h \<le> e1"
    and gained: "\<And>b. s1 \<le> b \<Longrightarrow> b \<le> e1 \<Longrightarrow> \<not> (s \<le> b \<and> b \<le> e) \<Longrightarrow> holds L (pid fl) b (ltype fl)"
  shows "loop_post fl s e L res"
proof -
  from post obtain s' e' d r where
    res: "res = (s', e', prev_of d, d @ r)" "posix_wf (d @ r)" "s' \<le> e'"
      "\<forall>a\<in>set d. before_target (pid fl) (ltype fl) s' a"
      "\<forall>a\<in>set r. after_target (pid fl) (ltype fl) e' a"
    and eff: "loop_effect fl s1 e1 L1 s' e' (d @ r)"
    unfolding loop_post_def by blast
  have le: "s' \<le> s1" "e1 \<le> e'"
    using eff by (auto simp: loop_effect_def)
  have "loop_effect fl s e L s' e' (d @ r)"
    unfolding loop_effect_def
  proof (intro conjI allI impI)
    show "s' \<le> s" "e \<le> e'"
      using le range by order+
  next
    fix q b u
    show "holds (d @ r) q b u \<longleftrightarrow> holds L q b u \<and> \<not> (q = pid fl \<and> s' \<le> b \<and> b \<le> e')"
    proof -
      have "s' \<le> b \<and> b \<le> e'" if "l \<le> b \<and> b \<le> h"
        using that inside le by (safe; order)
      then show ?thesis
        using eff removed [of q b u] unfolding loop_effect_def by blast
    qed
  next
    fix b
    assume b: "s' \<le> b \<and> b \<le> e' \<and> \<not> (s \<le> b \<and> b \<le> e)"
    show "holds L (pid fl) b (ltype fl)"
    proof (cases "s1 \<le> b \<and> b \<le> e1")
      case True
      with b gained show ?thesis by blast
    next
      case False
      with b eff have "holds L1 (pid fl) b (ltype fl)"
        unfolding loop_effect_def by blast
      with removed show ?thesis by blast
    qed
  qed
  with res show ?thesis
    using loop_postI by auto
qed

text \<open>No lock of the list but \<open>cur\<close> itself covers a byte of \<open>cur\<close> for its process.\<close>

lemma lock_before_disjoint:
  assumes "lock_before a c" "pid a = pid c" "b \<le> endb a" "start c \<le> b"
  shows False
proof -
  have "endb a < start c"
    using assms(1,2) by (simp add: lock_before_def)
  with assms(3,4) show False by order
qed

lemma wf_removed:
  assumes "posix_wf (don @ cur # rest)"
  shows "holds (don @ rest) q b u \<longleftrightarrow>
    holds (don @ cur # rest) q b u \<and> \<not> (q = pid cur \<and> start cur \<le> b \<and> b \<le> endb cur)"
proof -
  have "\<not> (pid a = pid cur \<and> start a \<le> b \<and> b \<le> endb a \<and> start cur \<le> b \<and> b \<le> endb cur)"
    if "a \<in> set (don @ rest)" for a
  proof -
    from that assms consider "lock_before a cur" | "lock_before cur a"
      unfolding posix_wf_append_Cons by auto
    then show ?thesis
      by cases (metis lock_before_disjoint)+
  qed
  then show ?thesis
    unfolding holds_def by auto
qed

text \<open>The ways the loop goes on or stops, one lemma per branch.\<close>

lemma loop_stop:
  assumes "loop_pre fl s e prev don rest"
    and "\<forall>a\<in>set rest. after_target (pid fl) (ltype fl) e a"
  shows "loop_post fl s e (don @ rest) (s, e, prev, don @ rest)"
proof -
  have "\<not> (s \<le> b \<and> b \<le> e)" if "holds (don @ rest) (pid fl) b u" for b u
    using that assms unfolding loop_pre_def holds_def
    by (auto simp: before_target_def after_target_def)
  then have "loop_effect fl s e (don @ rest) s e (don @ rest)"
    unfolding loop_effect_def by blast
  with assms show ?thesis
    using loop_postI [of don rest s e fl s e "don @ rest"] by (simp add: loop_pre_def)
qed

lemma loop_keep:
  assumes "loop_pre fl s e prev don (cur # rest)"
    and "before_target (pid fl) (ltype fl) s cur"
  shows "loop_pre fl s e (Some (length don)) (don @ [cur]) rest"
  using assms by (auto simp: loop_pre_def)

lemma loop_drop:
  assumes "loop_pre fl s e prev don (cur # rest)"
  shows "loop_pre fl s e prev don rest"
  using assms by (auto simp: loop_pre_def posix_wf_append_Cons)

lemma loop_merge:
  assumes pre: "loop_pre fl s e prev don (cur # rest)"
    and cur: "pid cur = pid fl" "ltype cur = ltype fl"
  shows "loop_pre fl (min s (start cur)) (max e (endb cur)) prev don rest"
proof -
  have "before_target (pid fl) (ltype fl) (min s (start cur)) a" if "a \<in> set don" for a
  proof -
    from that pre have "before_target (pid fl) (ltype fl) s a" "lock_before a cur"
      by (auto simp: loop_pre_def posix_wf_append_Cons)
    with cur show ?thesis
      by (auto simp: before_target_def lock_before_def)
  qed
  moreover have "min s (start cur) \<le> max e (endb cur)"
    using pre by (auto simp: loop_pre_def min_le_iff_disj le_max_iff_disj)
  ultimately show ?thesis
    using loop_drop [OF pre] by (auto simp: loop_pre_def)
qed

lemma loop_shorten:
  assumes pre: "loop_pre fl s e prev don (cur # rest)"
    and cur: "pid cur = pid fl" "ltype cur \<noteq> ltype fl" "start cur < s" "s \<le> endb cur"
  shows "loop_pre fl s e (Some (length don)) (don @ [cur\<lparr>endb := s - 1\<rparr>]) rest"
proof -
  have s: "0 < s" using cur(3) by (rule word_less_pos)
  have "lock_before (cur\<lparr>endb := s - 1\<rparr>) y" if "lock_before cur y" for y
    using that cur(4) s succ_less [of "s - 1" s "start y"]
    by (auto simp: lock_before_def word_order succ_less) 
  with pre cur s show ?thesis
    by (auto simp: loop_pre_def posix_wf_append_Cons lock_before_def before_target_def word_order)
qed

text \<open>A step that replaces \<open>cur\<close> by what is left of it outside of \<open>l..h\<close>.\<close>

lemma carve_removed:
  assumes wf: "posix_wf (don @ cur # rest)"
    and pieces: "\<And>q b u. holds ps q b u \<longleftrightarrow>
      pid cur = q \<and> ltype cur = u \<and> start cur \<le> b \<and> b \<le> endb cur \<and> \<not> (l \<le> b \<and> b \<le> h)"
    and inside: "start cur \<le> l" "h \<le> endb cur"
  shows "holds (don @ ps @ rest) q b u \<longleftrightarrow>
    holds (don @ cur # rest) q b u \<and> \<not> (q = pid cur \<and> l \<le> b \<and> b \<le> h)"
proof -
  have "holds (don @ rest) q b u \<longleftrightarrow>
      holds (don @ rest) q b u \<and> \<not> (q = pid cur \<and> start cur \<le> b \<and> b \<le> endb cur)"
    using wf_removed [OF wf, of q b u] by blast
  moreover have "start cur \<le> b \<and> b \<le> endb cur" if "l \<le> b \<and> b \<le> h"
    using that inside by (safe; order)
  ultimately show ?thesis
    using pieces [of q b u] by auto
qed

lemma loop_effect_same:
  assumes "\<And>q b u. holds ls q b u \<longleftrightarrow> holds L q b u \<and> \<not> (q = pid fl \<and> s \<le> b \<and> b \<le> e)"
  shows "loop_effect fl s e L s e ls"
  using assms by (auto simp: loop_effect_def)

lemma loop_split:
  assumes pre: "loop_pre fl s e prev don (cur # rest)"
    and cur: "pid cur = pid fl" "ltype cur \<noteq> ltype fl" "start cur < s" "e < endb cur"
    and extra: "extra = \<lparr>family = FILE_LOCK_POSIX, ltype = ltype cur, start = e + 1,
                  endb = endb cur, pid = pid cur, handle_id = 0\<rparr>"
  shows "loop_post fl s e (don @ cur # rest)
    (s, e, Some (length don), don @ cur\<lparr>endb := s - 1\<rparr> # extra # rest)"
proof -
  let ?c = "cur\<lparr>endb := s - 1\<rparr>"
  have s: "0 < s" and e: "e < - 1" and se: "s \<le> e"
    using cur(3,4) pre by (auto intro: word_less_pos word_less_neq_max simp: loop_pre_def)
  have wf: "posix_wf (don @ cur # rest)"
    using pre by (simp add: loop_pre_def)
  have pre1: "loop_pre fl s e (Some (length don)) (don @ [?c]) rest"
    using se cur by (intro loop_shorten [OF pre]) (order | simp)+
  have after: "after_target (pid fl) (ltype fl) e y" if "y \<in> set rest" for y
    using that wf cur by (auto simp: posix_wf_append_Cons intro: lock_before_after_target)
  have order: "lock_before ?c extra" "\<forall>y\<in>set rest. lock_before extra y"
    "\<forall>x\<in>set don. lock_before x extra" "start extra \<le> endb extra"
    using wf pre cur s e se succ_less [of _ s "e + 1"]
    by (auto simp: posix_wf_append_Cons lock_before_def extra word_order loop_pre_def
          before_target_def succ_less_le)
  have wf': "posix_wf ((don @ [?c]) @ extra # rest)"
    using pre1 order wf by (auto simp: loop_pre_def posix_wf_append_Cons extra)
  have "holds (don @ [?c, extra] @ rest) q b u \<longleftrightarrow>
      holds (don @ cur # rest) q b u \<and> \<not> (q = pid cur \<and> s \<le> b \<and> b \<le> e)" for q b u
    by (rule carve_removed [OF wf]) (use cur s e se in \<open>auto simp: extra word_order not_le\<close>)
  then have "loop_effect fl s e (don @ cur # rest) s e ((don @ [?c]) @ extra # rest)"
    using cur(1) by (intro loop_effect_same) simp
  with wf' pre1 after se cur show ?thesis
    using loop_postI [of "don @ [?c]" "extra # rest" s e fl s e "don @ cur # rest"] e
    by (auto simp: loop_pre_def after_target_def extra word_order)
qed

lemma loop_trim:
  assumes pre: "loop_pre fl s e prev don (cur # rest)"
    and cur: "pid cur = pid fl" "ltype cur \<noteq> ltype fl" "s \<le> start cur" "start cur \<le> e" "e < endb cur"
  shows "loop_post fl s e (don @ cur # rest) (s, e, prev, don @ cur\<lparr>start := e + 1\<rparr> # rest)"
proof -
  let ?c = "cur\<lparr>start := e + 1\<rparr>"
  have e: "e < - 1" and se: "s \<le> e"
    using cur(5) pre by (auto intro: word_less_neq_max simp: loop_pre_def)
  have wf: "posix_wf (don @ cur # rest)" and prev: "prev = prev_of don"
    using pre by (simp_all add: loop_pre_def)
  have "lock_before x ?c" if "lock_before x cur" for x
    using that cur(4) e succ_less [of "endb x" "start cur" "e + 1"]
    by (auto simp: lock_before_def word_order)
  then have wf': "posix_wf (don @ ?c # rest)"
    using wf cur(5) e by (auto simp: posix_wf_append_Cons lock_before_def word_order)
  have after: "after_target (pid fl) (ltype fl) e y" if "y \<in> set rest" for y
    using that wf cur by (auto simp: posix_wf_append_Cons intro: lock_before_after_target)
  have "holds (don @ [?c] @ rest) q b u \<longleftrightarrow>
      holds (don @ cur # rest) q b u \<and> \<not> (q = pid cur \<and> start cur \<le> b \<and> b \<le> e)" for q b u
    by (rule carve_removed [OF wf]) (use cur e in \<open>auto simp: word_order not_le\<close>)
  note carved = this
  have gap: "\<not> holds (don @ cur # rest) (pid cur) b u" if "s \<le> b" "b < start cur" for b u
  proof -
    have "\<not> holds don (pid cur) b u"
      using that pre cur(1) by (auto simp: holds_def loop_pre_def before_target_def)
    moreover have "\<not> holds rest (pid cur) b u"
      using that after cur(1,4) by (fastforce simp: holds_def after_target_def)
    ultimately show ?thesis
      using that by auto
  qed
  have "holds (don @ ?c # rest) q b u \<longleftrightarrow>
      holds (don @ cur # rest) q b u \<and> \<not> (q = pid fl \<and> s \<le> b \<and> b \<le> e)" for q b u
  proof (cases "q = pid fl \<and> s \<le> b \<and> b < start cur")
    case True
    with gap [of b u] carved [of q b u] cur(1) show ?thesis by auto
  next
    case False
    then have "q = pid cur \<and> start cur \<le> b \<and> b \<le> e \<longleftrightarrow> q = pid fl \<and> s \<le> b \<and> b \<le> e"
      using cur(1,3) by auto
    with carved [of q b u] show ?thesis by simp
  qed
  then have "loop_effect fl s e (don @ cur # rest) s e (don @ ?c # rest)"
    by (rule loop_effect_same)
  with wf' after se cur e pre show ?thesis
    unfolding prev
    by (intro loop_postI) (auto simp: loop_pre_def after_target_def word_order)
qed

lemma merge_gained:
  assumes adj: "\<not> (0 < s \<and> h < s - 1)" "\<not> (e < - 1 \<and> e + 1 < l)"
    and b: "min s l \<le> b" "b \<le> max e h" "\<not> (s \<le> b \<and> b \<le> e)"
  shows "l \<le> b \<and> b \<le> (h::u64)"
proof (rule ccontr)
  assume "\<not> (l \<le> b \<and> b \<le> h)"
  then consider "b < l" | "h < b" by fastforce
  then show False
  proof cases
    case 1
    with b have e: "e < b" by (auto simp: min_le_iff_disj)
    then have "e < - 1" by (rule word_less_neq_max)
    with e 1 adj(2) show False by (simp add: succ_less)
  next
    case 2
    with b have s: "b < s" by (auto simp: le_max_iff_disj)
    then have "0 < s" by (rule word_less_pos)
    moreover from this s have "b \<le> s - 1" by (simp add: word_order)
    ultimately show False using 2 adj(1) by auto
  qed
qed

lemma loop_merge_post:
  assumes pre: "loop_pre fl s e prev don (cur # rest)"
    and cur: "pid cur = pid fl" "ltype cur = ltype fl"
    and adj: "\<not> (0 < s \<and> endb cur < s - 1)" "\<not> (e < FS_LOCK_EOF \<and> e + 1 < start cur)"
    and post: "loop_post fl (min s (start cur)) (max e (endb cur)) (don @ rest) res"
  shows "loop_post fl s e (don @ cur # rest) res"
proof (rule loop_post_step [OF post, where l = "start cur" and h = "endb cur"])
  show "holds (don @ rest) q b u \<longleftrightarrow> holds (don @ cur # rest) q b u \<and>
      \<not> (q = pid fl \<and> start cur \<le> b \<and> b \<le> endb cur)" for q b u
    using wf_removed [of don cur rest q b u] pre cur by (simp add: loop_pre_def)
next
  fix b
  assume "min s (start cur) \<le> b" "b \<le> max e (endb cur)" "\<not> (s \<le> b \<and> b \<le> e)"
  with merge_gained adj have "start cur \<le> b \<and> b \<le> endb cur"
    unfolding FS_LOCK_EOF_def by blast
  with cur show "holds (don @ cur # rest) (pid fl) b (ltype fl)" by simp
qed auto

lemma loop_shorten_post:
  assumes pre: "loop_pre fl s e prev don (cur # rest)"
    and cur: "pid cur = pid fl" "start cur < s" "s \<le> endb cur" "endb cur \<le> e"
    and post: "loop_post fl s e (don @ cur\<lparr>endb := s - 1\<rparr> # rest) res"
  shows "loop_post fl s e (don @ cur # rest) res"
proof (rule loop_post_step [OF post, where l = s and h = "endb cur"])
  have s: "0 < s" using cur(2) by (rule word_less_pos)
  have "holds (don @ [cur\<lparr>endb := s - 1\<rparr>] @ rest) q b u \<longleftrightarrow> holds (don @ cur # rest) q b u \<and>
      \<not> (q = pid cur \<and> s \<le> b \<and> b \<le> endb cur)" for q b u
    by (rule carve_removed) (use pre cur s in \<open>auto simp: loop_pre_def word_order not_le\<close>)
  with cur(1) show "holds (don @ cur\<lparr>endb := s - 1\<rparr> # rest) q b u \<longleftrightarrow>
      holds (don @ cur # rest) q b u \<and> \<not> (q = pid fl \<and> s \<le> b \<and> b \<le> endb cur)" for q b u
    by simp
qed (use cur in auto)

lemma loop_delete_post:
  assumes pre: "loop_pre fl s e prev don (cur # rest)"
    and cur: "pid cur = pid fl" "s \<le> start cur" "endb cur \<le> e"
    and post: "loop_post fl s e (don @ rest) res"
  shows "loop_post fl s e (don @ cur # rest) res"
  using cur wf_removed [of don cur rest] pre
  by (intro loop_post_step [OF post, where l = "start cur" and h = "endb cur"])
    (auto simp: loop_pre_def)

lemma loop_stop_Cons:
  assumes pre: "loop_pre fl s e prev don (cur # rest)"
    and "after_target (pid fl) (ltype fl) e cur"
  shows "loop_post fl s e (don @ cur # rest) (s, e, prev, don @ cur # rest)"
proof (rule loop_stop [OF pre])
  have "after_target (pid fl) (ltype fl) e y" if "y \<in> set rest" for y
    by (rule lock_before_after_target [of cur])
      (use that assms in \<open>auto simp: loop_pre_def posix_wf_append_Cons after_target_def\<close>)
  with assms(2) show "\<forall>a\<in>set (cur # rest). after_target (pid fl) (ltype fl) e a" by simp
qed

lemma posix_loop_post:
  "loop_pre fl s e prev don rest \<Longrightarrow>
     loop_post fl s e (don @ rest) (posix_loop fl s e prev don rest)"
proof (induction rest arbitrary: s e prev don)
  case Nil
  then show ?case
    using loop_stop [of fl s e prev don "[]"] by simp
next
  case (Cons cur rest)
  note pre = Cons.prems
  have fam: "family cur = FILE_LOCK_POSIX" and ne: "start cur \<le> endb cur"
    using pre by (simp_all add: loop_pre_def posix_wf_append_Cons)
  have keep: "loop_post fl s e (don @ cur # rest)
      (posix_loop fl s e (Some (length don)) (don @ [cur]) rest)"
    if "before_target (pid fl) (ltype fl) s cur"
    using Cons.IH [OF loop_keep [OF pre that]] by simp
  note stop = loop_stop_Cons [OF pre]
  consider "pid cur < pid fl" | "pid fl < pid cur"
    | "pid cur = pid fl" "ltype cur = ltype fl" | "pid cur = pid fl" "ltype cur \<noteq> ltype fl"
    by fastforce
  then show ?case
  proof cases
    case 1
    with keep fam show ?thesis by (simp add: before_target_def)
  next
    case 2
    with stop fam show ?thesis by (auto simp: after_target_def)
  next
    case 3
    note merged = loop_merge_post [OF pre 3 _ _ Cons.IH [OF loop_merge [OF pre 3]]]
    show ?thesis
      using fam 3 less_pred_succ [of "endb cur" s] succ_less_succ [of e "start cur"] keep stop merged
      by (auto simp: before_target_def after_target_def FS_LOCK_EOF_def not_less)
  next
    case 4
    note shortened = loop_shorten_post [OF pre 4(1)] Cons.IH [OF loop_shorten [OF pre 4]]
    note deleted = loop_delete_post [OF pre 4(1) _ _ Cons.IH [OF loop_drop [OF pre]]]
    note split = loop_split [OF pre 4 _ _ refl] and trim = loop_trim [OF pre 4]
    show ?thesis
      using fam 4 keep stop shortened deleted split trim
      by (simp add: before_target_def after_target_def not_less)
  qed
qed

section \<open>The whole operation\<close>

lemma posix_lock_set_error:
  "posix_lock_set m locks fl = (m', Some err, locks') \<Longrightarrow> err = ENOMEM \<and> locks' = locks"
  by (auto simp: posix_lock_set_def Let_def split: if_splits prod.splits)

lemma posix_wf_no_unlck: "posix_wf locks \<Longrightarrow> \<not> holds locks p b F_UNLCK"
  by (auto simp: posix_wf_def holds_def)

lemma holds_unique:
  assumes wf: "posix_wf locks" and t: "holds locks p b t" and u: "holds locks p b u"
  shows "t = u"
proof -
  from t obtain a where a: "a \<in> set locks" "pid a = p" "start a \<le> b" "b \<le> endb a" "ltype a = t"
    unfolding holds_def by blast
  then obtain xs ys where "locks = xs @ a # ys"
    by (meson split_list)
  with a u wf_removed [of xs a ys p b u] wf show ?thesis by auto
qed

lemma posix_lock_set_loop:
  assumes "posix_lock_set m locks fl = (m', None, locks')"
  obtains s e prev ls where "posix_loop fl (start fl) (endb fl) None [] locks = (s, e, prev, ls)"
    and "locks' = (if ltype fl = F_UNLCK then ls
       else insert_after \<lparr>family = FILE_LOCK_POSIX, ltype = ltype fl, start = s, endb = e,
              pid = pid fl, handle_id = 0\<rparr> prev ls)"
  using assms by (auto simp: posix_lock_set_def Let_def split: if_splits prod.splits)

lemma posix_lock_set_ok:
  assumes wf: "posix_wf locks" and range: "start fl \<le> endb fl"
    and set: "posix_lock_set m locks fl = (m', None, locks')"
  shows "posix_wf locks'" (is ?wf)
    and "holds locks' q b u \<longleftrightarrow>
      (if q = pid fl \<and> start fl \<le> b \<and> b \<le> endb fl then u = ltype fl \<and> ltype fl \<noteq> F_UNLCK
       else holds locks q b u)" (is ?effect)
proof -
  obtain s e prev ls where loop: "posix_loop fl (start fl) (endb fl) None [] locks = (s, e, prev, ls)"
    and locks': "locks' = (if ltype fl = F_UNLCK then ls
       else insert_after \<lparr>family = FILE_LOCK_POSIX, ltype = ltype fl, start = s, endb = e,
              pid = pid fl, handle_id = 0\<rparr> prev ls)"
    using set by (rule posix_lock_set_loop)
  have "loop_pre fl (start fl) (endb fl) None [] locks"
    using wf range by (simp add: loop_pre_def)
  from posix_loop_post [OF this] loop obtain d r where
    dr: "prev = prev_of d" "ls = d @ r" "posix_wf (d @ r)" "s \<le> e"
      "\<forall>a\<in>set d. before_target (pid fl) (ltype fl) s a"
      "\<forall>a\<in>set r. after_target (pid fl) (ltype fl) e a"
    and eff: "loop_effect fl (start fl) (endb fl) locks s e ls"
    unfolding loop_post_def by auto
  show ?wf ?effect
  proof (atomize(full), cases "ltype fl = F_UNLCK")
    case True
    then show "?wf \<and> ?effect"
      using locks' dr eff posix_wf_no_unlck [OF wf] unfolding loop_effect_def
      by (metis order_trans)
  next
    case False
    then have "locks' = d @ \<lparr>family = FILE_LOCK_POSIX, ltype = ltype fl, start = s, endb = e,
        pid = pid fl, handle_id = 0\<rparr> # r"
      using locks' dr(1,2) by (simp add: insert_after_prev_of)
    moreover from this have ?wf
      using dr False
      by (auto simp: posix_wf_append_Cons lock_before_def before_target_def after_target_def)
    moreover have "start fl \<le> b \<and> b \<le> endb fl \<longrightarrow> s \<le> b \<and> b \<le> e"
      using eff unfolding loop_effect_def by (meson order_trans)
    ultimately show "?wf \<and> ?effect"
      using eff False dr(2) holds_unique [OF wf, of "pid fl" b u "ltype fl"]
      unfolding loop_effect_def by auto
  qed
qed

end
