(* ===== verification/Fs_Lock_Requests.thy ===== *)
theory Fs_Lock_Requests
  imports Fs_Lock_Posix
begin

text \<open>
  Granting locks safely. The locale \<open>lock_kind\<close> states what the processing of pending requests
  needs of a family of locks: its conflict test, and that setting a lock that has no conflict
  keeps the family's well-formedness and the compatibility of the held locks. It is interpreted
  on \<open>_posix_lock_set\<close> and on \<open>_flock_lock_set\<close>; the invariant of a dentry's entry and of the
  whole lock table rests on the two interpretations.
\<close>

section \<open>Compatibility of the held locks\<close>

definition compatible ::
    "(libos_file_lock \<Rightarrow> libos_file_lock \<Rightarrow> bool) \<Rightarrow> libos_file_lock list \<Rightarrow> bool" where
  "compatible confl locks \<longleftrightarrow> (\<forall>a\<in>set locks. \<forall>b\<in>set locks. \<not> confl a b)"

lemma compatible_Nil [simp]: "compatible confl []"
  by (simp add: compatible_def)

text \<open>Two POSIX locks conflict when some byte is held by both.\<close>

lemma posix_conflict_byte:
  assumes "start a \<le> endb a" "start c \<le> endb c"
  shows "posix_conflict a c \<longleftrightarrow>
    pid c \<noteq> pid a \<and> (ltype c = F_WRLCK \<or> ltype a = F_WRLCK) \<and>
    (\<exists>b. start a \<le> b \<and> b \<le> endb a \<and> start c \<le> b \<and> b \<le> endb c)"
proof -
  have "(start a \<le> endb c \<and> start c \<le> endb a) \<longleftrightarrow>
      (\<exists>b. start a \<le> b \<and> b \<le> endb a \<and> start c \<le> b \<and> b \<le> endb c)"
  proof (intro iffI; elim exE conjE)
    assume "start a \<le> endb c" "start c \<le> endb a"
    with assms show "\<exists>b. start a \<le> b \<and> b \<le> endb a \<and> start c \<le> b \<and> b \<le> endb c"
      by (intro exI [of _ "max (start a) (start c)"]) simp
  next
    fix b
    assume "start a \<le> b" "b \<le> endb a" "start c \<le> b" "b \<le> endb c"
    then show "start a \<le> endb c \<and> start c \<le> endb a" by (intro conjI; order)
  qed
  then show ?thesis
    by (auto simp: posix_conflict_def)
qed

definition bytes_compatible :: "libos_file_lock list \<Rightarrow> bool" where
  "bytes_compatible locks \<longleftrightarrow>
     (\<forall>p q b t u. holds locks p b t \<and> holds locks q b u \<and> p \<noteq> q \<longrightarrow> t \<noteq> F_WRLCK \<and> u \<noteq> F_WRLCK)"

lemma posix_compatible_bytes:
  assumes "posix_wf locks"
  shows "compatible posix_conflict locks \<longleftrightarrow> bytes_compatible locks"
proof -
  have "posix_conflict a c \<longleftrightarrow> pid c \<noteq> pid a \<and> (ltype c = F_WRLCK \<or> ltype a = F_WRLCK) \<and>
      (\<exists>b. start a \<le> b \<and> b \<le> endb a \<and> start c \<le> b \<and> b \<le> endb c)"
    if "a \<in> set locks" "c \<in> set locks" for a c
    using that assms by (intro posix_conflict_byte) (auto simp: posix_wf_def)
  then show ?thesis
    unfolding compatible_def bytes_compatible_def holds_def by blast
qed

lemma find_conflict_None_bytes:
  assumes "posix_wf locks" "start fl \<le> endb fl" "find (posix_conflict fl) locks = None"
    and "start fl \<le> b" "b \<le> endb fl" "holds locks q b u" "q \<noteq> pid fl"
  shows "u \<noteq> F_WRLCK \<and> ltype fl \<noteq> F_WRLCK"
proof -
  from assms(6) obtain a where a: "a \<in> set locks" "pid a = q" "start a \<le> b" "b \<le> endb a" "ltype a = u"
    unfolding holds_def by blast
  with assms(3) have "\<not> posix_conflict fl a"
    by (auto simp: find_None_iff)
  with a assms show ?thesis
    using posix_conflict_byte [of fl a] by (auto simp: posix_wf_def)
qed

section \<open>Pending requests that remain are blocked\<close>

lemma process_pass_subset:
  "process_pass m locks reqs = (m', locks', reqs', ns, changed) \<Longrightarrow> set reqs' \<subseteq> set reqs"
proof (induction reqs arbitrary: m locks m' locks' reqs' ns changed)
  case Nil
  then show ?case by simp
next
  case (Cons req rest)
  from Cons.prems show ?case
    by (auto split: option.splits prod.splits dest!: Cons.IH)
qed

lemma process_pass_unchanged:
  "process_pass m locks reqs = (m', locks', reqs', ns, False) \<Longrightarrow>
     locks' = locks \<and> reqs' = reqs \<and> (\<forall>req\<in>set reqs. file_lock_find_conflict locks (req_lock req) \<noteq> None)"
proof (induction reqs arbitrary: m locks m' locks' reqs' ns)
  case Nil
  then show ?case by simp
next
  case (Cons req rest)
  from Cons.prems show ?case
    by (auto split: option.splits prod.splits dest: Cons.IH)
qed

lemma process_requests_blocked:
  "file_lock_process_requests m locks reqs = (m', locks', reqs', ns) \<Longrightarrow>
     set reqs' \<subseteq> set reqs \<and> (\<forall>req\<in>set reqs'. file_lock_find_conflict locks' (req_lock req) \<noteq> None)"
proof (induction m locks reqs arbitrary: m' locks' reqs' ns rule: file_lock_process_requests.induct)
  case (1 m locks reqs)
  obtain m1 locks1 reqs1 ns1 ch where p: "process_pass m locks reqs = (m1, locks1, reqs1, ns1, ch)"
    by (metis prod_cases5)
  show ?case
  proof (cases ch)
    case True
    with "1.prems" p obtain ns2 where
      "file_lock_process_requests m1 locks1 reqs1 = (m', locks', reqs', ns2)"
      by (auto simp: file_lock_process_requests.simps [of m locks reqs] split: prod.splits)
    from "1.IH" [OF p [symmetric] refl refl refl refl True this] process_pass_subset [OF p]
    show ?thesis by blast
  next
    case False
    with "1.prems" p process_pass_unchanged [of m locks reqs] show ?thesis
      by (auto simp: file_lock_process_requests.simps [of m locks reqs])
  qed
qed

section \<open>The interface of a family of locks\<close>

definition grantable :: "libos_file_lock list \<Rightarrow> libos_file_lock \<Rightarrow> bool" where
  "grantable locks fl \<longleftrightarrow> ltype fl = F_UNLCK \<or> file_lock_find_conflict locks fl = None"

locale lock_kind =
  fixes fam :: libos_file_lock_family
    and wf :: "libos_file_lock list \<Rightarrow> bool"
    and confl :: "libos_file_lock \<Rightarrow> libos_file_lock \<Rightarrow> bool"
    and valid :: "libos_file_lock \<Rightarrow> bool"
  assumes set_keeps:
    "\<lbrakk>wf locks; compatible confl locks; family fl = fam; valid fl; grantable locks fl;
      lock_set_by_family m locks fl = (m', ret, locks')\<rbrakk> \<Longrightarrow> wf locks' \<and> compatible confl locks'"
begin

lemma process_pass_keeps:
  assumes "process_pass m locks reqs = (m', locks', reqs', ns, changed)"
    and "wf locks" "compatible confl locks"
    and "\<forall>req\<in>set reqs. family (req_lock req) = fam \<and> valid (req_lock req)"
  shows "wf locks' \<and> compatible confl locks'"
  using assms
proof (induction reqs arbitrary: m locks m' locks' reqs' ns changed)
  case Nil
  then show ?case by simp
next
  case (Cons req rest)
  show ?case
  proof (cases "file_lock_find_conflict locks (req_lock req)")
    case None
    obtain m1 ret locks1 where set: "lock_set_by_family m locks (req_lock req) = (m1, ret, locks1)"
      by (metis prod_cases3)
    have "wf locks1 \<and> compatible confl locks1"
      using set_keeps [OF _ _ _ _ _ set] Cons.prems None by (auto simp: grantable_def)
    with Cons.prems None set show ?thesis
      by (auto split: prod.splits dest: Cons.IH)
  next
    case Some
    with Cons.prems show ?thesis
      by (auto split: prod.splits dest: Cons.IH)
  qed
qed

lemma process_requests_keep:
  assumes "file_lock_process_requests m locks reqs = (m', locks', reqs', ns)"
    and "wf locks" "compatible confl locks"
    and "\<forall>req\<in>set reqs. family (req_lock req) = fam \<and> valid (req_lock req)"
  shows "wf locks' \<and> compatible confl locks'"
  using assms
proof (induction m locks reqs arbitrary: m' locks' reqs' ns rule: file_lock_process_requests.induct)
  case (1 m locks reqs)
  obtain m1 locks1 reqs1 ns1 ch where p: "process_pass m locks reqs = (m1, locks1, reqs1, ns1, ch)"
    by (metis prod_cases5)
  have keep: "wf locks1 \<and> compatible confl locks1"
    using process_pass_keeps [OF p] "1.prems" by blast
  have sub: "set reqs1 \<subseteq> set reqs"
    using process_pass_subset [OF p] .
  show ?case
  proof (cases ch)
    case True
    then show ?thesis
      using "1.IH" [OF p [symmetric] refl refl refl refl True] "1.prems" keep sub p
      by (auto simp: file_lock_process_requests.simps [of m locks reqs] split: prod.splits)
  next
    case False
    with "1.prems" keep p show ?thesis
      by (simp add: file_lock_process_requests.simps [of m locks reqs])
  qed
qed

end

section \<open>POSIX locks\<close>

definition posix_valid :: "libos_file_lock \<Rightarrow> bool" where
  "posix_valid fl \<longleftrightarrow> start fl \<le> endb fl"

lemma posix_set_bytes_compatible:
  assumes wf: "posix_wf locks" and range: "start fl \<le> endb fl" and compat: "bytes_compatible locks"
    and free: "ltype fl = F_UNLCK \<or> find (posix_conflict fl) locks = None"
    and set: "posix_lock_set m locks fl = (m', None, locks')"
  shows "bytes_compatible locks'"
  unfolding bytes_compatible_def
proof (intro allI impI, elim conjE)
  fix p q b t u
  assume h: "holds locks' p b t" "holds locks' q b u" "p \<noteq> q"
  note eff = posix_lock_set_ok(2) [OF wf range set]
  note free_bytes = find_conflict_None_bytes [OF wf range]
  consider "p = pid fl" "start fl \<le> b" "b \<le> endb fl" | "q = pid fl" "start fl \<le> b" "b \<le> endb fl"
    | "holds locks p b t" "holds locks q b u"
    using h by (auto simp: eff split: if_splits)
  then show "t \<noteq> F_WRLCK \<and> u \<noteq> F_WRLCK"
  proof cases
    case 1
    with h free free_bytes [of b q u] show ?thesis by (auto simp: eff)
  next
    case 2
    with h free free_bytes [of b p t] show ?thesis by (auto simp: eff)
  next
    case 3
    with h compat show ?thesis unfolding bytes_compatible_def by blast
  qed
qed

interpretation posix: lock_kind FILE_LOCK_POSIX posix_wf posix_conflict posix_valid
proof (unfold_locales, goal_cases)
  case (1 locks fl m m' ret locks')
  then have set: "posix_lock_set m locks fl = (m', ret, locks')"
    and free: "ltype fl = F_UNLCK \<or> find (posix_conflict fl) locks = None"
    by (auto simp: lock_set_by_family_def grantable_def file_lock_find_conflict_def)
  show ?case
  proof (cases ret)
    case None
    with 1 set free posix_lock_set_ok(1) [of locks fl m m' locks']
      posix_set_bytes_compatible [of locks fl m m' locks'] show ?thesis
      by (auto simp: posix_valid_def posix_compatible_bytes)
  next
    case (Some err)
    with 1 set posix_lock_set_error show ?thesis by blast
  qed
qed

section \<open>BSD locks\<close>

definition flock_wf :: "libos_file_lock list \<Rightarrow> bool" where
  "flock_wf locks \<longleftrightarrow>
     distinct (map handle_id locks) \<and>
     (\<forall>a\<in>set locks. family a = FILE_LOCK_FLOCK \<and> ltype a \<noteq> F_UNLCK)"

lemma flock_remove_filter:
  "flock_wf locks \<Longrightarrow> flock_remove h locks = filter (\<lambda>a. handle_id a \<noteq> h) locks"
proof (induction locks)
  case Nil
  then show ?case by simp
next
  case (Cons a locks)
  then have "flock_wf locks" "family a = FILE_LOCK_FLOCK"
    by (auto simp: flock_wf_def)
  moreover have "filter (\<lambda>a. handle_id a \<noteq> h) locks = locks" if "handle_id a = h"
  proof (intro filter_True ballI notI)
    fix x
    assume "x \<in> set locks" "handle_id x = h"
    with that have "handle_id a \<in> handle_id ` set locks" by (metis image_eqI)
    with Cons.prems show False by (simp add: flock_wf_def)
  qed
  ultimately show ?case
    using Cons.IH by simp
qed

interpretation flock: lock_kind FILE_LOCK_FLOCK flock_wf flock_conflict "\<lambda>_. True"
proof (unfold_locales, goal_cases)
  case (1 locks fl m m' ret locks')
  then have set: "flock_lock_set m locks fl = (m', ret, locks')"
    and free: "ltype fl = F_UNLCK \<or> find (flock_conflict fl) locks = None"
    by (auto simp: lock_set_by_family_def grantable_def file_lock_find_conflict_def)
  let ?ls = "filter (\<lambda>a. handle_id a \<noteq> handle_id fl) locks"
  have ls: "flock_wf ?ls" "compatible flock_conflict ?ls"
    using 1 by (auto simp: flock_wf_def compatible_def distinct_map_filter)
  from set consider "locks' = locks" | "locks' = ?ls" "ltype fl = F_UNLCK"
    | "ltype fl \<noteq> F_UNLCK"
      "locks' = \<lparr>family = FILE_LOCK_FLOCK, ltype = ltype fl, start = 0, endb = 0, pid = 0,
                 handle_id = handle_id fl\<rparr> # ?ls"
    using 1 by (auto simp: flock_lock_set_def flock_remove_filter Let_def split: if_splits prod.splits)
  then show ?case
  proof cases
    case 3
    have "\<not> flock_conflict fl a" if "a \<in> set locks" for a
      using that free 3 by (auto simp: find_None_iff)
    with 3 ls show ?thesis
      by (auto simp: flock_wf_def compatible_def flock_conflict_def)
  qed (use 1 ls in auto)
qed

section \<open>The invariant of a dentry's entry\<close>

definition fam_inv :: "libos_file_lock_family \<Rightarrow> libos_file_lock list \<Rightarrow> bool" where
  "fam_inv fam locks \<longleftrightarrow>
     (if fam = FILE_LOCK_POSIX then posix_wf locks \<and> compatible posix_conflict locks
      else flock_wf locks \<and> compatible flock_conflict locks)"

definition lock_valid :: "libos_file_lock \<Rightarrow> bool" where
  "lock_valid fl \<longleftrightarrow>
     family fl = FILE_LOCK_POSIX \<and> start fl \<le> endb fl \<or> family fl = FILE_LOCK_FLOCK"

definition used_flag :: "libos_file_lock_family \<Rightarrow> dent_file_locks \<Rightarrow> bool" where
  "used_flag fam d = (if fam = FILE_LOCK_POSIX then posix_used d else flock_used d)"

definition blocked :: "libos_file_lock list \<Rightarrow> file_lock_request \<Rightarrow> bool" where
  "blocked locks req \<longleftrightarrow> file_lock_find_conflict locks (req_lock req) \<noteq> None"

definition dent_kind :: "libos_file_lock_family \<Rightarrow> dent_file_locks \<Rightarrow> bool" where
  "dent_kind fam d \<longleftrightarrow>
     (fam = FILE_LOCK_POSIX \<and> \<not> flock_used d \<or> fam = FILE_LOCK_FLOCK \<and> \<not> posix_used d) \<and>
     fam_inv fam (file_locks d) \<and>
     (file_locks d \<noteq> [] \<or> file_lock_requests d \<noteq> [] \<longrightarrow> used_flag fam d) \<and>
     (\<forall>req\<in>set (file_lock_requests d).
        family (req_lock req) = fam \<and> lock_valid (req_lock req) \<and> ltype (req_lock req) \<noteq> F_UNLCK \<and>
        blocked (file_locks d) req)"

definition dent_inv :: "dent_file_locks \<Rightarrow> bool" where
  "dent_inv d \<longleftrightarrow> dent_kind FILE_LOCK_POSIX d \<or> dent_kind FILE_LOCK_FLOCK d"

lemma fam_inv_Nil [simp]: "fam_inv fam []"
  by (simp add: fam_inv_def posix_wf_def flock_wf_def)

lemma set_keeps_fam_inv:
  assumes "fam_inv fam locks" "family fl = fam" "lock_valid fl" "grantable locks fl"
    and "lock_set_by_family m locks fl = (m', ret, locks')"
  shows "fam_inv fam locks'"
  using assms posix.set_keeps [of locks fl m m' ret locks'] flock.set_keeps [of locks fl m m' ret locks']
  by (auto simp: fam_inv_def lock_valid_def posix_valid_def)

lemma process_keeps_fam_inv:
  assumes "fam_inv fam locks" "file_lock_process_requests m locks reqs = (m', locks', reqs', ns)"
    and "\<forall>req\<in>set reqs. family (req_lock req) = fam \<and> lock_valid (req_lock req)"
  shows "fam_inv fam locks'"
proof (cases "fam = FILE_LOCK_POSIX")
  case True
  with assms(3) have "\<forall>req\<in>set reqs. family (req_lock req) = FILE_LOCK_POSIX \<and> posix_valid (req_lock req)"
    by (auto simp: lock_valid_def posix_valid_def)
  with True assms(1) posix.process_requests_keep [OF assms(2)] show ?thesis
    by (simp add: fam_inv_def)
next
  case False
  show ?thesis
  proof (cases "reqs = []")
    case True
    with assms show ?thesis
      by (simp add: file_lock_process_requests.simps)
  next
    case reqs: False
    then have "fam = FILE_LOCK_FLOCK"
      using assms(3) \<open>fam \<noteq> FILE_LOCK_POSIX\<close> by (cases reqs) (auto simp: lock_valid_def)
    with assms flock.process_requests_keep [OF assms(2)] show ?thesis
      by (simp add: fam_inv_def)
  qed
qed

text \<open>Unlocking with the family that is not in use changes nothing.\<close>

lemma posix_loop_other_family:
  "\<forall>a\<in>set rest. family a \<noteq> FILE_LOCK_POSIX \<Longrightarrow> posix_loop fl s e prev don rest = (s, e, prev, don @ rest)"
  by (induction rest arbitrary: don) simp_all

lemma flock_remove_other_family:
  "\<forall>a\<in>set locks. family a \<noteq> FILE_LOCK_FLOCK \<Longrightarrow> flock_remove h locks = locks"
  by (induction locks) simp_all

lemma unlock_other_family:
  assumes "fam_inv fam locks" "fam = FILE_LOCK_POSIX \<or> fam = FILE_LOCK_FLOCK" "family fl \<noteq> fam"
    and "lock_valid fl" "ltype fl = F_UNLCK" "lock_set_by_family m locks fl = (m', ret, locks')"
  shows "locks' = locks"
  using assms(2)
proof
  assume "fam = FILE_LOCK_POSIX"
  with assms show ?thesis
    by (auto simp: lock_set_by_family_def flock_lock_set_def fam_inv_def posix_wf_def lock_valid_def
          flock_remove_other_family)
next
  assume "fam = FILE_LOCK_FLOCK"
  with assms show ?thesis
    by (auto simp: lock_set_by_family_def posix_lock_set_def fam_inv_def flock_wf_def lock_valid_def
          posix_loop_other_family Let_def split: if_splits prod.splits)
qed

lemma dent_kind_used: "dent_kind fam d \<Longrightarrow> fam = FILE_LOCK_POSIX \<or> fam = FILE_LOCK_FLOCK"
  by (auto simp: dent_kind_def)

text \<open>An entry whose own family is unused can take the other one.\<close>

lemma dent_kind_switch:
  assumes "dent_inv d" "lock_valid fl"
    and "\<not> (family fl = FILE_LOCK_FLOCK \<and> posix_used d \<or> family fl = FILE_LOCK_POSIX \<and> flock_used d)"
  shows "dent_kind (family fl) d"
  using assms by (auto simp: dent_inv_def dent_kind_def lock_valid_def used_flag_def)

lemma mark_used_kind:
  assumes "fam_inv (family fl) locks" "lock_valid fl" "ltype fl \<noteq> F_UNLCK"
    and "dent_kind (family fl) d"
    and "\<forall>req\<in>set reqs. family (req_lock req) = family fl \<and> lock_valid (req_lock req) \<and>
           ltype (req_lock req) \<noteq> F_UNLCK \<and> blocked locks req"
  shows "dent_kind (family fl) (mark_used fl (d\<lparr>file_locks := locks, file_lock_requests := reqs\<rparr>))"
  using assms by (auto simp: dent_kind_def mark_used_def used_flag_def lock_valid_def)

lemma set_process_kind:
  assumes kind: "dent_kind fam d"
    and inv: "fam_inv fam locks1"
    and proc: "file_lock_process_requests m1 locks1 (file_lock_requests d) = (m2, locks2, reqs2, ns)"
  shows "fam_inv fam locks2"
    and "\<forall>req\<in>set reqs2. family (req_lock req) = fam \<and> lock_valid (req_lock req) \<and>
           ltype (req_lock req) \<noteq> F_UNLCK \<and> blocked locks2 req"
proof -
  show "fam_inv fam locks2"
    using process_keeps_fam_inv [OF inv proc] kind by (auto simp: dent_kind_def)
  show "\<forall>req\<in>set reqs2. family (req_lock req) = fam \<and> lock_valid (req_lock req) \<and>
      ltype (req_lock req) \<noteq> F_UNLCK \<and> blocked locks2 req"
    using process_requests_blocked [OF proc] kind unfolding dent_kind_def blocked_def by blast
qed

lemma unlock_in_dent_inv:
  assumes kind: "dent_kind fam d" and fl: "lock_valid fl" "ltype fl = F_UNLCK"
    and set: "lock_set_by_family m (file_locks d) fl = (m1, ret, locks1)"
    and proc: "file_lock_process_requests m1 locks1 (file_lock_requests d) = (m2, locks2, reqs2, ns)"
  shows "dent_kind fam (d\<lparr>file_locks := locks2, file_lock_requests := reqs2\<rparr>)"
proof -
  have "fam_inv fam locks1"
    using kind set set_keeps_fam_inv [of fam "file_locks d" fl]
      unlock_other_family [of fam "file_locks d" fl] fl dent_kind_used [OF kind]
    by (cases "family fl = fam") (auto simp: dent_kind_def grantable_def)
  note processed = set_process_kind [OF kind this proc]
  have "used_flag fam d \<or> locks2 = [] \<and> reqs2 = []"
  proof (cases "file_locks d = [] \<and> file_lock_requests d = []")
    case True
    with set fl have "locks1 = []"
      by (auto simp: lock_set_by_family_def posix_lock_set_def flock_lock_set_def Let_def
            split: if_splits prod.splits)
    with True proc show ?thesis
      by (simp add: file_lock_process_requests.simps)
  next
    case False
    with kind show ?thesis by (auto simp: dent_kind_def)
  qed
  with kind processed show ?thesis
    by (auto simp: dent_kind_def used_flag_def)
qed

lemma dent_kind_inv: "dent_kind fam d \<Longrightarrow> dent_inv d"
  using dent_kind_used [of fam d] by (auto simp: dent_inv_def)

definition mixed_use :: "libos_file_lock \<Rightarrow> dent_file_locks \<Rightarrow> bool" where
  "mixed_use fl d \<longleftrightarrow>
     family fl = FILE_LOCK_FLOCK \<and> posix_used d \<or> family fl = FILE_LOCK_POSIX \<and> flock_used d"

lemma set_or_add_in_dent_cases:
  assumes step: "set_or_add_in_dent m d fl wait = (m', ret, added, ns, d')"
    and set: "lock_set_by_family m (file_locks d) fl = (m1, ret1, locks1)"
    and proc: "file_lock_process_requests m1 locks1 (file_lock_requests d) = (m2, locks2, reqs2, ns2)"
  obtains (same) "d' = d" "\<not> added"
    | (unlock) "ltype fl = F_UNLCK" "d' = d\<lparr>file_locks := locks2, file_lock_requests := reqs2\<rparr>"
        "\<not> added" "ret = None" "ret1 = None"
    | (added) "ltype fl \<noteq> F_UNLCK" "\<not> mixed_use fl d"
        "file_lock_find_conflict (file_locks d) fl \<noteq> None" "wait" "added" "ret = None"
        "d' = mark_used fl (d\<lparr>file_locks := file_locks d,
            file_lock_requests := \<lparr>req_lock = fl, req_notify = None\<rparr> # file_lock_requests d\<rparr>)"
    | (granted) "ltype fl \<noteq> F_UNLCK" "\<not> mixed_use fl d"
        "file_lock_find_conflict (file_locks d) fl = None" "\<not> added" "ret = None" "ret1 = None"
        "d' = mark_used fl (d\<lparr>file_locks := locks2, file_lock_requests := reqs2\<rparr>)"
proof (cases "ltype fl = F_UNLCK")
  case True
  with step set proc that(1,2) show thesis
    unfolding set_or_add_in_dent_def by (auto simp: mark_used_def split: if_splits)
next
  case False
  show thesis
  proof (cases "mixed_use fl d \<or> file_lock_find_conflict (file_locks d) fl = None")
    case True
    with False step set proc that(1,4) show thesis
      unfolding set_or_add_in_dent_def mixed_use_def [symmetric] by (auto split: if_splits)
  next
    case blocked: False
    with False step that(1,3) show thesis
      unfolding set_or_add_in_dent_def mixed_use_def [symmetric]
      by (auto simp: file_lock_add_request_def split: if_splits prod.splits)
  qed
qed

lemma set_or_add_in_dent_inv:
  assumes inv: "dent_inv d" and valid: "lock_valid fl"
    and step: "set_or_add_in_dent m d fl wait = (m', ret, added, ns, d')"
  shows "dent_inv d'"
proof -
  obtain m1 ret1 locks1 where set: "lock_set_by_family m (file_locks d) fl = (m1, ret1, locks1)"
    by (metis prod_cases3)
  obtain m2 locks2 reqs2 ns2 where
    proc: "file_lock_process_requests m1 locks1 (file_lock_requests d) = (m2, locks2, reqs2, ns2)"
    by (metis prod_cases4)
  have kind: "dent_kind (family fl) d" if "\<not> mixed_use fl d"
    using that dent_kind_switch [OF inv valid] by (simp add: mixed_use_def)
  from step set proc show ?thesis
  proof (cases rule: set_or_add_in_dent_cases)
    case unlock
    obtain fam where "dent_kind fam d"
      using inv by (auto simp: dent_inv_def)
    from unlock_in_dent_inv [OF this valid unlock(1) set proc] show ?thesis
      unfolding unlock(2) by (rule dent_kind_inv)
  next
    case added
    note kind = kind [OF added(2)]
    have inv0: "fam_inv (family fl) (file_locks d)"
      using kind by (simp add: dent_kind_def)
    have reqs0: "\<forall>req\<in>set (\<lparr>req_lock = fl, req_notify = None\<rparr> # file_lock_requests d).
        family (req_lock req) = family fl \<and> lock_valid (req_lock req) \<and>
        ltype (req_lock req) \<noteq> F_UNLCK \<and> blocked (file_locks d) req"
      using kind added(1,3) valid by (simp add: dent_kind_def blocked_def)
    from mark_used_kind [OF inv0 valid added(1) kind reqs0] show ?thesis
      unfolding added(7) by (rule dent_kind_inv)
  next
    case granted
    note kind = kind [OF granted(2)]
    have inv0: "fam_inv (family fl) (file_locks d)" and free: "grantable (file_locks d) fl"
      using kind granted(3) by (simp_all add: dent_kind_def grantable_def)
    note inv1 = set_keeps_fam_inv [OF inv0 refl valid free set]
    note processed = set_process_kind [OF kind inv1 proc]
    from mark_used_kind [OF processed(1) valid granted(1) kind processed(2)] show ?thesis
      unfolding granted(7) by (rule dent_kind_inv)
  qed (use inv in simp)
qed

section \<open>The invariant of the lock table\<close>

text \<open>
  Every dentry has at most one entry, every entry is well-formed, and an entry exists only while
  some lock of the file is held.
\<close>

definition table_inv :: "fs_lock_state \<Rightarrow> bool" where
  "table_inv st \<longleftrightarrow>
     distinct (map fst (dent_locks st)) \<and>
     (\<forall>(dent, d)\<in>set (dent_locks st). dent_inv d \<and> file_locks d \<noteq> [])"

lemma dent_inv_locks_nonempty:
  assumes "dent_inv d" "file_locks d = []"
  shows "file_lock_requests d = []"
  using assms by (cases "file_lock_requests d")
    (auto simp: dent_inv_def dent_kind_def blocked_def file_lock_find_conflict_def split: if_splits)

lemma map_of_set_dent:
  "map_of (map (\<lambda>(k, v). if k = dent then (k, d) else (k, v)) xs) k =
     (if k = dent \<and> map_of xs k \<noteq> None then Some d else map_of xs k)"
  by (induction xs) auto

lemma table_inv_set_gc:
  assumes inv: "distinct (map fst (dent_locks st))" "dent_inv d'"
    and others: "\<And>k d. (k, d) \<in> set (dent_locks st) \<Longrightarrow> k \<noteq> dent \<Longrightarrow> dent_inv d \<and> file_locks d \<noteq> []"
    and dent: "map_of (dent_locks st) dent \<noteq> None"
  shows "table_inv (dent_file_locks_gc (set_dent_file_locks st dent d') dent)"
proof -
  let ?st = "set_dent_file_locks st dent d'"
  have lookup: "map_of (dent_locks ?st) dent = Some d'"
    using dent by (simp add: set_dent_file_locks_def map_of_set_dent)
  have keys: "map fst (dent_locks ?st) = map fst (dent_locks st)"
    by (auto simp: set_dent_file_locks_def)
  have entries: "dent_inv d \<and> (k \<noteq> dent \<longrightarrow> file_locks d \<noteq> []) \<and> (k = dent \<longrightarrow> d = d')"
    if "(k, d) \<in> set (dent_locks ?st)" for k d
    using that others inv(2) by (auto simp: set_dent_file_locks_def split: if_splits)
  show ?thesis
  proof (cases "file_locks d' = []")
    case True
    then have "dent_file_locks_gc ?st dent =
        ?st\<lparr>dent_locks := filter (\<lambda>(k, v). k \<noteq> dent) (dent_locks ?st),
           dent_refs := (dent_refs ?st)(dent := dent_refs ?st dent - 1)\<rparr>"
      using lookup dent_inv_locks_nonempty [OF inv(2) True] by (simp add: dent_file_locks_gc_def)
    with keys inv(1) entries show ?thesis
      by (auto simp: table_inv_def distinct_map_filter dest: distinct_map_filter)
  next
    case False
    then have "dent_file_locks_gc ?st dent = ?st"
      using lookup by (simp add: dent_file_locks_gc_def)
    with keys inv(1) entries False show ?thesis
      by (auto simp: table_inv_def)
  qed
qed

lemma table_inv_lookup:
  "table_inv st \<Longrightarrow> map_of (dent_locks st) dent = Some d \<Longrightarrow> dent_inv d \<and> file_locks d \<noteq> []"
  by (auto simp: table_inv_def dest: map_of_SomeD)

lemma gc_nonempty:
  "table_inv st \<Longrightarrow> dent_file_locks_gc st dent = st"
  using table_inv_lookup [of st dent] by (auto simp: dent_file_locks_gc_def split: option.splits)

lemma dent_inv_fresh:
  "dent_inv \<lparr>posix_used = False, flock_used = False, file_locks = [], file_lock_requests = []\<rparr>"
  by (simp add: dent_inv_def dent_kind_def)

lemma find_dent_inv:
  assumes "table_inv st" "find_dent_file_locks m st dent create = (m1, ret, st1)"
  shows "distinct (map fst (dent_locks st1))"
    and "(k, d) \<in> set (dent_locks st1) \<Longrightarrow> dent_inv d \<and> (k \<noteq> dent \<longrightarrow> file_locks d \<noteq> [])"
    and "ret \<noteq> None \<or> map_of (dent_locks st1) dent = None \<Longrightarrow> st1 = st"
  using assms dent_inv_fresh
  by (auto simp: find_dent_file_locks_def table_inv_def map_of_eq_None_iff split: if_splits prod.splits)

lemma set_or_add_request_inv:
  assumes inv: "table_inv st" and valid: "lock_valid fl"
    and step: "file_lock_set_or_add_request m st dent fl wait = (m', ret, added, ns, st')"
  shows "table_inv st'"
proof -
  obtain m1 ret1 st1 where find: "find_dent_file_locks m st dent (ltype fl \<noteq> F_UNLCK) = (m1, ret1, st1)"
    by (metis prod_cases3)
  note st1 = find_dent_inv [OF inv find]
  show ?thesis
  proof (cases "ret1 \<noteq> None \<or> map_of (dent_locks st1) dent = None")
    case True
    with step find have "st' = st1"
      unfolding file_lock_set_or_add_request_def by (cases ret1) auto
    with True st1(3) inv show ?thesis by blast
  next
    case False
    then obtain d where d: "map_of (dent_locks st1) dent = Some d" "ret1 = None" by auto
    obtain m2 ret2 added2 ns2 d2 where
      in_dent: "set_or_add_in_dent m1 d fl wait = (m2, ret2, added2, ns2, d2)"
      by (metis prod_cases5)
    have "dent_inv d2"
      using set_or_add_in_dent_inv [OF _ valid in_dent] st1(2) map_of_SomeD [OF d(1)] by blast
    then have "table_inv (dent_file_locks_gc (set_dent_file_locks st1 dent d2) dent)"
      using st1 d by (intro table_inv_set_gc) auto
    with step find d in_dent show ?thesis
      by (simp add: file_lock_set_or_add_request_def)
  qed
qed

end
