(* ===== verification/Fs_Lock_Table.thy ===== *)
theory Fs_Lock_Table
  imports Fs_Lock_Requests
begin

text \<open>
  The lock table under every operation of the process leader, and the properties of file
  locking: what a POSIX lock call does byte by byte, that conflicting locks are never held
  together, that no request waits while it could be granted, and what process exit clears.
\<close>

section \<open>Every operation keeps the invariant\<close>

lemma req_update_lock [simp]: "req_lock (req\<lparr>req_notify := n\<rparr>) = req_lock req"
  by simp

lemma set_dent_keys:
  "map fst (dent_locks (set_dent_file_locks st dent d)) = map fst (dent_locks st)"
  by (auto simp: set_dent_file_locks_def)

lemma table_inv_update_notify:
  assumes inv: "table_inv st" and d: "map_of (dent_locks st) dent = Some d"
    and reqs: "map req_lock reqs = map req_lock (file_lock_requests d)"
  shows "table_inv (set_dent_file_locks st dent (d\<lparr>file_lock_requests := reqs\<rparr>))"
proof -
  have locks: "req_lock ` set reqs = req_lock ` set (file_lock_requests d)"
    using reqs by (metis list.set_map)
  have nonempty: "reqs = [] \<longleftrightarrow> file_lock_requests d = []"
    using reqs by auto
  have "dent_kind fam (d\<lparr>file_lock_requests := reqs\<rparr>)" if "dent_kind fam d" for fam
  proof -
    have "\<forall>fl\<in>req_lock ` set (file_lock_requests d).
        family fl = fam \<and> lock_valid fl \<and> ltype fl \<noteq> F_UNLCK \<and> file_lock_find_conflict (file_locks d) fl \<noteq> None"
      using that by (auto simp: dent_kind_def blocked_def)
    with locks have "\<forall>req\<in>set reqs. family (req_lock req) = fam \<and> lock_valid (req_lock req) \<and>
        ltype (req_lock req) \<noteq> F_UNLCK \<and> blocked (file_locks d) req"
      unfolding blocked_def by (metis imageI)
    with that nonempty show ?thesis
      by (simp add: dent_kind_def used_flag_def)
  qed
  moreover have "dent_inv d" "file_locks d \<noteq> []"
    using table_inv_lookup [OF inv d] by auto
  ultimately have "dent_inv (d\<lparr>file_lock_requests := reqs\<rparr>)"
    by (auto simp: dent_inv_def)
  with inv \<open>file_locks d \<noteq> []\<close> show ?thesis
    unfolding table_inv_def set_dent_keys by (auto simp: set_dent_file_locks_def split: if_splits)
qed

lemma fill_notify_inv: "table_inv st \<Longrightarrow> table_inv (fill_notify st dent n)"
  by (auto simp: fill_notify_def split: option.splits list.splits intro!: table_inv_update_notify)

lemma table_inv_refs [simp]: "table_inv (st\<lparr>dent_refs := r\<rparr>) = table_inv st"
  by (simp add: table_inv_def)

lemma set_leader_inv:
  assumes "table_inv st" "lock_valid fl"
    and "file_lock_set_leader m ev st dent fl wait = (m', out, ns, st')"
  shows "table_inv st'"
proof -
  obtain m1 ret added ns1 st1 where
    step: "file_lock_set_or_add_request m st dent fl wait = (m1, ret, added, ns1, st1)"
    by (metis prod_cases5)
  have "table_inv st1"
    by (rule set_or_add_request_inv [OF assms(1,2) step])
  with assms(3) step show ?thesis
    by (auto simp: file_lock_set_leader_def fill_notify_inv split: if_splits sum.splits)
qed

lemma set_from_ipc_inv:
  assumes "table_inv st" "lock_valid fl"
    and "file_lock_set_from_ipc m looked_up st fl wait vmid sq = (m', ns, st')"
  shows "table_inv st'"
proof (cases looked_up)
  case (Inl err)
  with assms show ?thesis by (simp add: file_lock_set_from_ipc_def)
next
  case (Inr dent)
  let ?st0 = "st\<lparr>dent_refs := (dent_refs st)(dent := dent_refs st dent + 1)\<rparr>"
  obtain m1 ret added ns1 st1 where
    step: "file_lock_set_or_add_request m ?st0 dent fl wait = (m1, ret, added, ns1, st1)"
    by (metis prod_cases5)
  have "table_inv st1"
    using set_or_add_request_inv [OF _ assms(2) step] assms(1) by simp
  with assms(3) step Inr show ?thesis
    by (auto simp: file_lock_set_from_ipc_def fill_notify_inv Let_def split: if_splits)
qed

lemma get_leader_state:
  assumes "table_inv st"
  shows "snd (file_lock_get_leader st dent fl out) = st"
  using gc_nonempty [OF assms] by (auto simp: file_lock_get_leader_def split: option.splits)

lemma fam_inv_filter: "fam_inv fam locks \<Longrightarrow> fam_inv fam (filter P locks)"
  by (auto simp: fam_inv_def posix_wf_def flock_wf_def compatible_def distinct_map_filter
        sorted_wrt_filter)

lemma clear_pid_kind:
  assumes kind: "dent_kind fam d"
    and locks: "locks1 = filter P (file_locks d)" "reqs1 = filter Q (file_lock_requests d)"
    and proc: "file_lock_process_requests m locks1 reqs1 = (m1, locks2, reqs2, ns)"
  shows "dent_inv (d\<lparr>file_locks := locks2, file_lock_requests := reqs2\<rparr>)"
proof (cases "file_locks d = [] \<and> file_lock_requests d = []")
  case True
  with locks proc kind show ?thesis
    by (intro dent_kind_inv [of fam])
      (auto simp: file_lock_process_requests.simps dent_kind_def)
next
  case False
  have inv1: "fam_inv fam locks1"
    using kind locks by (simp add: fam_inv_filter dent_kind_def)
  have "fam_inv fam locks2"
    using process_keeps_fam_inv [OF inv1 proc] kind locks by (auto simp: dent_kind_def)
  moreover have "\<forall>req\<in>set reqs2. family (req_lock req) = fam \<and> lock_valid (req_lock req) \<and>
      ltype (req_lock req) \<noteq> F_UNLCK \<and> blocked locks2 req"
    using process_requests_blocked [OF proc] kind locks unfolding dent_kind_def blocked_def by auto
  ultimately show ?thesis
    using kind False by (intro dent_kind_inv [of fam]) (auto simp: dent_kind_def used_flag_def)
qed

lemma dent_kind_fewer_requests:
  "dent_kind fam d \<Longrightarrow> dent_kind fam (d\<lparr>file_lock_requests := filter Q (file_lock_requests d)\<rparr>)"
  by (auto simp: dent_kind_def used_flag_def)

lemma clear_dentry_inv:
  assumes inv: "table_inv st"
    and step: "file_lock_clear_pid_from_dentry m st dent p = (m', ns, st')"
  shows "table_inv st'"
proof (cases "map_of (dent_locks st) dent")
  case None
  with assms show ?thesis by (simp add: file_lock_clear_pid_from_dentry_def)
next
  case (Some d)
  define locks1 where "locks1 = filter (\<lambda>fl. \<not> is_posix_of p fl) (file_locks d)"
  define reqs1 where "reqs1 = filter (\<lambda>req. \<not> is_posix_of p (req_lock req)) (file_lock_requests d)"
  obtain fam where kind: "dent_kind fam d"
    using table_inv_lookup [OF inv Some] by (auto simp: dent_inv_def)
  obtain m1 locks2 reqs2 ns2 where
    proc: "file_lock_process_requests m locks1 reqs1 = (m1, locks2, reqs2, ns2)"
    by (metis prod_cases4)
  show ?thesis
  proof (cases "\<exists>fl\<in>set (file_locks d). is_posix_of p fl")
    case True
    have "table_inv (dent_file_locks_gc (set_dent_file_locks st dent
        (d\<lparr>file_locks := locks2, file_lock_requests := reqs2\<rparr>)) dent)"
    proof (rule table_inv_set_gc)
      show "dent_inv (d\<lparr>file_locks := locks2, file_lock_requests := reqs2\<rparr>)"
        by (rule clear_pid_kind [OF kind locks1_def reqs1_def proc])
    qed (use inv Some in \<open>auto simp: table_inv_def\<close>)
    with step Some True proc show ?thesis
      by (simp add: file_lock_clear_pid_from_dentry_def locks1_def reqs1_def)
  next
    case False
    then have "locks1 = file_locks d"
      unfolding locks1_def by (intro filter_True) auto
    moreover have "dent_inv (d\<lparr>file_lock_requests := reqs1\<rparr>)"
      unfolding reqs1_def by (rule dent_kind_inv [OF dent_kind_fewer_requests [OF kind]])
    moreover have "st' = set_dent_file_locks st dent (d\<lparr>file_locks := locks1, file_lock_requests := reqs1\<rparr>)"
      using step Some False
      by (simp add: file_lock_clear_pid_from_dentry_def locks1_def reqs1_def)
    ultimately show ?thesis
      using inv table_inv_lookup [OF inv Some] unfolding table_inv_def
      by (auto simp: set_dent_keys) (auto simp: set_dent_file_locks_def split: if_splits)
  qed
qed

lemma clear_loop_inv:
  "table_inv st \<Longrightarrow> clear_pid_loop m st dents p = (m', ns, st') \<Longrightarrow> table_inv st'"
proof (induction dents arbitrary: m st ns)
  case Nil
  then show ?case by simp
next
  case (Cons dent dents)
  then show ?case
    by (auto split: prod.splits dest: clear_dentry_inv)
qed

section \<open>Reachable lock tables\<close>

inductive fs_lock_reachable :: "fs_lock_state \<Rightarrow> bool" where
  init: "fs_lock_reachable \<lparr>dent_locks = [], dent_refs = refs\<rparr>"
| set: "fs_lock_reachable st \<Longrightarrow> lock_valid fl \<Longrightarrow>
    file_lock_set_leader m ev st dent fl wait = (m', out, ns, st') \<Longrightarrow> fs_lock_reachable st'"
| set_ipc: "fs_lock_reachable st \<Longrightarrow> lock_valid fl \<Longrightarrow>
    file_lock_set_from_ipc m looked_up st fl wait vmid sq = (m', ns, st') \<Longrightarrow> fs_lock_reachable st'"
| get: "fs_lock_reachable st \<Longrightarrow> file_lock_get_leader st dent fl out = (res, st') \<Longrightarrow>
    fs_lock_reachable st'"
| get_ipc: "fs_lock_reachable st \<Longrightarrow> file_lock_get_from_ipc looked_up st fl out = (res, st') \<Longrightarrow>
    fs_lock_reachable st'"
| clear: "fs_lock_reachable st \<Longrightarrow> file_lock_clear_pid m st p = (m', ns, st') \<Longrightarrow>
    fs_lock_reachable st'"

lemma get_from_ipc_inv:
  assumes "table_inv st" "file_lock_get_from_ipc looked_up st fl out = (res, st')"
  shows "table_inv st'"
proof (cases looked_up)
  case (Inl err)
  with assms show ?thesis by (simp add: file_lock_get_from_ipc_def)
next
  case (Inr dent)
  let ?st0 = "st\<lparr>dent_refs := (dent_refs st)(dent := dent_refs st dent + 1)\<rparr>"
  have "snd (file_lock_get_leader ?st0 dent fl out) = ?st0"
    using assms(1) by (intro get_leader_state) simp
  with assms Inr show ?thesis
    by (auto simp: file_lock_get_from_ipc_def Let_def split: prod.splits)
qed

lemma fs_lock_reachable_inv: "fs_lock_reachable st \<Longrightarrow> table_inv st"
proof (induction rule: fs_lock_reachable.induct)
  case (init refs)
  show ?case by (simp add: table_inv_def)
next
  case (get st dent fl out res st')
  then show ?case using get_leader_state [of st dent fl out] by simp
next
  case (clear st m p m' ns st')
  then show ?case by (auto simp: file_lock_clear_pid_def intro: clear_loop_inv)
qed (auto intro: set_leader_inv set_from_ipc_inv get_from_ipc_inv)

section \<open>What process exit leaves\<close>

text \<open>Every lock in the list after an operation has the family and the owner of a lock that was there
  before, or of the lock that was set.\<close>

definition same_owner :: "libos_file_lock \<Rightarrow> libos_file_lock \<Rightarrow> bool" where
  "same_owner a c \<longleftrightarrow> family a = family c \<and> (family c = FILE_LOCK_POSIX \<longrightarrow> pid a = pid c)"

lemma posix_loop_owners:
  "posix_loop fl s e prev don rest = (s', e', prev', ls) \<Longrightarrow> a \<in> set ls \<Longrightarrow>
     \<exists>c\<in>set (don @ rest). same_owner a c"
proof (induction rest arbitrary: s e prev don)
  case Nil
  then show ?case by (auto simp: same_owner_def)
next
  case (Cons cur rest)
  have step: "\<exists>c\<in>set (don @ cur # rest). same_owner a c"
    if loop: "posix_loop fl s1 e1 prev1 (don @ don1) rest = (s', e', prev', ls)"
      and new: "\<forall>x\<in>set don1. same_owner x cur" for s1 e1 prev1 don1
  proof -
    obtain c where "c \<in> set ((don @ don1) @ rest)" "same_owner a c"
      using Cons.IH [OF loop Cons.prems(2)] by blast
    with new show ?thesis
      by (auto simp: same_owner_def)
  qed
  have "same_owner x x" "same_owner (x\<lparr>endb := n\<rparr>) x" "same_owner (x\<lparr>start := n\<rparr>) x" for x n
    by (simp_all add: same_owner_def)
  with Cons.prems step [of _ _ _ "[cur]"] step [of _ _ _ "[]"] step [of _ _ _ "[cur\<lparr>endb := s - 1\<rparr>]"]
  show ?case
    by (auto simp: same_owner_def split: if_splits)
qed

lemma flock_remove_subset: "set (flock_remove h locks) \<subseteq> set locks"
  by (induction locks) auto

lemma lock_set_owners:
  assumes "lock_set_by_family m locks fl = (m', ret, locks')" "lock_valid fl" "a \<in> set locks'"
  shows "\<exists>c\<in>set (fl # locks). same_owner a c"
proof (cases "family fl = FILE_LOCK_POSIX")
  case True
  then have set: "posix_lock_set m locks fl = (m', ret, locks')"
    using assms(1) by (simp add: lock_set_by_family_def)
  show ?thesis
  proof (cases ret)
    case None
    with set obtain s e prev ls where
      loop: "posix_loop fl (start fl) (endb fl) None [] locks = (s, e, prev, ls)"
      and locks': "locks' = (if ltype fl = F_UNLCK then ls
         else insert_after \<lparr>family = FILE_LOCK_POSIX, ltype = ltype fl, start = s, endb = e,
                pid = pid fl, handle_id = 0\<rparr> prev ls)"
      using posix_lock_set_loop by blast
    have "a \<in> set ls \<or> same_owner a fl"
      using assms(3) True unfolding locks'
      by (auto simp: insert_after_def same_owner_def split: if_splits option.splits
            dest: in_set_takeD in_set_dropD)
    with posix_loop_owners [OF loop, of a] show ?thesis by auto
  next
    case (Some err)
    with posix_lock_set_error [of m locks fl] set assms(3) show ?thesis
      by (auto simp: same_owner_def)
  qed
next
  case False
  with assms have "a \<in> set locks \<or> same_owner a fl"
    using flock_remove_subset [of "handle_id fl" locks]
    by (auto simp: lock_set_by_family_def flock_lock_set_def lock_valid_def same_owner_def Let_def
          split: if_splits prod.splits)
  then show ?thesis
    by (auto simp: same_owner_def)
qed

definition free_of :: "u32 \<Rightarrow> dent_file_locks \<Rightarrow> bool" where
  "free_of p d \<longleftrightarrow>
     (\<forall>fl\<in>set (file_locks d). \<not> is_posix_of p fl) \<and>
     (\<forall>req\<in>set (file_lock_requests d). \<not> is_posix_of p (req_lock req))"

lemma same_owner_posix_of: "same_owner a c \<Longrightarrow> is_posix_of p a = is_posix_of p c"
  by (auto simp: same_owner_def is_posix_of_def)

lemma process_pass_free:
  assumes "process_pass m locks reqs = (m', locks', reqs', ns, changed)"
    and "\<forall>fl\<in>set locks. \<not> is_posix_of p fl"
    and "\<forall>req\<in>set reqs. \<not> is_posix_of p (req_lock req) \<and> lock_valid (req_lock req)"
  shows "\<forall>fl\<in>set locks'. \<not> is_posix_of p fl"
  using assms
proof (induction reqs arbitrary: m locks m' locks' reqs' ns changed)
  case Nil
  then show ?case by simp
next
  case (Cons req rest)
  show ?case
  proof (cases "file_lock_find_conflict locks (req_lock req)")
    case None
    obtain m1 ret locks1 where set: "lock_set_by_family m locks (req_lock req) = (m1, ret, locks1)"
      by (metis prod_cases3)
    have "\<forall>fl\<in>set locks1. \<not> is_posix_of p fl"
      using lock_set_owners [OF set] Cons.prems(2,3) same_owner_posix_of by fastforce
    with Cons.prems None set show ?thesis
      by (auto split: prod.splits dest: Cons.IH)
  next
    case Some
    with Cons.prems show ?thesis
      by (auto split: prod.splits dest: Cons.IH)
  qed
qed

lemma process_requests_free:
  assumes "file_lock_process_requests m locks reqs = (m', locks', reqs', ns)"
    and "\<forall>fl\<in>set locks. \<not> is_posix_of p fl"
    and "\<forall>req\<in>set reqs. \<not> is_posix_of p (req_lock req) \<and> lock_valid (req_lock req)"
  shows "\<forall>fl\<in>set locks'. \<not> is_posix_of p fl"
  using assms
proof (induction m locks reqs arbitrary: m' locks' reqs' ns rule: file_lock_process_requests.induct)
  case (1 m locks reqs)
  obtain m1 locks1 reqs1 ns1 ch where p: "process_pass m locks reqs = (m1, locks1, reqs1, ns1, ch)"
    by (metis prod_cases5)
  have free: "\<forall>fl\<in>set locks1. \<not> is_posix_of p fl"
    using process_pass_free [OF p] "1.prems" by blast
  have sub: "set reqs1 \<subseteq> set reqs"
    by (rule process_pass_subset [OF p])
  show ?case
  proof (cases ch)
    case True
    then show ?thesis
      using "1.IH" [OF p [symmetric] refl refl refl refl True] "1.prems" free sub p
      by (auto simp: file_lock_process_requests.simps [of m locks reqs] split: prod.splits)
  next
    case False
    with "1.prems" free p show ?thesis
      by (simp add: file_lock_process_requests.simps [of m locks reqs])
  qed
qed

lemma map_of_gc:
  "k \<noteq> dent \<Longrightarrow> map_of (dent_locks (dent_file_locks_gc st dent)) k = map_of (dent_locks st) k"
proof -
  assume "k \<noteq> dent"
  then have "map_of (filter (\<lambda>(k, v). k \<noteq> dent) xs) k = map_of xs k" for xs :: "(nat \<times> dent_file_locks) list"
    by (induction xs) auto
  then show ?thesis
    by (auto simp: dent_file_locks_gc_def split: option.splits)
qed

lemma gc_entry:
  "map_of (dent_locks (dent_file_locks_gc st dent)) dent = Some d \<Longrightarrow> map_of (dent_locks st) dent = Some d"
  by (auto simp: dent_file_locks_gc_def split: option.splits if_splits dest!: map_of_SomeD)

lemma map_of_set_dent_file_locks:
  "map_of (dent_locks (set_dent_file_locks st dent d)) k =
     (if k = dent \<and> map_of (dent_locks st) k \<noteq> None then Some d else map_of (dent_locks st) k)"
  by (simp add: set_dent_file_locks_def map_of_set_dent)

lemma clear_dentry_other:
  assumes "file_lock_clear_pid_from_dentry m st dent p = (m', ns, st')" "k \<noteq> dent"
  shows "map_of (dent_locks st') k = map_of (dent_locks st) k"
  using assms
  by (auto simp: file_lock_clear_pid_from_dentry_def Let_def map_of_gc map_of_set_dent_file_locks
        split: option.splits if_splits prod.splits)

lemma clear_dentry_free:
  assumes inv: "table_inv st" and step: "file_lock_clear_pid_from_dentry m st dent p = (m', ns, st')"
    and d': "map_of (dent_locks st') dent = Some d'"
  shows "free_of p d'"
proof (cases "map_of (dent_locks st) dent")
  case None
  with step d' show ?thesis by (simp add: file_lock_clear_pid_from_dentry_def)
next
  case (Some d)
  define locks1 where "locks1 = filter (\<lambda>fl. \<not> is_posix_of p fl) (file_locks d)"
  define reqs1 where "reqs1 = filter (\<lambda>req. \<not> is_posix_of p (req_lock req)) (file_lock_requests d)"
  obtain m1 locks2 reqs2 ns2 where
    proc: "file_lock_process_requests m locks1 reqs1 = (m1, locks2, reqs2, ns2)"
    by (metis prod_cases4)
  have "\<forall>req\<in>set (file_lock_requests d). lock_valid (req_lock req)"
    using table_inv_lookup [OF inv Some] by (auto simp: dent_inv_def dent_kind_def)
  then have "\<forall>fl\<in>set locks2. \<not> is_posix_of p fl"
    by (intro process_requests_free [OF proc]) (auto simp: locks1_def reqs1_def)
  moreover have "\<forall>req\<in>set reqs2. \<not> is_posix_of p (req_lock req)"
    using process_requests_blocked [OF proc] by (auto simp: reqs1_def)
  ultimately have free: "free_of p (d\<lparr>file_locks := locks2, file_lock_requests := reqs2\<rparr>)"
    "free_of p (d\<lparr>file_locks := locks1, file_lock_requests := reqs1\<rparr>)"
    by (auto simp: free_of_def locks1_def reqs1_def)
  show ?thesis
    using step Some d' proc free unfolding file_lock_clear_pid_from_dentry_def
    by (auto simp: locks1_def [symmetric] reqs1_def [symmetric] map_of_set_dent_file_locks Let_def
          split: if_splits dest!: gc_entry)
qed

lemma clear_loop_free:
  assumes "table_inv st" "clear_pid_loop m st dents p = (m', ns, st')"
    and "\<And>k d. k \<notin> set dents \<Longrightarrow> map_of (dent_locks st) k = Some d \<Longrightarrow> free_of p d"
    and "map_of (dent_locks st') k = Some d"
  shows "free_of p d"
  using assms
proof (induction dents arbitrary: m st ns)
  case Nil
  then show ?case by auto
next
  case (Cons dent dents)
  obtain m1 ns1 st1 where step: "file_lock_clear_pid_from_dentry m st dent p = (m1, ns1, st1)"
    by (metis prod_cases3)
  obtain ns2 where loop: "clear_pid_loop m1 st1 dents p = (m', ns2, st')"
    using Cons.prems(2) step by (auto split: prod.splits)
  show ?case
  proof (rule Cons.IH [OF clear_dentry_inv [OF Cons.prems(1) step] loop _ Cons.prems(4)])
    fix k d
    assume "k \<notin> set dents" "map_of (dent_locks st1) k = Some d"
    then show "free_of p d"
      using clear_dentry_free [OF Cons.prems(1) step] clear_dentry_other [OF step] Cons.prems(3)
      by (cases "k = dent") auto
  qed
qed

text \<open>
  The assertion of the loop holds exactly if no request of the process waits on an event in the
  leader when the loop starts: visiting a file does not touch the requests of the others.
\<close>

lemma clear_dentry_asserts_cong:
  "map_of (dent_locks st') k = map_of (dent_locks st) k \<Longrightarrow>
   clear_pid_from_dentry_asserts st' k p = clear_pid_from_dentry_asserts st k p"
  by (simp add: clear_pid_from_dentry_asserts_def)

lemma clear_pid_asserts_iff:
  "distinct dents \<Longrightarrow>
   clear_pid_asserts m st dents p \<longleftrightarrow> (\<forall>k\<in>set dents. clear_pid_from_dentry_asserts st k p)"
proof (induction dents arbitrary: m st)
  case Nil
  then show ?case by simp
next
  case (Cons dent dents)
  obtain m1 ns1 st1 where step: "file_lock_clear_pid_from_dentry m st dent p = (m1, ns1, st1)"
    by (metis prod_cases3)
  have "clear_pid_from_dentry_asserts st1 k p = clear_pid_from_dentry_asserts st k p"
    if "k \<in> set dents" for k
    using Cons.prems that by (intro clear_dentry_asserts_cong clear_dentry_other [OF step]) auto
  then show ?case using Cons by (simp add: step)
qed

section \<open>Properties\<close>

text \<open>C5: Setting or removing a POSIX lock changes the file's lock ownership exactly on the bytes of the
  requested range and for the requesting process: there the process holds the requested type
  (nothing after an unlock), and every other byte and every other process keeps what it had.
  This is the byte-wise contract of \<open>fcntl(F_SETLK)\<close> that the splitting, shortening and merging
  of list entries in \<open>_posix_lock_set\<close> implements.\<close>

theorem posix_lock_set_bytes:
  assumes "posix_wf locks" "start fl \<le> endb fl" "posix_lock_set m locks fl = (m', None, locks')"
  shows "holds locks' q b u \<longleftrightarrow>
    (if q = pid fl \<and> start fl \<le> b \<and> b \<le> endb fl then u = ltype fl \<and> ltype fl \<noteq> F_UNLCK
     else holds locks q b u)"
  using assms by (rule posix_lock_set_ok(2))

definition sample_lock :: "lock_type \<Rightarrow> u64 \<Rightarrow> u64 \<Rightarrow> u32 \<Rightarrow> libos_file_lock" where
  "sample_lock t s e p =
     \<lparr>family = FILE_LOCK_POSIX, ltype = t, start = s, endb = e, pid = p, handle_id = 0\<rparr>"

lemma sample_split:
  "posix_lock_set [] [sample_lock F_RDLCK 0 9 1] (sample_lock F_WRLCK 3 5 1) =
     ([], None, [sample_lock F_RDLCK 0 2 1, sample_lock F_WRLCK 3 5 1, sample_lock F_RDLCK 6 9 1])"
  by (simp add: posix_lock_set_def sample_lock_def insert_after_def)

lemma sample_wf: "posix_wf [sample_lock F_RDLCK 0 9 1]"
  by (simp add: posix_wf_def sample_lock_def)

theorem posix_lock_set_bytes_witness:
  "holds [sample_lock F_RDLCK 0 2 1, sample_lock F_WRLCK 3 5 1, sample_lock F_RDLCK 6 9 1] 1 4 F_WRLCK
     \<longleftrightarrow> True"
  using posix_lock_set_bytes [OF sample_wf _ sample_split, of 1 4 F_WRLCK]
  by (simp add: sample_lock_def)

text \<open>C6: Setting or removing a POSIX lock keeps the list canonical: sorted by PID and position, ranges of
  one process disjoint, and locks of the same type of one process never adjacent (they are
  merged). The order assertions that the code makes in debug builds therefore hold.\<close>

theorem posix_lock_set_canonical:
  assumes "posix_wf locks" "start fl \<le> endb fl" "posix_lock_set m locks fl = (m', ret, locks')"
  shows "posix_wf locks'"
  using assms posix_lock_set_ok(1) [of locks fl m m' locks'] posix_lock_set_error [of m locks fl]
  by (cases ret) auto

theorem posix_lock_set_canonical_witness:
  "posix_wf [sample_lock F_RDLCK 0 2 1, sample_lock F_WRLCK 3 5 1, sample_lock F_RDLCK 6 9 1]"
  by (rule posix_lock_set_canonical [OF sample_wf _ sample_split]) (simp add: sample_lock_def)

text \<open>C4: Mutual exclusion of file locks. In every lock table that any sequence of set, unlock, query and
  process-exit operations, local or over IPC, can produce, no held lock conflicts with any other
  held lock of the same file, whatever allocations failed on the way.\<close>

theorem held_locks_never_conflict:
  assumes "fs_lock_reachable st" "map_of (dent_locks st) dent = Some d" "fl \<in> set (file_locks d)"
  shows "file_lock_find_conflict (file_locks d) fl = None"
proof -
  have "dent_inv d"
    using table_inv_lookup [OF fs_lock_reachable_inv [OF assms(1)] assms(2)] by simp
  with assms(3) show ?thesis
    by (auto simp: dent_inv_def dent_kind_def fam_inv_def file_lock_find_conflict_def find_None_iff
          compatible_def posix_wf_def flock_wf_def)
qed

definition sample_dent :: dent_file_locks where
  "sample_dent =
     \<lparr>posix_used = True, flock_used = False, file_locks = [sample_lock F_WRLCK 0 9 1],
      file_lock_requests =
        [\<lparr>req_lock = sample_lock F_RDLCK 5 6 2, req_notify = Some (Local_Waiter 3)\<rparr>]\<rparr>"

definition sample_state :: fs_lock_state where
  "sample_state = \<lparr>dent_locks = [(7, sample_dent)], dent_refs = (\<lambda>_. 0)(7 := 1)\<rparr>"

lemma process_requests_Nil: "file_lock_process_requests m locks [] = (m, locks, [], [])"
  by (subst file_lock_process_requests.simps) simp

lemmas fs_lock_eval =
  file_lock_set_leader_def file_lock_set_or_add_request_def find_dent_file_locks_def
  set_or_add_in_dent_def file_lock_find_conflict_def posix_conflict_def lock_set_by_family_def
  posix_lock_set_def insert_after_def process_requests_Nil file_lock_add_request_def
  mark_used_def set_dent_file_locks_def dent_file_locks_gc_def fill_notify_def sample_lock_def

lemma sample_valid: "s \<le> e \<Longrightarrow> lock_valid (sample_lock t s e p)"
  by (simp add: lock_valid_def sample_lock_def)

lemma sample_state_reachable: "fs_lock_reachable sample_state"
proof -
  let ?st1 = "\<lparr>dent_locks = [(7, sample_dent\<lparr>file_lock_requests := []\<rparr>)],
      dent_refs = (\<lambda>_. 0)(7 := 1)\<rparr>"
  have "file_lock_set_leader [] (Inr 3) \<lparr>dent_locks = [], dent_refs = (\<lambda>_. 0)\<rparr> 7
      (sample_lock F_WRLCK 0 9 1) False = ([], Returned None, [], ?st1)"
    by (simp add: fs_lock_eval sample_dent_def)
  from fs_lock_reachable.set [OF fs_lock_reachable.init sample_valid this]
  have r1: "fs_lock_reachable ?st1" by simp
  have s2: "file_lock_set_leader [] (Inr 3) ?st1 7 (sample_lock F_RDLCK 5 6 2) True =
      ([], Blocked 3, [], sample_state)"
    by (simp add: fs_lock_eval sample_dent_def sample_state_def)
  show ?thesis
    by (rule fs_lock_reachable.set [OF r1 sample_valid s2]) simp
qed

lemma sample_state_entry: "map_of (dent_locks sample_state) 7 = Some sample_dent"
  by (simp add: sample_state_def)

theorem held_locks_never_conflict_witness:
  "file_lock_find_conflict (file_locks sample_dent) (sample_lock F_WRLCK 0 9 1) = None"
  by (rule held_locks_never_conflict [OF sample_state_reachable sample_state_entry])
    (simp add: sample_dent_def)

text \<open>C7: No lost wake-up. In every reachable lock table each pending request is blocked by a lock that is
  held now: a request that could be granted has been granted and its waiter notified. In
  particular \<open>file_lock_process_requests\<close> always comes to an end.\<close>

theorem pending_requests_are_blocked:
  assumes "fs_lock_reachable st" "map_of (dent_locks st) dent = Some d"
    and "req \<in> set (file_lock_requests d)"
  shows "\<exists>c\<in>set (file_locks d). file_lock_find_conflict [c] (req_lock req) = Some c"
proof -
  have "dent_inv d"
    using table_inv_lookup [OF fs_lock_reachable_inv [OF assms(1)] assms(2)] by simp
  with assms(3) obtain c where "file_lock_find_conflict (file_locks d) (req_lock req) = Some c"
    by (auto simp: dent_inv_def dent_kind_def blocked_def)
  then show ?thesis
    by (auto simp: file_lock_find_conflict_def find_Some_iff split: if_splits intro!: bexI [of _ c])
qed

theorem pending_requests_are_blocked_witness:
  "\<exists>c\<in>set (file_locks sample_dent).
     file_lock_find_conflict [c] (sample_lock F_RDLCK 5 6 2) = Some c"
  using pending_requests_are_blocked [OF sample_state_reachable sample_state_entry,
      of "\<lparr>req_lock = sample_lock F_RDLCK 5 6 2, req_notify = Some (Local_Waiter 3)\<rparr>"]
  by (simp add: sample_dent_def)

lemma lock_set_ret:
  "lock_set_by_family m locks fl = (m', ret, locks') \<Longrightarrow> ret = None \<or> ret = Some ENOMEM"
  by (auto simp: lock_set_by_family_def posix_lock_set_def flock_lock_set_def Let_def
        split: if_splits prod.splits)

lemma set_nowait_in_dent:
  assumes "ltype fl \<noteq> F_UNLCK"
    and "set_or_add_in_dent m d fl False = (m', ret, added, ns, d')"
  shows "if mixed_use fl d then (m', ret, added, ns, d') = (m, Some EPERM, False, [], d)
    else if file_lock_find_conflict (file_locks d) fl \<noteq> None
    then (m', ret, added, ns, d') = (m, Some EAGAIN, False, [], d)
    else ret \<in> {None, Some ENOMEM} \<and> \<not> added"
proof -
  obtain m1 ret1 locks1 where set: "lock_set_by_family m (file_locks d) fl = (m1, ret1, locks1)"
    by (metis prod_cases3)
  with assms lock_set_ret [OF set] show ?thesis
    unfolding set_or_add_in_dent_def mixed_use_def by (auto split: prod.splits if_splits)
qed

lemma find_conflict_mem: "file_lock_find_conflict locks fl = Some c \<Longrightarrow> c \<in> set locks"
  by (auto simp: file_lock_find_conflict_def find_Some_iff split: if_splits)

lemma set_dent_same:
  assumes "distinct (map fst (dent_locks st))" "map_of (dent_locks st) dent = Some d"
  shows "set_dent_file_locks st dent d = st"
proof -
  have "map (\<lambda>(k, v). if k = dent then (k, d) else (k, v)) (dent_locks st) = dent_locks st"
  proof (rule map_idI)
    fix x
    assume x: "x \<in> set (dent_locks st)"
    have "snd x = d" if "fst x = dent"
      using eq_key_imp_eq_value [OF assms(1), of dent "snd x" d] map_of_SomeD [OF assms(2)] x that
      by (cases x) simp
    then show "(case x of (k, v) \<Rightarrow> if k = dent then (k, d) else (k, v)) = x"
      by (cases x) simp
  qed
  then show ?thesis by (simp add: set_dent_file_locks_def)
qed

lemma find_dent_create:
  assumes "ltype fl \<noteq> F_UNLCK" "map_of (dent_locks st) dent = None"
    and "file_lock_set_leader m ev st dent fl False = (m', r, ns, st')"
  shows "r \<in> {Returned None, Returned (Some ENOMEM)}"
proof -
  let ?d = "\<lparr>posix_used = False, flock_used = False, file_locks = [], file_lock_requests = []\<rparr>"
  obtain ok m1 where m: "malloc m = (ok, m1)" by (metis prod.exhaust)
  obtain m2 ret added ns2 d2 where
    step: "set_or_add_in_dent m1 ?d fl False = (m2, ret, added, ns2, d2)" by (metis prod_cases5)
  have "\<not> mixed_use fl ?d" "file_lock_find_conflict [] fl = None"
    by (simp_all add: mixed_use_def file_lock_find_conflict_def)
  with set_nowait_in_dent [OF assms(1) step] have "ret \<in> {None, Some ENOMEM}" "\<not> added"
    by (auto split: if_splits)
  with assms m step show ?thesis
    by (auto simp: file_lock_set_leader_def file_lock_set_or_add_request_def
        find_dent_file_locks_def split: if_splits)
qed

lemma get_leader_reports:
  assumes "table_inv st"
  shows "ltype (fst (file_lock_get_leader st dent fl out)) \<noteq> F_UNLCK \<longleftrightarrow>
    (\<exists>d. map_of (dent_locks st) dent = Some d \<and> file_lock_find_conflict (file_locks d) fl \<noteq> None)"
proof (cases "map_of (dent_locks st) dent")
  case (Some d)
  have "ltype c \<noteq> F_UNLCK" if "c \<in> set (file_locks d)" for c
    using that table_inv_lookup [OF assms Some]
    by (auto simp: dent_inv_def dent_kind_def fam_inv_def posix_wf_def flock_wf_def)
  then show ?thesis
    using Some find_conflict_mem [of "file_locks d" fl]
    by (auto simp: file_lock_get_leader_def split: option.splits)
qed (simp add: file_lock_get_leader_def)

text \<open>C8: \<open>F_GETLK\<close> and \<open>F_SETLK\<close>. A lock call that does not wait fails with \<open>EPERM\<close> exactly if the file
  is in use by the other family of locks; it fails with \<open>EAGAIN\<close> exactly if that is not so and
  the query reports a conflicting lock; both failures leave the lock table as it was. In
  every other case, in particular if the file has no entry, the call succeeds or runs out of memory.\<close>

theorem getlk_predicts_setlk:
  assumes reach: "fs_lock_reachable st" and lock: "ltype fl \<noteq> F_UNLCK"
    and set: "file_lock_set_leader m ev st dent fl False = (m', r, ns, st')"
    and mixed: "mixed \<longleftrightarrow> (\<exists>d. map_of (dent_locks st) dent = Some d \<and> mixed_use fl d)"
    and reported: "reported \<longleftrightarrow> ltype (fst (file_lock_get_leader st dent fl out)) \<noteq> F_UNLCK"
  shows "(r = Returned (Some EPERM) \<longleftrightarrow> mixed) \<and>
    (r = Returned (Some EAGAIN) \<longleftrightarrow> \<not> mixed \<and> reported) \<and>
    (if mixed \<or> reported then m' = m \<and> ns = [] \<and> st' = st
     else r = Returned None \<or> r = Returned (Some ENOMEM))"
proof (cases "map_of (dent_locks st) dent")
  case None
  then show ?thesis using find_dent_create [OF lock None set] mixed reported
    by (auto simp: file_lock_get_leader_def)
next
  case (Some d)
  have inv: "table_inv st" by (rule fs_lock_reachable_inv [OF reach])
  have same: "dent_file_locks_gc (set_dent_file_locks st dent d) dent = st"
    using inv Some gc_nonempty [OF inv] set_dent_same by (simp add: table_inv_def)
  obtain m1 ret added ns1 d1 where
    step: "set_or_add_in_dent m d fl False = (m1, ret, added, ns1, d1)" by (metis prod_cases5)
  have "file_lock_set_or_add_request m st dent fl False =
      (m1, ret, added, ns1, dent_file_locks_gc (set_dent_file_locks st dent d1) dent)"
    using Some step by (simp add: file_lock_set_or_add_request_def find_dent_file_locks_def)
  moreover have "mixed \<longleftrightarrow> mixed_use fl d"
    "reported \<longleftrightarrow> file_lock_find_conflict (file_locks d) fl \<noteq> None"
    using Some mixed reported get_leader_reports [OF inv] by auto
  ultimately show ?thesis using set set_nowait_in_dent [OF lock step] same
    by (auto simp: file_lock_set_leader_def split: if_splits)
qed

theorem getlk_predicts_setlk_witness:
  "ltype (fst (file_lock_get_leader sample_state 7 (sample_lock F_RDLCK 2 3 2) (sample_lock F_RDLCK 2 3 2)))
     \<noteq> F_UNLCK \<and>
   file_lock_set_leader [] (Inr 4) sample_state 7 (sample_lock F_RDLCK 2 3 2) False =
     ([], Returned (Some EAGAIN), [], sample_state)"
proof -
  let ?fl = "sample_lock F_RDLCK 2 3 2"
  obtain m' r ns st' where
    set: "file_lock_set_leader [] (Inr 4) sample_state 7 ?fl False = (m', r, ns, st')"
    by (metis prod_cases4)
  have "ltype (fst (file_lock_get_leader sample_state 7 ?fl ?fl)) \<noteq> F_UNLCK"
    by (simp add: file_lock_get_leader_def sample_state_def sample_dent_def fs_lock_eval)
  moreover have "ltype ?fl \<noteq> F_UNLCK" "\<not> mixed_use ?fl sample_dent"
    by (simp_all add: sample_lock_def mixed_use_def sample_dent_def)
  ultimately show ?thesis
    using getlk_predicts_setlk [OF sample_state_reachable _ set refl refl, of ?fl]
      sample_state_entry set by auto
qed

text \<open>C9: Process exit. After \<open>file_lock_clear_pid\<close> no file has a POSIX lock or a pending POSIX request of
  the process left.\<close>

theorem clear_pid_releases_everything:
  assumes "fs_lock_reachable st" "file_lock_clear_pid m st p = (m', ns, st')"
    and "map_of (dent_locks st') dent = Some d"
  shows "free_of p d"
proof (rule clear_loop_free [OF fs_lock_reachable_inv [OF assms(1)] _ _ assms(3)])
  show "clear_pid_loop m st (map fst (dent_locks st)) p = (m', ns, st')"
    using assms(2) by (simp add: file_lock_clear_pid_def)
  show "free_of p d" if "k \<notin> set (map fst (dent_locks st))" "map_of (dent_locks st) k = Some d" for k d
    using that by (force dest: map_of_SomeD)
qed

lemma sample_clear:
  "file_lock_clear_pid [] sample_state 1 =
     ([], [Event_Set 3 None],
      \<lparr>dent_locks = [(7, \<lparr>posix_used = True, flock_used = False,
         file_locks = [sample_lock F_RDLCK 5 6 2], file_lock_requests = []\<rparr>)],
       dent_refs = (\<lambda>_. 0)(7 := 1)\<rparr>)"
  by (simp add: file_lock_clear_pid_def file_lock_clear_pid_from_dentry_def sample_state_def
        sample_dent_def is_posix_of_def fs_lock_eval notify_waiter_def
        file_lock_process_requests.simps [of "[]" "[]" "[x]" for x])

theorem clear_pid_releases_everything_witness:
  "free_of 1 \<lparr>posix_used = True, flock_used = False,
     file_locks = [sample_lock F_RDLCK 5 6 2], file_lock_requests = []\<rparr>"
  by (rule clear_pid_releases_everything [OF sample_state_reachable sample_clear, of 7]) simp

section \<open>Divergences found\<close>

text \<open>
  When \<open>PalEventCreate\<close> fails, \<open>file_lock_set\<close> returns the error but leaves its request on the list
  with the \<open>notify\<close> fields never assigned; whoever processes the request later reads them.
\<close>

lemma event_failure_leaves_request:
  "file_lock_set_leader [] (Inl ENOMEM)
     \<lparr>dent_locks = [(7, sample_dent\<lparr>file_lock_requests := []\<rparr>)], dent_refs = (\<lambda>_. 0)(7 := 1)\<rparr> 7
     (sample_lock F_RDLCK 5 6 2) True =
   ([], Returned (Some ENOMEM), [],
    \<lparr>dent_locks = [(7, sample_dent\<lparr>file_lock_requests :=
        [\<lparr>req_lock = sample_lock F_RDLCK 5 6 2, req_notify = None\<rparr>]\<rparr>)],
     dent_refs = (\<lambda>_. 0)(7 := 1)\<rparr>)"
  by (simp add: fs_lock_eval sample_dent_def)

text \<open>A deferred IPC response carries the low 32 bits of the sequence number of its request, an immediate
  one the whole 64-bit number.\<close>

lemma deferred_response_truncates_seq:
  "notify_waiter \<lparr>req_lock = fl, req_notify = Some (Remote_Waiter vmid (ucast (sq::u64)))\<rparr> res =
     Ipc_Response vmid (take_bit 32 sq) res"
  by (simp add: notify_waiter_def unsigned_ucast_eq)

text \<open>A lock that cannot be created at start-up is not noticed: the result is 0, not an error.\<close>

lemma init_fs_lock_hides_failure: "init_fs_lock 0 False = 0" "init_fs_lock 0 True = 1"
  by (simp_all add: init_fs_lock_def)

end
