(* ===== verification/Avl_Tree.thy ===== *)
theory Avl_Tree
  imports Prelude
begin

text \<open>
  AVL trees: \<^verbatim>\<open>common/src/avl_tree.c\<close>. The C nodes are linked both ways; the model is a binary tree
  with the balance field of each node, and a pointer to a node of the tree is that node together
  with the list of its ancestors (what \<open>node->parent\<close> leads to), each ancestor with the side the
  path leaves it on and its other subtree. \<open>plug\<close> is the tree such a pointer lies in. A failed
  assertion, or a dereference of a \<open>NULL\<close> child, is the result \<open>None\<close>.
\<close>

section \<open>Trees and pointers into them\<close>

datatype 'a avl = Tip | Node (left: "'a avl") (val: 'a) (balance: int) (right: "'a avl")

datatype side = LEFT | RIGHT

text \<open>An ancestor: the side taken, its value, its balance field, its other child.\<close>

datatype 'a frame = Frame side 'a int "'a avl"

fun link :: "'a avl \<Rightarrow> 'a frame \<Rightarrow> 'a avl" where
  "link t (Frame LEFT v b other) = Node t v b other"
| "link t (Frame RIGHT v b other) = Node other v b t"

fun plug :: "'a avl \<Rightarrow> 'a frame list \<Rightarrow> 'a avl" where
  "plug t [] = t"
| "plug t (f # fs) = plug (link t f) fs"

section \<open>Rotations\<close>

definition rot1L :: "'a avl \<Rightarrow> 'a avl option" where
  "rot1L p =
     (case p of Node pl pv pb (Node ql qv qb qr) \<Rightarrow>
        if (qb = 1 \<or> qb = 0) \<and> pb = 2 then
          (if qb = 1 then Some (Node (Node pl pv 0 ql) qv 0 qr)
           else Some (Node (Node pl pv 1 ql) qv (- 1) qr))
        else None
      | _ \<Rightarrow> None)"

definition rot1R :: "'a avl \<Rightarrow> 'a avl option" where
  "rot1R p =
     (case p of Node (Node ql qv qb qr) pv pb pr \<Rightarrow>
        if (qb = - 1 \<or> qb = 0) \<and> pb = - 2 then
          (if qb = - 1 then Some (Node ql qv 0 (Node qr pv 0 pr))
           else Some (Node ql qv 1 (Node qr pv (- 1) pr)))
        else None
      | _ \<Rightarrow> None)"

definition rot2RL :: "'a avl \<Rightarrow> 'a avl option" where
  "rot2RL p =
     (case p of Node pl pv pb (Node (Node rl rv rb rr) qv qb qr) \<Rightarrow>
        if qb = - 1 \<and> pb = 2 \<and> - 1 \<le> rb \<and> rb \<le> 1 then
          (let (pb', qb') = (if rb = - 1 then (0, 1) else if rb = 0 then (0, 0) else (- 1, 0))
           in Some (Node (Node pl pv pb' rl) rv 0 (Node rr qv qb' qr)))
        else None
      | _ \<Rightarrow> None)"

definition rot2LR :: "'a avl \<Rightarrow> 'a avl option" where
  "rot2LR p =
     (case p of Node (Node ql qv qb (Node rl rv rb rr)) pv pb pr \<Rightarrow>
        if qb = 1 \<and> pb = - 2 \<and> - 1 \<le> rb \<and> rb \<le> 1 then
          (let (qb', pb') = (if rb = - 1 then (0, 1) else if rb = 0 then (0, 0) else (- 1, 0))
           in Some (Node (Node ql qv qb' rl) rv 0 (Node rr pv pb' pr)))
        else None
      | _ \<Rightarrow> None)"

text \<open>The rotated subtree, and whether its height might have changed.\<close>

definition avl_tree_do_balance :: "'a avl \<Rightarrow> (bool \<times> 'a avl) option" where
  "avl_tree_do_balance node =
     (if \<not> (node \<noteq> Tip \<and> (balance node = - 2 \<or> balance node = 2)) then None
      else if balance node < 0 then
        (if left node = Tip then None
         else if balance (left node) = 1 then map_option (Pair True) (rot2LR node)
         else map_option (Pair (balance (left node) \<noteq> 0)) (rot1R node))
      else
        (if right node = Tip then None
         else if balance (right node) \<ge> 0 then
           map_option (Pair (balance (right node) \<noteq> 0)) (rot1L node)
         else map_option (Pair True) (rot2RL node)))"

text \<open>
  \<open>avl_tree_balance\<close>: \<open>t\<close> is the child that changed its height, the frames are its ancestors from
  the parent to the root. The result is the whole tree.
\<close>

fun avl_tree_balance :: "'a avl \<Rightarrow> 'a frame list \<Rightarrow> bool \<Rightarrow> 'a avl option" where
  "avl_tree_balance t [] height_increased = Some t"
| "avl_tree_balance t (Frame s v b other # fs) height_increased =
     (let (height_changed, b') =
            (if s = LEFT then (if height_increased then (b \<le> 0, b - 1) else (b < 0, b + 1))
             else (if height_increased then (b \<ge> 0, b + 1) else (b > 0, b - 1)));
          node = link t (Frame s v b' other)
      in if \<not> (- 2 \<le> b' \<and> b' \<le> 2) then None
         else if b' = - 2 \<or> b' = 2 then
           (case avl_tree_do_balance node of
              None \<Rightarrow> None
            | Some (changed, node') \<Rightarrow>
                if \<not> (if height_increased then False else changed) then Some (plug node' fs)
                else avl_tree_balance node' fs height_increased)
         else if \<not> height_changed then Some (plug node fs)
         else avl_tree_balance node fs height_increased)"

section \<open>Insertion and deletion\<close>

text \<open>The way down of \<open>avl_tree_insert_unbalanced\<close>: the ancestors of the place where the node goes.\<close>

fun insert_path :: "('a \<Rightarrow> 'a \<Rightarrow> bool) \<Rightarrow> 'a \<Rightarrow> 'a avl \<Rightarrow> 'a frame list \<Rightarrow> 'a frame list" where
  "insert_path cmp x Tip fs = fs"
| "insert_path cmp x (Node l v b r) fs =
     (if cmp x v then insert_path cmp x l (Frame LEFT v b r # fs)
      else insert_path cmp x r (Frame RIGHT v b l # fs))"

definition avl_tree_insert :: "('a \<Rightarrow> 'a \<Rightarrow> bool) \<Rightarrow> 'a \<Rightarrow> 'a avl \<Rightarrow> 'a avl option" where
  "avl_tree_insert cmp x t = avl_tree_balance (Node Tip x 0 Tip) (insert_path cmp x t []) True"

text \<open>The way to the leftmost (rightmost) node of a subtree.\<close>

fun leftmost :: "'a avl \<Rightarrow> 'a frame list \<Rightarrow> 'a avl \<times> 'a frame list" where
  "leftmost (Node (Node ll lv lb lr) v b r) fs = leftmost (Node ll lv lb lr) (Frame LEFT v b r # fs)"
| "leftmost t fs = (t, fs)"

fun rightmost :: "'a avl \<Rightarrow> 'a frame list \<Rightarrow> 'a avl \<times> 'a frame list" where
  "rightmost (Node l v b (Node rl rv rb rr)) fs = rightmost (Node rl rv rb rr) (Frame RIGHT v b l # fs)"
| "rightmost t fs = (t, fs)"

text \<open>
  \<open>avl_tree_delete\<close> of the node at the pointer \<open>(node, fs)\<close>. A node with two children first changes
  places with its successor, which takes over its balance field, and is then unlinked there.
\<close>

definition avl_tree_delete :: "'a avl \<times> 'a frame list \<Rightarrow> 'a avl option" where
  "avl_tree_delete ptr =
     (case ptr of
        (Tip, fs) \<Rightarrow> None
      | (Node l v b r, fs) \<Rightarrow>
          if l \<noteq> Tip \<and> r \<noteq> Tip then
            (case leftmost r [] of
               (Tip, path) \<Rightarrow> None
             | (Node nl nv nb nr, path) \<Rightarrow>
                 if \<not> ((nb = 0 \<or> nb = 1) \<and> (nr \<noteq> Tip \<longrightarrow> balance nr = 0 \<and> left nr = Tip \<and> right nr = Tip))
                 then None
                 else avl_tree_balance nr (path @ Frame RIGHT nv b l # fs) False)
          else if l = Tip \<and> r = Tip then avl_tree_balance Tip fs False
          else if l \<noteq> Tip then avl_tree_balance l fs False
          else avl_tree_balance r fs False)"

text \<open>\<open>avl_tree_swap_node\<close>: another node takes the place of an equal one.\<close>

definition avl_tree_swap_node ::
    "('a \<Rightarrow> 'a \<Rightarrow> bool) \<Rightarrow> 'a avl \<times> 'a frame list \<Rightarrow> 'a \<Rightarrow> 'a avl option" where
  "avl_tree_swap_node cmp ptr new =
     (case ptr of
        (Tip, fs) \<Rightarrow> None
      | (Node l v b r, fs) \<Rightarrow>
          if cmp v new \<and> cmp new v then Some (plug (Node l new b r) fs) else None)"

section \<open>Walking\<close>

fun climb :: "side \<Rightarrow> 'a avl \<Rightarrow> 'a frame list \<Rightarrow> ('a avl \<times> 'a frame list) option" where
  "climb s t [] = None"
| "climb s t (Frame s' v b other # fs) =
     (if s' = s then climb s (link t (Frame s' v b other)) fs
      else Some (link t (Frame s' v b other), fs))"

definition avl_tree_prev :: "'a avl \<times> 'a frame list \<Rightarrow> ('a avl \<times> 'a frame list) option" where
  "avl_tree_prev ptr =
     (case ptr of
        (Tip, fs) \<Rightarrow> None
      | (Node l v b r, fs) \<Rightarrow>
          if l \<noteq> Tip then Some (rightmost l (Frame LEFT v b r # fs))
          else climb LEFT (Node l v b r) fs)"

definition avl_tree_next :: "'a avl \<times> 'a frame list \<Rightarrow> ('a avl \<times> 'a frame list) option" where
  "avl_tree_next ptr =
     (case ptr of
        (Tip, fs) \<Rightarrow> None
      | (Node l v b r, fs) \<Rightarrow>
          if r \<noteq> Tip then Some (leftmost r (Frame RIGHT v b l # fs))
          else climb RIGHT (Node l v b r) fs)"

definition avl_tree_first :: "'a avl \<Rightarrow> ('a avl \<times> 'a frame list) option" where
  "avl_tree_first t = (if t = Tip then None else Some (leftmost t []))"

definition avl_tree_last :: "'a avl \<Rightarrow> ('a avl \<times> 'a frame list) option" where
  "avl_tree_last t = (if t = Tip then None else Some (rightmost t []))"

section \<open>Searching\<close>

fun avl_tree_find_fn_to ::
    "('a \<Rightarrow> 'a \<Rightarrow> bool) \<Rightarrow> 'a \<Rightarrow> 'a avl \<Rightarrow> 'a frame list \<Rightarrow> ('a avl \<times> 'a frame list) option" where
  "avl_tree_find_fn_to cmp x Tip fs = None"
| "avl_tree_find_fn_to cmp x (Node l v b r) fs =
     (if cmp x v then
        (if cmp v x then Some (Node l v b r, fs)
         else avl_tree_find_fn_to cmp x l (Frame LEFT v b r # fs))
      else avl_tree_find_fn_to cmp x r (Frame RIGHT v b l # fs))"

fun lower_bound_loop ::
    "('b \<Rightarrow> 'a \<Rightarrow> bool) \<Rightarrow> 'b \<Rightarrow> ('a avl \<times> 'a frame list) option \<Rightarrow> 'a avl \<Rightarrow> 'a frame list \<Rightarrow>
     ('a avl \<times> 'a frame list) option" where
  "lower_bound_loop cmp x ret Tip fs = ret"
| "lower_bound_loop cmp x ret (Node l v b r) fs =
     (if cmp x v then lower_bound_loop cmp x (Some (Node l v b r, fs)) l (Frame LEFT v b r # fs)
      else lower_bound_loop cmp x ret r (Frame RIGHT v b l # fs))"

definition avl_tree_lower_bound_fn ::
    "('b \<Rightarrow> 'a \<Rightarrow> bool) \<Rightarrow> 'b \<Rightarrow> 'a avl \<Rightarrow> ('a avl \<times> 'a frame list) option" where
  "avl_tree_lower_bound_fn cmp x t = lower_bound_loop cmp x None t []"

section \<open>The debug check\<close>

fun avl_tree_is_balanced_size :: "'a avl \<Rightarrow> bool \<times> nat" where
  "avl_tree_is_balanced_size Tip = (True, 0)"
| "avl_tree_is_balanced_size (Node l v bal r) =
     (let (ret1, a) = avl_tree_is_balanced_size l;
          (ret2, b) = avl_tree_is_balanced_size r;
          ret = (ret1 \<and> ret2)
      in if a < b then (ret \<and> b - a = 1 \<and> bal = 1, b + 1)
         else if a = b then (ret \<and> bal = 0, a + 1)
         else (ret \<and> a - b = 1 \<and> bal = - 1, a + 1))"

definition debug_avl_tree_is_balanced :: "'a avl \<Rightarrow> bool" where
  "debug_avl_tree_is_balanced t = fst (avl_tree_is_balanced_size t)"

end
