(* ===== verification/Avl_Tree_Correct.thy ===== *)
theory Avl_Tree_Correct
  imports Avl_Tree
begin

text \<open>
  Correctness of the AVL trees: the in-order sequence of a tree, the balance invariant, and what
  insertion, deletion, walking and searching do to or read off that sequence. The locale
  \<open>ordered_tree\<close> is the interface the users of the trees rely on (the memory bookkeeping keeps
  its areas in such a tree); it is interpreted on the operations of \<open>Avl_Tree\<close>.
\<close>

named_theorems avl_defs "operations of the AVL trees, for case analysis"

section \<open>In-order sequence and balance\<close>

fun inorder :: "'a avl \<Rightarrow> 'a list" where
  "inorder Tip = []"
| "inorder (Node l v b r) = inorder l @ v # inorder r"

fun height :: "'a avl \<Rightarrow> nat" where
  "height Tip = 0"
| "height (Node l v b r) = max (height l) (height r) + 1"

text \<open>What the balance field is documented to hold, and the AVL condition.\<close>

fun avl :: "'a avl \<Rightarrow> bool" where
  "avl Tip = True"
| "avl (Node l v b r) =
     (avl l \<and> avl r \<and> b = int (height r) - int (height l) \<and> - 1 \<le> b \<and> b \<le> 1)"

lemma height_0_iff [simp]: "height t = 0 \<longleftrightarrow> t = Tip" "0 = height t \<longleftrightarrow> t = Tip"
  by (cases t; simp)+

lemma inorder_Nil_iff [simp]: "inorder t = [] \<longleftrightarrow> t = Tip" "[] = inorder t \<longleftrightarrow> t = Tip"
  by (cases t; simp)+

text \<open>What lies before and after a pointer.\<close>

fun before_frame :: "'a frame \<Rightarrow> 'a list" where
  "before_frame (Frame LEFT v b other) = []"
| "before_frame (Frame RIGHT v b other) = inorder other @ [v]"

fun after_frame :: "'a frame \<Rightarrow> 'a list" where
  "after_frame (Frame LEFT v b other) = v # inorder other"
| "after_frame (Frame RIGHT v b other) = []"

definition before :: "'a frame list \<Rightarrow> 'a list" where
  "before fs = concat (map before_frame (rev fs))"

definition after :: "'a frame list \<Rightarrow> 'a list" where
  "after fs = concat (map after_frame fs)"

lemma before_simps [simp]:
  "before [] = []" "before (f # fs) = before fs @ before_frame f"
  "before (fs @ gs) = before gs @ before fs"
  by (simp_all add: before_def)

lemma after_simps [simp]:
  "after [] = []" "after (f # fs) = after_frame f @ after fs"
  "after (fs @ gs) = after fs @ after gs"
  by (simp_all add: after_def)

lemma inorder_link [simp]: "inorder (link t f) = before_frame f @ inorder t @ after_frame f"
  by (cases "(t, f)" rule: link.cases) auto

lemma inorder_plug [simp]: "inorder (plug t fs) = before fs @ inorder t @ after fs"
  by (induction fs arbitrary: t) auto

lemma plug_append [simp]: "plug t (fs @ gs) = plug (plug t fs) gs"
  by (induction fs arbitrary: t) auto

section \<open>Rotations keep the sequence\<close>

lemma inorder_rot:
  "rot1L p = Some t \<Longrightarrow> inorder t = inorder p"
  "rot1R p = Some t \<Longrightarrow> inorder t = inorder p"
  "rot2RL p = Some t \<Longrightarrow> inorder t = inorder p"
  "rot2LR p = Some t \<Longrightarrow> inorder t = inorder p"
  by (auto simp: rot1L_def rot1R_def rot2RL_def rot2LR_def Let_def
           split: avl.splits if_splits)

lemma inorder_do_balance: "avl_tree_do_balance p = Some (c, t) \<Longrightarrow> inorder t = inorder p"
  by (auto simp: avl_tree_do_balance_def split: if_splits dest: inorder_rot)

lemma inorder_balance:
  "avl_tree_balance t fs inc = Some t' \<Longrightarrow> inorder t' = before fs @ inorder t @ after fs"
proof (induction t fs inc rule: avl_tree_balance.induct)
  case (2 t s v b other fs inc)
  show ?case
  proof (cases s)
    case LEFT
    then show ?thesis using "2.prems" "2.IH"
      by (auto simp: Let_def dest!: inorder_do_balance split: if_splits option.splits)
  next
    case RIGHT
    then show ?thesis using "2.prems" "2.IH"
      by (auto simp: Let_def dest!: inorder_do_balance split: if_splits option.splits)
  qed
qed simp

section \<open>Rebalancing\<close>

text \<open>
  A context that becomes a balanced tree when a balanced tree of height \<open>h\<close> is put into it.
\<close>

fun ctx_avl :: "'a frame list \<Rightarrow> nat \<Rightarrow> bool" where
  "ctx_avl [] h = True"
| "ctx_avl (Frame s v b other # fs) h =
     (avl other \<and> - 1 \<le> b \<and> b \<le> 1 \<and>
      b = (if s = LEFT then int (height other) - int h else int h - int (height other)) \<and>
      ctx_avl fs (max h (height other) + 1))"

lemma avl_plug: "avl t \<Longrightarrow> ctx_avl fs (height t) \<Longrightarrow> avl (plug t fs)"
proof (induction fs arbitrary: t)
  case (Cons f fs)
  show ?case
  proof (cases f)
    case (Frame s v b other)
    then show ?thesis using Cons by (cases s) (simp_all add: max.commute)
  qed
qed simp

lemma ctx_avl_plug: "avl (plug t fs) \<Longrightarrow> avl t \<and> ctx_avl fs (height t)"
proof (induction fs arbitrary: t)
  case (Cons f fs)
  show ?case
  proof (cases f)
    case (Frame s v b other)
    then show ?thesis
      using Cons.prems Cons.IH [of "link t f"] by (cases s) (simp_all add: max.commute)
  qed
qed simp

lemma avl_plug_iff: "avl (plug t fs) \<longleftrightarrow> avl t \<and> ctx_avl fs (height t)"
  using avl_plug ctx_avl_plug by blast

text \<open>
  A rotation repairs a node whose children differ by two in height. The subtree gets lower unless
  the higher child was in balance.
\<close>

lemma do_balance_left:
  assumes "avl l" "avl r" "height l = height r + 2"
  shows "\<exists>t. avl_tree_do_balance (Node l v (- 2) r) = Some (balance l \<noteq> 0, t) \<and> avl t \<and>
    height t = (if balance l \<noteq> 0 then height l else height l + 1)"
proof -
  obtain ll lv lb lr where l: "l = Node ll lv lb lr"
    using assms(3) by (cases l) auto
  show ?thesis
  proof (cases "lb = 1")
    case True
    then obtain ml mv mb mr where lr: "lr = Node ml mv mb mr"
      using assms(1) l by (cases lr) auto
    have "mb = - 1 \<or> mb = 0 \<or> mb = 1"
      using assms(1) l lr by auto
    then show ?thesis
      using assms True l lr
      by (elim disjE) (auto simp: avl_tree_do_balance_def rot2LR_def)
  next
    case False
    then show ?thesis
      using assms l by (auto simp: avl_tree_do_balance_def rot1R_def)
  qed
qed

lemma do_balance_right:
  assumes "avl l" "avl r" "height r = height l + 2"
  shows "\<exists>t. avl_tree_do_balance (Node l v 2 r) = Some (balance r \<noteq> 0, t) \<and> avl t \<and>
    height t = (if balance r \<noteq> 0 then height r else height r + 1)"
proof -
  obtain rl rv rb rr where r: "r = Node rl rv rb rr"
    using assms(3) by (cases r) auto
  show ?thesis
  proof (cases "rb < 0")
    case True
    then obtain ml mv mb mr where rl: "rl = Node ml mv mb mr"
      using assms(2) r by (cases rl) auto
    have "mb = - 1 \<or> mb = 0 \<or> mb = 1"
      using assms(2) r rl by auto
    then show ?thesis
      using assms True r rl
      by (elim disjE) (auto simp: avl_tree_do_balance_def rot2RL_def)
  next
    case False
    then show ?thesis
      using assms r by (auto simp: avl_tree_do_balance_def rot1L_def)
  qed
qed

lemma balance_increased:
  assumes "avl t" "height t = Suc h" "ctx_avl fs h" "h = 0 \<or> balance t \<noteq> 0"
  shows "\<exists>t'. avl_tree_balance t fs True = Some t' \<and> avl t'"
  using assms
proof (induction fs arbitrary: t h)
  case (Cons f fs)
  obtain s v b other where f: "f = Frame s v b other" by (cases f)
  let ?node = "\<lambda>b'. link t (Frame s v b' other)"
  have ctx: "avl other" "ctx_avl fs (max h (height other) + 1)"
    and b: "b = (if s = LEFT then int (height other) - int h else int h - int (height other))"
    and range: "b = - 1 \<or> b = 0 \<or> b = 1"
    using Cons.prems(3) by (auto simp: f)
  consider (same) "b = 0" | (lower) "height other = Suc h" | (higher) "h = Suc (height other)"
    using b range by (auto split: if_splits)
  then show ?case
  proof cases
    case same
    then have "height other = h" using b by (auto split: if_splits)
    with same show ?thesis
      using Cons.IH [of "?node (if s = LEFT then - 1 else 1)" "Suc h"] Cons.prems ctx
      by (cases s) (auto simp: f)
  next
    case lower
    with b ctx have "avl (plug (?node 0) fs)"
      using Cons.prems by (cases s) (auto intro!: avl_plug)
    with lower b show ?thesis by (cases s) (auto simp: f)
  next
    case higher
    show ?thesis
    proof (cases s)
      case LEFT
      with higher show ?thesis
        using do_balance_left [of t other v] Cons.prems b ctx by (auto simp: f intro!: avl_plug)
    next
      case RIGHT
      with higher show ?thesis
        using do_balance_right [of other t v] Cons.prems b ctx by (auto simp: f intro!: avl_plug)
    qed
  qed
qed simp

lemma balance_decreased:
  assumes "avl t" "height t = h" "ctx_avl fs (Suc h)"
  shows "\<exists>t'. avl_tree_balance t fs False = Some t' \<and> avl t'"
  using assms
proof (induction fs arbitrary: t h)
  case (Cons f fs)
  obtain s v b other where f: "f = Frame s v b other" by (cases f)
  let ?node = "\<lambda>b'. link t (Frame s v b' other)"
  have ctx: "avl other" "ctx_avl fs (max (Suc h) (height other) + 1)"
    and b: "b = (if s = LEFT then int (height other) - int (Suc h) else int (Suc h) - int (height other))"
    and range: "b = - 1 \<or> b = 0 \<or> b = 1"
    using Cons.prems(3) by (auto simp: f)
  consider (same) "height other = Suc h" | (lower) "height other = h" | (higher) "height other = h + 2"
    using b range by (auto split: if_splits)
  then show ?case
  proof cases
    case same
    with b ctx have "avl (plug (?node (if s = LEFT then 1 else - 1)) fs)"
      using Cons.prems by (cases s) (auto intro!: avl_plug)
    with same b show ?thesis by (cases s) (auto simp: f)
  next
    case lower
    with b show ?thesis
      using Cons.IH [of "?node 0" "Suc h"] Cons.prems ctx by (cases s) (auto simp: f)
  next
    case higher
    show ?thesis
    proof (cases s)
      case LEFT
      then obtain n where "avl_tree_do_balance (Node t v 2 other) = Some (balance other \<noteq> 0, n)"
        "avl n" "height n = (if balance other \<noteq> 0 then height other else height other + 1)"
        using do_balance_right [of t other v] higher Cons.prems ctx by auto
      with LEFT higher show ?thesis
        using Cons.IH [of n "h + 2"] Cons.prems b ctx by (auto simp: f intro!: avl_plug)
    next
      case RIGHT
      then obtain n where "avl_tree_do_balance (Node other v (- 2) t) = Some (balance other \<noteq> 0, n)"
        "avl n" "height n = (if balance other \<noteq> 0 then height other else height other + 1)"
        using do_balance_left [of other t v] higher Cons.prems ctx by auto
      with RIGHT higher show ?thesis
        using Cons.IH [of n "h + 2"] Cons.prems b ctx by (auto simp: f intro!: avl_plug)
    qed
  qed
qed simp

section \<open>Insertion\<close>

text \<open>A predicate that, along the sequence, once true stays true.\<close>

abbreviation upward :: "('a \<Rightarrow> bool) \<Rightarrow> 'a list \<Rightarrow> bool" where
  "upward p xs \<equiv> sorted_wrt (\<lambda>a b. p a \<longrightarrow> p b) xs"

abbreviation lows :: "('a \<Rightarrow> bool) \<Rightarrow> 'a list \<Rightarrow> 'a list" where
  "lows p xs \<equiv> takeWhile (\<lambda>v. \<not> p v) xs"

abbreviation highs :: "('a \<Rightarrow> bool) \<Rightarrow> 'a list \<Rightarrow> 'a list" where
  "highs p xs \<equiv> dropWhile (\<lambda>v. \<not> p v) xs"

lemma upward_highs: "upward p xs \<Longrightarrow> y \<in> set (highs p xs) \<Longrightarrow> p y"
  by (induction xs) (auto split: if_splits)

lemma sorted_upward:
  assumes "sorted_wrt le xs" and trans: "\<And>a b c. le a b \<Longrightarrow> le b c \<Longrightarrow> le a c"
  shows "upward (le x) xs"
  using assms(1) by (rule sorted_wrt_mono_rel [rotated]) (intro impI, erule (1) trans)

lemma sorted_insert_at:
  assumes "sorted_wrt le (as @ bs)" "\<And>y. y \<in> set as \<Longrightarrow> le y x" "\<And>y. y \<in> set bs \<Longrightarrow> le x y"
  shows "sorted_wrt le (as @ x # bs)"
  using assms(1) by (simp add: sorted_wrt_append assms(2,3))

lemma sorted_lows_highs:
  assumes "sorted_wrt le xs" "\<And>a b. le a b \<or> le b a" "\<And>a b c. le a b \<Longrightarrow> le b c \<Longrightarrow> le a c"
  shows "sorted_wrt le (lows (le x) xs @ x # highs (le x) xs)"
proof -
  have up: "upward (le x) xs"
    using assms(1) by (rule sorted_upward) (erule (1) assms(3))
  have below: "le y x" if "y \<in> set (lows (le x) xs)" for y
    using set_takeWhileD [OF that] assms(2) [of x y] by simp
  have above: "le x y" if "y \<in> set (highs (le x) xs)" for y
    using upward_highs [where p = "le x", OF up that] .
  have "sorted_wrt le (lows (le x) xs @ highs (le x) xs)"
    using assms(1) by simp
  then show ?thesis
    by (rule sorted_insert_at) (fact below, fact above)
qed

lemma upward_split_true:
  assumes "p v"
  shows "lows p (xs @ v # ys) = lows p xs" "highs p (xs @ v # ys) = highs p xs @ v # ys"
  using assms by (simp_all add: takeWhile_tail dropWhile_append3)

lemma upward_split_false:
  assumes "upward p (xs @ v # ys)" "\<not> p v"
  shows "lows p (xs @ v # ys) = xs @ v # lows p ys" "highs p (xs @ v # ys) = highs p ys"
proof -
  have "\<not> p x" if "x \<in> set xs" for x
    using assms that by (auto simp: sorted_wrt_append)
  then show "lows p (xs @ v # ys) = xs @ v # lows p ys" "highs p (xs @ v # ys) = highs p ys"
    using assms(2) by (simp_all add: takeWhile_append2 dropWhile_append2)
qed

lemma insert_path_plug: "plug Tip (insert_path cmp x t fs) = plug t fs"
  by (induction t arbitrary: fs) auto

lemma insert_path_before_after:
  "upward (cmp x) (inorder t) \<Longrightarrow>
   before (insert_path cmp x t fs) = before fs @ lows (cmp x) (inorder t) \<and>
   after (insert_path cmp x t fs) = highs (cmp x) (inorder t) @ after fs"
proof (induction t arbitrary: fs)
  case (Node l v b r)
  note ordered = Node.prems [unfolded inorder.simps]
  have "upward (cmp x) (inorder l)" "upward (cmp x) (inorder r)"
    using ordered by (simp_all only: sorted_wrt_append sorted_wrt.simps)
  note IH = Node.IH(1) [OF this(1)] Node.IH(2) [OF this(2)]
  show ?case
  proof (cases "cmp x v")
    case True
    then show ?thesis by (simp add: IH upward_split_true)
  next
    case False
    then show ?thesis by (simp add: IH upward_split_false [OF ordered])
  qed
qed simp

lemma insert_avl:
  assumes "avl t"
  shows "\<exists>t'. avl_tree_insert cmp x t = Some t' \<and> avl t'"
proof -
  have "ctx_avl (insert_path cmp x t []) 0"
    using assms avl_plug_iff [of Tip "insert_path cmp x t []"] by (simp add: insert_path_plug)
  then show ?thesis
    unfolding avl_tree_insert_def by (intro balance_increased [where h = 0]) simp_all
qed

lemma insert_inorder:
  assumes "avl_tree_insert cmp x t = Some t'" "upward (cmp x) (inorder t)"
  shows "inorder t' = lows (cmp x) (inorder t) @ x # highs (cmp x) (inorder t)"
  using inorder_balance [OF assms(1) [unfolded avl_tree_insert_def]]
    insert_path_before_after [of cmp x t "[]", OF assms(2)] by simp

section \<open>Pointers\<close>

abbreviation tree_of :: "'a avl \<times> 'a frame list \<Rightarrow> 'a avl" where
  "tree_of ptr \<equiv> plug (fst ptr) (snd ptr)"

abbreviation node_of :: "'a avl \<times> 'a frame list \<Rightarrow> 'a" where
  "node_of ptr \<equiv> val (fst ptr)"

text \<open>The place of a pointer's node in the sequence.\<close>

definition index :: "'a avl \<times> 'a frame list \<Rightarrow> nat" where
  "index ptr = length (before (snd ptr)) + length (inorder (left (fst ptr)))"

lemma index_less: "fst ptr \<noteq> Tip \<Longrightarrow> index ptr < length (inorder (tree_of ptr))"
  by (cases "fst ptr") (auto simp: index_def)

lemma nth_index: "fst ptr \<noteq> Tip \<Longrightarrow> inorder (tree_of ptr) ! index ptr = node_of ptr"
  by (cases "fst ptr") (auto simp: index_def nth_append)

lemma index_seq:
  assumes "fst ptr = Node l v b r"
  shows "take (index ptr) (inorder (tree_of ptr)) = before (snd ptr) @ inorder l"
    "drop (Suc (index ptr)) (inorder (tree_of ptr)) = inorder r @ after (snd ptr)"
  using assms by (simp_all add: index_def)

lemma leftmost_append: "leftmost t (gs @ fs) = apsnd (\<lambda>p. p @ fs) (leftmost t gs)"
  by (induction t gs rule: leftmost.induct) auto

lemma leftmost_plug: "tree_of (leftmost t fs) = plug t fs"
  by (induction t fs rule: leftmost.induct) auto

lemma leftmost_before: "before (snd (leftmost t fs)) = before fs"
  by (induction t fs rule: leftmost.induct) auto

lemma leftmost_shape: "t \<noteq> Tip \<Longrightarrow> \<exists>v b r. fst (leftmost t fs) = Node Tip v b r"
  by (induction t fs rule: leftmost.induct) auto

lemma rightmost_plug: "tree_of (rightmost t fs) = plug t fs"
  by (induction t fs rule: rightmost.induct) auto

lemma rightmost_after: "after (snd (rightmost t fs)) = after fs"
  by (induction t fs rule: rightmost.induct) auto

lemma rightmost_shape: "t \<noteq> Tip \<Longrightarrow> \<exists>v b l. fst (rightmost t fs) = Node l v b Tip"
  by (induction t fs rule: rightmost.induct) auto

section \<open>Deletion\<close>

lemma avl_height_1: "avl t \<Longrightarrow> height t \<le> 1 \<Longrightarrow> t \<noteq> Tip \<Longrightarrow> \<exists>v. t = Node Tip v 0 Tip"
  by (cases t) auto

lemma delete_leaf_path:
  assumes "avl (plug (Node l v b r) fs)" "l = Tip \<or> r = Tip"
  shows "\<exists>t'. avl_tree_delete (Node l v b r, fs) = Some t' \<and> avl t' \<and>
    inorder t' = before fs @ inorder l @ inorder r @ after fs"
proof -
  let ?c = "if l \<noteq> Tip then l else r"
  have eq: "avl_tree_delete (Node l v b r, fs) = avl_tree_balance ?c fs False"
    using assms(2) by (auto simp: avl_tree_delete_def)
  have "avl ?c" "ctx_avl fs (Suc (height ?c))"
    using assms by (auto simp: avl_plug_iff)
  then obtain t' where t': "avl_tree_balance ?c fs False = Some t'" "avl t'"
    using balance_decreased by blast
  moreover have "inorder ?c = inorder l @ inorder r"
    using assms(2) by auto
  ultimately show ?thesis
    using inorder_balance [OF t'(1)] by (simp add: eq)
qed

lemma delete_swap_path:
  assumes "avl (plug (Node l v b r) fs)" "l \<noteq> Tip" "r \<noteq> Tip"
  shows "\<exists>t'. avl_tree_delete (Node l v b r, fs) = Some t' \<and> avl t' \<and>
    inorder t' = before fs @ inorder l @ inorder r @ after fs"
proof -
  obtain nv nb nr path where next_node: "leftmost r [] = (Node Tip nv nb nr, path)"
    using leftmost_shape [OF assms(3), of "[]"] by (metis prod.collapse)
  then have r: "r = plug (Node Tip nv nb nr) path" "before path = []"
    using leftmost_plug [of r "[]"] leftmost_before [of r "[]"] by simp_all
  let ?fs = "path @ Frame RIGHT nv b l # fs"
  have "avl (plug (Node l nv b r) fs)"
    using assms(1) by (simp add: avl_plug_iff)
  then have "avl (plug (Node Tip nv nb nr) ?fs)"
    by (simp add: r(1))
  then have nr: "avl nr" "nb = int (height nr)" "nb \<le> 1" "ctx_avl ?fs (Suc (height nr))"
    by (simp_all add: avl_plug_iff del: plug_append)
  have "(nb = 0 \<or> nb = 1) \<and> (nr \<noteq> Tip \<longrightarrow> balance nr = 0 \<and> left nr = Tip \<and> right nr = Tip)"
    using nr avl_height_1 [of nr] by (cases "nr = Tip") auto
  then have eq: "avl_tree_delete (Node l v b r, fs) = avl_tree_balance nr ?fs False"
    using assms(2,3) by (auto simp: avl_tree_delete_def next_node)
  obtain t' where t': "avl_tree_balance nr ?fs False = Some t'" "avl t'"
    using balance_decreased [OF nr(1) refl nr(4)] by blast
  moreover have "inorder r = nv # inorder nr @ after path"
    by (simp add: r)
  ultimately show ?thesis
    using inorder_balance [OF t'(1)] r(2) by (simp add: eq)
qed

lemma delete_correct:
  assumes "avl (tree_of ptr)" "fst ptr \<noteq> Tip"
  shows "\<exists>t'. avl_tree_delete ptr = Some t' \<and> avl t' \<and>
    inorder t' = take (index ptr) (inorder (tree_of ptr)) @ drop (Suc (index ptr)) (inorder (tree_of ptr))"
proof -
  obtain l v b r fs where ptr: "ptr = (Node l v b r, fs)"
    using assms(2) by (metis avl.exhaust prod.collapse)
  show ?thesis
    using delete_leaf_path [of l v b r fs] delete_swap_path [of l v b r fs] assms(1)
    by (cases "l = Tip \<or> r = Tip") (auto simp: ptr index_def)
qed

section \<open>Walking\<close>

lemma side_neq [simp]: "s \<noteq> LEFT \<longleftrightarrow> s = RIGHT" "s \<noteq> RIGHT \<longleftrightarrow> s = LEFT"
  by (cases s; simp)+

lemma climb_RIGHT:
  "case climb RIGHT t fs of
     None \<Rightarrow> after fs = []
   | Some q \<Rightarrow> fst q \<noteq> Tip \<and> tree_of q = plug t fs \<and>
       before (snd q) @ inorder (left (fst q)) = before fs @ inorder t"
  by (induction RIGHT t fs rule: climb.induct) (auto split: option.splits side.splits)

lemma climb_LEFT:
  "case climb LEFT t fs of
     None \<Rightarrow> before fs = []
   | Some q \<Rightarrow> fst q \<noteq> Tip \<and> tree_of q = plug t fs \<and>
       inorder (right (fst q)) @ after (snd q) = inorder t @ after fs"
  by (induction LEFT t fs rule: climb.induct) (auto split: option.splits side.splits)

lemma next_index:
  assumes "fst ptr \<noteq> Tip"
  shows "case avl_tree_next ptr of
      None \<Rightarrow> Suc (index ptr) = length (inorder (tree_of ptr))
    | Some q \<Rightarrow> fst q \<noteq> Tip \<and> tree_of q = tree_of ptr \<and> index q = Suc (index ptr)"
proof -
  obtain l v b r fs where ptr: "ptr = (Node l v b r, fs)"
    using assms by (metis avl.exhaust prod.collapse)
  show ?thesis
  proof (cases "r = Tip")
    case True
    with ptr show ?thesis
      using climb_RIGHT [where t = "Node l v b r" and fs = fs]
      by (auto simp: avl_tree_next_def index_def split: option.splits dest: arg_cong [of _ _ length])
  next
    case False
    let ?q = "leftmost r (Frame RIGHT v b l # fs)"
    have "avl_tree_next ptr = Some ?q" "tree_of ?q = tree_of ptr"
      using False by (simp_all add: ptr avl_tree_next_def leftmost_plug)
    moreover have "before (snd ?q) = before fs @ inorder l @ [v]"
      by (simp add: leftmost_before)
    ultimately show ?thesis
      using leftmost_shape [OF False, of "Frame RIGHT v b l # fs"] by (auto simp: ptr index_def)
  qed
qed

lemma index_from_end:
  "fst ptr \<noteq> Tip \<Longrightarrow> length (inorder (tree_of ptr)) =
     Suc (index ptr) + length (inorder (right (fst ptr)) @ after (snd ptr))"
  by (cases "fst ptr") (auto simp: index_def)

lemma prev_index:
  assumes "fst ptr \<noteq> Tip"
  shows "case avl_tree_prev ptr of
      None \<Rightarrow> index ptr = 0
    | Some q \<Rightarrow> fst q \<noteq> Tip \<and> tree_of q = tree_of ptr \<and> index ptr = Suc (index q)"
proof -
  obtain l v b r fs where ptr: "ptr = (Node l v b r, fs)"
    using assms by (metis avl.exhaust prod.collapse)
  show ?thesis
  proof (cases "l = Tip")
    case True
    then have eq: "avl_tree_prev ptr = climb LEFT (Node l v b r) fs"
      by (simp add: ptr avl_tree_prev_def)
    show ?thesis
    proof (cases "climb LEFT (Node l v b r) fs")
      case None
      then have "avl_tree_prev ptr = None" "index ptr = 0"
        using climb_LEFT [where t = "Node l v b r" and fs = fs] True eq
        by (simp_all add: ptr index_def)
      then show ?thesis by simp
    next
      case (Some q)
      then have q: "fst q \<noteq> Tip" "tree_of q = tree_of ptr"
        and "inorder (right (fst q)) @ after (snd q) = inorder l @ v # inorder r @ after fs"
        using climb_LEFT [where t = "Node l v b r" and fs = fs] by (simp_all add: ptr)
      then have "length (inorder (right (fst q)) @ after (snd q)) = Suc (length (inorder r @ after fs))"
        using True by simp
      then show ?thesis
        using index_from_end [OF assms] index_from_end [OF q(1)] q Some eq by (simp add: ptr)
    qed
  next
    case False
    let ?q = "rightmost l (Frame LEFT v b r # fs)"
    have q: "avl_tree_prev ptr = Some ?q" "tree_of ?q = tree_of ptr" "fst ?q \<noteq> Tip"
      "right (fst ?q) = Tip" "after (snd ?q) = v # inorder r @ after fs"
      using False rightmost_shape [OF False, of "Frame LEFT v b r # fs"]
      by (auto simp: ptr avl_tree_prev_def rightmost_plug rightmost_after)
    then show ?thesis
      using index_from_end [OF assms] index_from_end [OF q(3)] by (simp add: ptr)
  qed
qed

section \<open>Searching\<close>

lemma lower_bound_loop_index:
  assumes "upward (cmp x) (inorder t)"
  shows "if highs (cmp x) (inorder t) = [] then lower_bound_loop cmp x ret t fs = ret
    else \<exists>q. lower_bound_loop cmp x ret t fs = Some q \<and> fst q \<noteq> Tip \<and> tree_of q = plug t fs \<and>
      index q = length (before fs) + length (lows (cmp x) (inorder t))"
  using assms
proof (induction t arbitrary: ret fs)
  case (Node l v b r)
  note ordered = Node.prems [unfolded inorder.simps]
  have up: "upward (cmp x) (inorder l)" "upward (cmp x) (inorder r)"
    using ordered by (simp_all only: sorted_wrt_append sorted_wrt.simps)
  show ?case
  proof (cases "cmp x v")
    case True
    note IH = Node.IH(1) [OF up(1), of "Some (Node l v b r, fs)" "Frame LEFT v b r # fs"]
    show ?thesis
    proof (cases "highs (cmp x) (inorder l) = []")
      case empty: True
      then have "lows (cmp x) (inorder l) = inorder l"
        by (metis append_Nil2 takeWhile_dropWhile_id)
      then show ?thesis
        using IH empty True by (auto simp: upward_split_true index_def)
    next
      case False
      then show ?thesis
        using IH [unfolded if_not_P [OF False]] True by (simp add: upward_split_true)
    qed
  next
    case False
    then show ?thesis
      using Node.IH(2) [OF up(2), of ret "Frame RIGHT v b l # fs"]
      by (auto simp: upward_split_false [OF ordered] split: if_splits)
  qed
qed simp

lemma lower_bound_index:
  assumes "upward (cmp x) (inorder t)"
  shows "case avl_tree_lower_bound_fn cmp x t of
      None \<Rightarrow> highs (cmp x) (inorder t) = []
    | Some q \<Rightarrow> fst q \<noteq> Tip \<and> tree_of q = t \<and> index q = length (lows (cmp x) (inorder t)) \<and>
        highs (cmp x) (inorder t) \<noteq> []"
  using lower_bound_loop_index [of cmp x t None "[]", OF assms]
  by (auto simp: avl_tree_lower_bound_fn_def split: if_splits)

lemma find_sound:
  "avl_tree_find_fn_to cmp x t fs = Some q \<Longrightarrow>
   fst q \<noteq> Tip \<and> tree_of q = plug t fs \<and> cmp x (node_of q) \<and> cmp (node_of q) x"
  by (induction cmp x t fs rule: avl_tree_find_fn_to.induct) (auto split: if_splits)

lemma find_complete:
  assumes "\<And>a b c. cmp a b \<Longrightarrow> cmp b c \<Longrightarrow> cmp a c" "sorted_wrt cmp (inorder t)"
    "v \<in> set (inorder t)" "cmp x v" "cmp v x"
  shows "avl_tree_find_fn_to cmp x t fs \<noteq> None"
  using assms(2-)
proof (induction t arbitrary: fs)
  case (Node l w b r)
  show ?case
  proof (cases "v = w")
    case False
    then consider "v \<in> set (inorder l)" | "v \<in> set (inorder r)"
      using Node.prems(2) by auto
    then show ?thesis
    proof cases
      case 1
      then have "cmp v w" "sorted_wrt cmp (inorder l)"
        using Node.prems(1) by (simp_all add: sorted_wrt_append)
      then show ?thesis
        using assms(1) [OF Node.prems(3)] Node.IH(1) [OF _ 1 Node.prems(3,4)] by simp
    next
      case 2
      then have "cmp w v" "sorted_wrt cmp (inorder r)"
        using Node.prems(1) by (simp_all add: sorted_wrt_append)
      then show ?thesis
        using assms(1) [OF _ Node.prems(4)] Node.IH(2) [OF _ 2 Node.prems(3,4)] by simp
    qed
  qed (use Node.prems in auto)
qed simp

lemma swap_node_correct:
  assumes "fst ptr \<noteq> Tip" "cmp (node_of ptr) new" "cmp new (node_of ptr)"
  shows "\<exists>t'. avl_tree_swap_node cmp ptr new = Some t' \<and> (avl (tree_of ptr) \<longrightarrow> avl t') \<and>
    inorder t' = (inorder (tree_of ptr))[index ptr := new]"
proof -
  obtain l v b r fs where ptr: "ptr = (Node l v b r, fs)"
    using assms(1) by (metis avl.exhaust prod.collapse)
  then show ?thesis
    using assms by (auto simp: avl_tree_swap_node_def avl_plug_iff index_def list_update_append)
qed

section \<open>The debug check\<close>

lemma is_balanced_size_height: "snd (avl_tree_is_balanced_size t) = height t"
  by (induction t) (auto simp: Let_def split: prod.splits)

lemma is_balanced_size_avl: "fst (avl_tree_is_balanced_size t) = avl t"
proof (induction t)
  case (Node l v b r)
  then show ?case
    using is_balanced_size_height [of l] is_balanced_size_height [of r]
    by (auto simp: Let_def split: prod.splits)
qed simp

text \<open>The height is logarithmic in the number of nodes.\<close>

lemma avl_size_lower: "avl t \<Longrightarrow> 2 ^ (height t div 2) \<le> length (inorder t) + 1"
proof (induction t)
  case (Node l v b r)
  let ?lo = "min (height l) (height r)" and ?hi = "max (height l) (height r)"
  have IH: "2 ^ (height l div 2) \<le> length (inorder l) + 1" "2 ^ (height r div 2) \<le> length (inorder r) + 1"
    using Node by auto
  have "?hi \<le> Suc ?lo" using Node.prems by (simp add: min_def max_def; linarith)
  then have "height (Node l v b r) div 2 \<le> Suc (?lo div 2)"
    using div_le_mono [of "height (Node l v b r)" "?lo + 2" 2] by simp
  then have "(2::nat) ^ (height (Node l v b r) div 2) \<le> 2 * 2 ^ (?lo div 2)"
    using power_increasing [of "height (Node l v b r) div 2" "Suc (?lo div 2)" "2::nat"] by simp
  moreover have "(2::nat) ^ (?lo div 2) \<le> 2 ^ (height l div 2)" "(2::nat) ^ (?lo div 2) \<le> 2 ^ (height r div 2)"
    by (auto intro!: power_increasing div_le_mono)
  ultimately have "(2::nat) ^ (height (Node l v b r) div 2) \<le> 2 ^ (height l div 2) + 2 ^ (height r div 2)"
    by linarith
  then show ?case using IH by simp
qed simp

section \<open>The interface of the trees\<close>

text \<open>\<open>points_at t p i\<close>: the pointer \<open>p\<close> points to the node number \<open>i\<close> of \<open>t\<close>.\<close>

definition points_at :: "'a avl \<Rightarrow> 'a avl \<times> 'a frame list \<Rightarrow> nat \<Rightarrow> bool" where
  "points_at t p i \<longleftrightarrow> fst p \<noteq> Tip \<and> tree_of p = t \<and> index p = i"

text \<open>The items a loop visits that starts at \<open>p\<close> and follows \<open>nxt\<close> at most \<open>n\<close> times.\<close>

fun walk :: "('p \<Rightarrow> 'p option) \<Rightarrow> ('p \<Rightarrow> 'a) \<Rightarrow> nat \<Rightarrow> 'p option \<Rightarrow> 'a list" where
  "walk nxt item n None = []"
| "walk nxt item 0 (Some p) = []"
| "walk nxt item (Suc n) (Some p) = item p # walk nxt item n (nxt p)"

locale ordered_tree =
  fixes wf :: "'t \<Rightarrow> bool"
    and seq :: "'t \<Rightarrow> 'a list"
    and le :: "'a \<Rightarrow> 'a \<Rightarrow> bool"
    and ins :: "'a \<Rightarrow> 't \<Rightarrow> 't option"
    and del :: "'p \<Rightarrow> 't option"
    and lower :: "('b \<Rightarrow> 'a \<Rightarrow> bool) \<Rightarrow> 'b \<Rightarrow> 't \<Rightarrow> 'p option"
    and nxt :: "'p \<Rightarrow> 'p option"
    and at :: "'t \<Rightarrow> 'p \<Rightarrow> nat \<Rightarrow> bool"
    and item :: "'p \<Rightarrow> 'a"
  assumes at_item: "at t p i \<Longrightarrow> i < length (seq t) \<and> item p = seq t ! i"
    and ins_wf: "wf t \<Longrightarrow> \<exists>t'. ins x t = Some t' \<and> wf t'"
    and ins_seq: "ins x t = Some t' \<Longrightarrow> upward (le x) (seq t) \<Longrightarrow>
      seq t' = lows (le x) (seq t) @ x # highs (le x) (seq t)"
    and del_wf: "wf t \<Longrightarrow> at t p i \<Longrightarrow> \<exists>t'. del p = Some t' \<and> wf t'"
    and del_seq: "wf t \<Longrightarrow> at t p i \<Longrightarrow> del p = Some t' \<Longrightarrow>
      seq t' = take i (seq t) @ drop (Suc i) (seq t)"
    and lower_at: "upward (c k) (seq t) \<Longrightarrow>
      (case lower c k t of
         None \<Rightarrow> highs (c k) (seq t) = []
       | Some p \<Rightarrow> at t p (length (lows (c k) (seq t))))"
    and nxt_at: "at t p i \<Longrightarrow>
      (case nxt p of None \<Rightarrow> Suc i = length (seq t) | Some q \<Rightarrow> at t q (Suc i))"
begin

lemma walk_at: "at t p i \<Longrightarrow> length (seq t) \<le> n + i \<Longrightarrow> walk nxt item n (Some p) = drop i (seq t)"
proof (induction n arbitrary: p i)
  case 0
  then show ?case using at_item [of t p i] by simp
next
  case (Suc n)
  then have p: "i < length (seq t)" "item p = seq t ! i"
    using at_item by blast+
  show ?case
  proof (cases "nxt p")
    case None
    then show ?thesis
      using nxt_at [OF Suc.prems(1)] p by (simp add: Cons_nth_drop_Suc [symmetric])
  next
    case (Some q)
    then have "at t q (Suc i)"
      using nxt_at [OF Suc.prems(1)] by simp
    then show ?thesis
      using Suc.IH [of q "Suc i"] Suc.prems(2) p Some by (simp add: Cons_nth_drop_Suc)
  qed
qed

text \<open>A loop from the lower bound visits what lies above it, in order.\<close>

lemma walk_lower:
  assumes "upward (c k) (seq t)"
  shows "walk nxt item (length (seq t)) (lower c k t) = highs (c k) (seq t)"
proof (cases "lower c k t")
  case None
  then have "highs (c k) (seq t) = []" using lower_at [of c k t, OF assms] by simp
  with None show ?thesis by (simp only: walk.simps)
next
  case (Some p)
  then show ?thesis
    using lower_at [of c k t, OF assms] walk_at [of t p] by (simp add: dropWhile_eq_drop)
qed

text \<open>An insertion keeps a sequence sorted.\<close>

lemma ins_sorted:
  assumes "ins x t = Some t'" "sorted_wrt le (seq t)" "\<And>a b. le a b \<or> le b a"
    and "\<And>a b c. le a b \<Longrightarrow> le b c \<Longrightarrow> le a c"
  shows "sorted_wrt le (seq t')"
proof -
  have "upward (le x) (seq t)"
    using assms(2) by (rule sorted_upward) (erule (1) assms(4))
  then have eq: "seq t' = lows (le x) (seq t) @ x # highs (le x) (seq t)"
    by (rule ins_seq [OF assms(1)])
  show ?thesis
    unfolding eq using assms(2,3) by (rule sorted_lows_highs) (erule (1) assms(4))
qed

end

interpretation avl_seq: ordered_tree avl inorder cmp "avl_tree_insert cmp" avl_tree_delete
  avl_tree_lower_bound_fn avl_tree_next points_at node_of
  for cmp :: "'a \<Rightarrow> 'a \<Rightarrow> bool"
proof
  fix t t' :: "'a avl" and p :: "'a avl \<times> 'a frame list" and i and c :: "'b \<Rightarrow> 'a \<Rightarrow> bool" and k and x
  show "i < length (inorder t) \<and> node_of p = inorder t ! i" if "points_at t p i"
    using that index_less nth_index by (metis points_at_def)
  show "\<exists>t'. avl_tree_insert cmp x t = Some t' \<and> avl t'" if "avl t"
    using that by (rule insert_avl)
  show "inorder t' = lows (cmp x) (inorder t) @ x # highs (cmp x) (inorder t)"
    if "avl_tree_insert cmp x t = Some t'" "upward (cmp x) (inorder t)"
    using that by (rule insert_inorder)
  show "\<exists>t'. avl_tree_delete p = Some t' \<and> avl t'" if "avl t" "points_at t p i"
    using that delete_correct [of p] by (auto simp: points_at_def)
  show "inorder t' = take i (inorder t) @ drop (Suc i) (inorder t)"
    if "avl t" "points_at t p i" "avl_tree_delete p = Some t'"
    using that delete_correct [of p] by (auto simp: points_at_def)
  show "case avl_tree_lower_bound_fn c k t of None \<Rightarrow> highs (c k) (inorder t) = []
      | Some p \<Rightarrow> points_at t p (length (lows (c k) (inorder t)))"
    if "upward (c k) (inorder t)"
    using lower_bound_index [of c k t, OF that] by (auto simp: points_at_def split: option.splits)
  show "case avl_tree_next p of None \<Rightarrow> Suc i = length (inorder t) | Some q \<Rightarrow> points_at t q (Suc i)"
    if "points_at t p i"
    using that next_index [of p] by (auto simp: points_at_def split: option.splits)
qed

section \<open>The trees a program builds\<close>

inductive avl_built :: "('a \<Rightarrow> 'a \<Rightarrow> bool) \<Rightarrow> 'a avl \<Rightarrow> bool" for cmp where
  empty: "avl_built cmp Tip"
| insert: "avl_built cmp t \<Longrightarrow> avl_tree_insert cmp x t = Some t' \<Longrightarrow> avl_built cmp t'"
| delete: "avl_built cmp t \<Longrightarrow> points_at t p i \<Longrightarrow> avl_tree_delete p = Some t' \<Longrightarrow> avl_built cmp t'"
| swap: "avl_built cmp t \<Longrightarrow> points_at t p i \<Longrightarrow> avl_tree_swap_node cmp p x = Some t' \<Longrightarrow>
    avl_built cmp t'"

lemma sorted_split_at:
  assumes "sorted_wrt le xs" "i < length xs"
  shows "sorted_wrt le (take i xs @ xs ! i # drop (Suc i) xs)"
  using assms(1) id_take_nth_drop [OF assms(2)] by simp

lemma sorted_delete_at:
  assumes "sorted_wrt le xs" "i < length xs"
  shows "sorted_wrt le (take i xs @ drop (Suc i) xs)"
  using sorted_split_at [OF assms] by (simp add: sorted_wrt_append)

lemma sorted_replace_at:
  assumes "sorted_wrt le xs" "i < length xs" "le (xs ! i) y" "le y (xs ! i)"
    and trans: "\<And>a b c. le a b \<Longrightarrow> le b c \<Longrightarrow> le a c"
  shows "sorted_wrt le (xs[i := y])"
  using sorted_split_at [OF assms(1,2)] trans [OF _ assms(3)] trans [OF assms(4)]
  by (simp add: upd_conv_take_nth_drop [OF assms(2)] sorted_wrt_append)

lemma avl_built_invariant:
  assumes "avl_built cmp t" "\<And>a b. cmp a b \<or> cmp b a"
    and trans: "\<And>a b c. cmp a b \<Longrightarrow> cmp b c \<Longrightarrow> cmp a c"
  shows "avl t \<and> sorted_wrt cmp (inorder t)"
  using assms(1)
proof induction
  case (insert t x t')
  then show ?case
    using avl_seq.ins_wf [of t cmp x] avl_seq.ins_sorted [OF insert.hyps(2) _ assms(2)] trans by auto
next
  case (delete t p i t')
  then have "avl t'" "inorder t' = take i (inorder t) @ drop (Suc i) (inorder t)"
    using avl_seq.del_wf [of t p i] avl_seq.del_seq [of t p i t'] by auto
  then show ?case
    using delete sorted_delete_at avl_seq.at_item by metis
next
  case (swap t p i x t')
  then have p: "fst p \<noteq> Tip" "cmp (node_of p) x" "cmp x (node_of p)" "tree_of p = t" "index p = i"
    by (auto simp: avl_tree_swap_node_def points_at_def split: avl.splits prod.splits if_splits)
  then have t': "avl t'" "inorder t' = (inorder t)[i := x]"
    using swap_node_correct [OF p(1-3)] swap by auto
  have "sorted_wrt cmp ((inorder t)[i := x])"
    using swap.IH avl_seq.at_item [OF swap.hyps(2)] p(2,3) trans
    by (intro sorted_replace_at) auto
  with t' show ?case by simp
qed simp

section \<open>The AVL trees: properties\<close>

text \<open>
  C10: Inserting into a balanced, sorted tree never fails an assertion and gives a tree that the
  debug check accepts, that is sorted again, and whose sequence is the old one with the new node
  put before the first node that is not smaller; so among equal nodes the newer is on the left.
\<close>

theorem avl_insert_correct:
  assumes "debug_avl_tree_is_balanced t" "sorted_wrt cmp (inorder t)"
    and "\<And>a b. cmp a b \<or> cmp b a" "\<And>a b c. cmp a b \<Longrightarrow> cmp b c \<Longrightarrow> cmp a c"
  shows "\<exists>t'. avl_tree_insert cmp x t = Some t' \<and> debug_avl_tree_is_balanced t' \<and>
    sorted_wrt cmp (inorder t') \<and>
    inorder t' = takeWhile (\<lambda>v. \<not> cmp x v) (inorder t) @ x # dropWhile (\<lambda>v. \<not> cmp x v) (inorder t)"
proof -
  obtain t' where t': "avl_tree_insert cmp x t = Some t'" "avl t'"
    using insert_avl [of t cmp x] assms(1) by (auto simp: debug_avl_tree_is_balanced_def is_balanced_size_avl)
  have "upward (cmp x) (inorder t)"
    using assms(2) by (rule sorted_upward) (erule (1) assms(4))
  note seq = insert_inorder [OF t'(1) this]
  have "sorted_wrt cmp (inorder t')"
    unfolding seq using assms(2,3) by (rule sorted_lows_highs) (erule (1) assms(4))
  with t' seq show ?thesis
    by (auto simp: debug_avl_tree_is_balanced_def is_balanced_size_avl)
qed

definition sample_tree :: "nat avl" where
  "sample_tree = Node Tip 1 1 (Node Tip 2 0 Tip)"

theorem avl_insert_correct_witness:
  "\<exists>t'. avl_tree_insert (\<le>) 3 sample_tree = Some t' \<and> debug_avl_tree_is_balanced t' \<and>
     inorder t' = [1, 2, 3]"
  using avl_insert_correct [of sample_tree "(\<le>)" 3]
  by (auto simp: sample_tree_def debug_avl_tree_is_balanced_def linear)

text \<open>
  C11: Deleting the node a pointer designates, in a balanced tree, never fails an assertion (neither
  those of the rotations nor those about the successor), gives a tree that the debug check accepts,
  and takes exactly that node out of the sequence.
\<close>

theorem avl_delete_correct:
  assumes "debug_avl_tree_is_balanced t" "points_at t ptr i"
  shows "\<exists>t'. avl_tree_delete ptr = Some t' \<and> debug_avl_tree_is_balanced t' \<and>
    inorder t' = take i (inorder t) @ drop (Suc i) (inorder t)"
  using delete_correct [of ptr] assms
  by (auto simp: debug_avl_tree_is_balanced_def is_balanced_size_avl points_at_def)

theorem avl_delete_correct_witness:
  "\<exists>t'. avl_tree_delete (Node (Node Tip 1 0 Tip) 2 0 (Node Tip 3 0 Tip), []) = Some t' \<and>
     debug_avl_tree_is_balanced t' \<and> inorder t' = [1, 3 :: nat]"
  using avl_delete_correct [of "Node (Node Tip 1 0 Tip) 2 0 (Node Tip (3 :: nat) 0 Tip)"
      "(Node (Node Tip 1 0 Tip) 2 0 (Node Tip 3 0 Tip), [])" 1]
  by (simp add: debug_avl_tree_is_balanced_def points_at_def index_def)

text \<open>
  C12: A loop that starts at the lower bound of a key and follows \<open>avl_tree_next\<close> visits, in
  order and without omission, exactly the nodes from the first one the key does not exceed.
\<close>

theorem avl_iteration_complete:
  assumes "sorted_wrt (\<lambda>a b. cmp k a \<longrightarrow> cmp k b) (inorder t)"
  shows "walk avl_tree_next node_of (length (inorder t)) (avl_tree_lower_bound_fn cmp k t) =
    dropWhile (\<lambda>v. \<not> cmp k v) (inorder t)"
  using assms by (rule avl_seq.walk_lower)

theorem avl_iteration_complete_witness:
  "walk avl_tree_next node_of 2 (avl_tree_lower_bound_fn (\<lambda>k v. k < v) 1 sample_tree) = [2]"
  using avl_iteration_complete [of "\<lambda>k v. k < v" 1 sample_tree]
  by (simp add: sample_tree_def numeral_2_eq_2)

text \<open>
  C13: Every tree that insertions, deletions and node swaps build from the empty one is sorted and
  passes the debug check, and its height is logarithmic in the number of its nodes.
\<close>

theorem avl_built_balanced:
  assumes "avl_built cmp t" "\<And>a b. cmp a b \<or> cmp b a" "\<And>a b c. cmp a b \<Longrightarrow> cmp b c \<Longrightarrow> cmp a c"
  shows "debug_avl_tree_is_balanced t \<and> sorted_wrt cmp (inorder t) \<and>
    2 ^ (height t div 2) \<le> length (inorder t) + 1"
  using avl_built_invariant [OF assms] avl_size_lower [of t]
  by (simp add: debug_avl_tree_is_balanced_def is_balanced_size_avl)

theorem avl_built_balanced_witness:
  "avl_built (\<le>) (Node Tip (5 :: nat) 0 Tip) \<and> debug_avl_tree_is_balanced (Node Tip (5 :: nat) 0 Tip)"
proof -
  have built: "avl_built (\<le>) (Node Tip (5 :: nat) 0 Tip)"
    by (rule avl_built.insert [OF avl_built.empty, of _ 5]) (simp add: avl_tree_insert_def)
  then show ?thesis
    using avl_built_balanced [OF built] by (simp add: linear)
qed

text \<open>
  C14: \<open>avl_tree_find\<close> returns a node that compares equal to the argument whenever the tree has one,
  and returns no other node.
\<close>

theorem avl_find_correct:
  assumes "\<And>a b c. cmp a b \<Longrightarrow> cmp b c \<Longrightarrow> cmp a c" "sorted_wrt cmp (inorder t)"
  shows "case avl_tree_find_fn_to cmp x t [] of
      None \<Rightarrow> \<not> (\<exists>v \<in> set (inorder t). cmp x v \<and> cmp v x)
    | Some q \<Rightarrow> tree_of q = t \<and> node_of q \<in> set (inorder t) \<and> cmp x (node_of q) \<and> cmp (node_of q) x"
proof (cases "avl_tree_find_fn_to cmp x t []")
  case None
  have "avl_tree_find_fn_to cmp x t [] \<noteq> None"
    if "v \<in> set (inorder t)" "cmp x v" "cmp v x" for v
    by (rule find_complete [OF _ assms(2) that]) (erule (1) assms(1))
  with None show ?thesis by auto
next
  case (Some q)
  then show ?thesis
    using find_sound [OF Some] index_less [of q] nth_index [of q] by (auto dest: nth_mem)
qed

theorem avl_find_correct_witness:
  "case avl_tree_find_fn_to (\<le>) 2 sample_tree [] of
     None \<Rightarrow> False | Some q \<Rightarrow> node_of q = 2"
  using avl_find_correct [of "(\<le>)" sample_tree 2]
  by (simp add: sample_tree_def)

end
