(* ===== verification/Vma.thy ===== *)
theory Vma
  imports Prelude
begin

text \<open>
  Bookkeeping of the address space: \<^verbatim>\<open>libos/src/bookkeep/libos_vma.c\<close>. The tree of areas
  is the list of its nodes in order (\<open>Vma_Tree\<close> relates the list operations to the AVL tree);
  a pointer to a node is the begin address of its area. Handles are numbers, what the code reads
  of a handle is the argument of type \<open>handle_info\<close>. Allocation outcomes are the explicit argument
  of type \<open>mem\<close>. The field \<open>asserts_hold\<close> becomes false when a reference is put that no area holds or
  one of these assertions of the C code fails: those on sizes and counts, on the flags of a temporary
  area, and \<open>assert(next)\<close> of \<open>_vma_bkeep_change\<close>. The assertions on the arguments and along the way
  of an operation are the predicates of \<open>Vma_Asserts\<close>. \<open>handle_refs\<close> counts the references
  the areas hold.
\<close>

section \<open>Flags\<close>

definition PROT_NONE :: u32 where "PROT_NONE = 0"
definition PROT_READ :: u32 where "PROT_READ = 1"
definition PROT_WRITE :: u32 where "PROT_WRITE = 2"
definition PROT_EXEC :: u32 where "PROT_EXEC = 4"
definition PROT_GROWSDOWN :: u32 where "PROT_GROWSDOWN = 0x01000000"

definition MAP_SHARED :: u32 where "MAP_SHARED = 0x01"
definition MAP_PRIVATE :: u32 where "MAP_PRIVATE = 0x02"
definition MAP_SHARED_VALIDATE :: u32 where "MAP_SHARED_VALIDATE = 0x03"
definition MAP_FIXED :: u32 where "MAP_FIXED = 0x10"
definition MAP_ANONYMOUS :: u32 where "MAP_ANONYMOUS = 0x20"
definition MAP_32BIT :: u32 where "MAP_32BIT = 0x40"
definition MAP_GROWSDOWN :: u32 where "MAP_GROWSDOWN = 0x0100"
definition MAP_STACK :: u32 where "MAP_STACK = 0x20000"
definition MAP_HUGETLB :: u32 where "MAP_HUGETLB = 0x40000"
definition MAP_FIXED_NOREPLACE :: u32 where "MAP_FIXED_NOREPLACE = 0x100000"
definition MAP_HUGE_2MB :: u32 where "MAP_HUGE_2MB = 0x54000000"
definition MAP_HUGE_1GB :: u32 where "MAP_HUGE_1GB = 0x78000000"

definition VMA_UNMAPPED :: u32 where "VMA_UNMAPPED = 0x10000000"
definition VMA_INTERNAL :: u32 where "VMA_INTERNAL = 0x20000000"
definition VMA_TAINTED :: u32 where "VMA_TAINTED = 0x40000000"

definition O_WRONLY :: u32 where "O_WRONLY = 1"
definition O_RDWR :: u32 where "O_RDWR = 2"
definition MAY_READ :: u32 where "MAY_READ = 4"
definition MAY_WRITE :: u32 where "MAY_WRITE = 2"

definition has_flag :: "u32 \<Rightarrow> u32 \<Rightarrow> bool" where
  "has_flag flags f \<longleftrightarrow> flags AND f \<noteq> 0"

definition filter_saved_flags :: "u32 \<Rightarrow> u32" where
  "filter_saved_flags flags =
     flags AND (MAP_SHARED OR MAP_SHARED_VALIDATE OR MAP_PRIVATE OR MAP_ANONYMOUS OR MAP_GROWSDOWN
                OR MAP_HUGETLB OR MAP_HUGE_2MB OR MAP_HUGE_1GB OR MAP_STACK
                OR VMA_UNMAPPED OR VMA_INTERNAL OR VMA_TAINTED)"

section \<open>Data\<close>

record libos_vma =
  begin_addr :: u64
  end_addr :: u64
  vprot :: u32
  vflags :: u32
  vfile :: "nat option"
  voffset :: u64
  vcomment :: string

text \<open>What the code reads of a handle: its flags, its inode, its access mode and which callbacks
  its file system has.\<close>

record handle_info =
  hdl_flags :: u32
  hdl_inode :: "nat option"
  hdl_acc_mode :: u32
  hdl_has_msync :: bool
  hdl_has_read :: bool
  hdl_has_mmap :: bool

type_synonym handles = "nat \<Rightarrow> handle_info"

text \<open>The fields of \<open>g_pal_public_state\<close> that are used here, and \<open>g_received_user_memory\<close>.\<close>

record pal_public_state =
  alloc_align :: u64
  memory_address_start :: u64
  memory_address_end :: u64
  shared_address_start :: u64
  shared_address_end :: u64
  early_libos_mem_range_start :: u64
  early_libos_mem_range_end :: u64
  mem_total :: u64
  disable_aslr :: bool
  received_user_memory :: bool

record vma_state =
  vma_tree :: "libos_vma list"
  g_total_memory_size :: u64
  g_peak_total_memory_size :: u64
  handle_refs :: "nat \<Rightarrow> nat"
  num_mmapped :: "nat \<Rightarrow> nat"
  asserts_hold :: bool

definition is_alloc_aligned :: "pal_public_state \<Rightarrow> u64 \<Rightarrow> bool" where
  "is_alloc_aligned pal x \<longleftrightarrow> x AND (alloc_align pal - 1) = 0"

definition alloc_align_down :: "pal_public_state \<Rightarrow> u64 \<Rightarrow> u64" where
  "alloc_align_down pal x = x - (x AND (alloc_align pal - 1))"

definition alloc_align_up :: "pal_public_state \<Rightarrow> u64 \<Rightarrow> u64" where
  "alloc_align_up pal x = alloc_align_down pal (x + alloc_align pal - 1)"

text \<open>\<open>copy_comment\<close> keeps at most 15 characters.\<close>

definition copy_comment :: "string \<Rightarrow> string" where
  "copy_comment c = take 15 c"

section \<open>Reference counts and sizes\<close>

definition vma_assert :: "bool \<Rightarrow> vma_state \<Rightarrow> vma_state" where
  "vma_assert b st = st\<lparr>asserts_hold := asserts_hold st \<and> b\<rparr>"

definition get_file :: "handles \<Rightarrow> nat option \<Rightarrow> vma_state \<Rightarrow> vma_state" where
  "get_file hs f st =
     (case f of
        None \<Rightarrow> st
      | Some h \<Rightarrow>
          (let st1 = st\<lparr>handle_refs := (handle_refs st)(h := handle_refs st h + 1)\<rparr> in
           case hdl_inode (hs h) of
             None \<Rightarrow> st1
           | Some i \<Rightarrow> st1\<lparr>num_mmapped := (num_mmapped st1)(i := num_mmapped st1 i + 1)\<rparr>))"

text \<open>The effect of \<open>free_vma\<close> on the file of the area (the area itself goes to the thread's
  cache or to the memory manager).\<close>

definition free_vma :: "handles \<Rightarrow> libos_vma \<Rightarrow> vma_state \<Rightarrow> vma_state" where
  "free_vma hs v st =
     (case vfile v of
        None \<Rightarrow> st
      | Some h \<Rightarrow>
          (let st1 = (case hdl_inode (hs h) of
                        None \<Rightarrow> st
                      | Some i \<Rightarrow>
                          vma_assert (0 < num_mmapped st i)
                            (st\<lparr>num_mmapped := (num_mmapped st)(i := num_mmapped st i - 1)\<rparr>))
           in vma_assert (0 < handle_refs st h)
                (st1\<lparr>handle_refs := (handle_refs st1)(h := handle_refs st1 h - 1)\<rparr>)))"

fun free_vmas_freelist :: "handles \<Rightarrow> libos_vma list \<Rightarrow> vma_state \<Rightarrow> vma_state" where
  "free_vmas_freelist hs [] st = st"
| "free_vmas_freelist hs (v # vs) st = free_vmas_freelist hs vs (free_vma hs v st)"

definition total_memory_size_add :: "u64 \<Rightarrow> vma_state \<Rightarrow> vma_state" where
  "total_memory_size_add len st =
     (let total = g_total_memory_size st + len in
      st\<lparr>g_total_memory_size := total,
         g_peak_total_memory_size :=
           (if g_peak_total_memory_size st < total then total else g_peak_total_memory_size st)\<rparr>)"

definition total_memory_size_sub :: "u64 \<Rightarrow> vma_state \<Rightarrow> vma_state" where
  "total_memory_size_sub len st =
     vma_assert (len \<le> g_total_memory_size st)
       (st\<lparr>g_total_memory_size := g_total_memory_size st - len\<rparr>)"

section \<open>The tree\<close>

definition vma_tree_cmp :: "libos_vma \<Rightarrow> libos_vma \<Rightarrow> bool" where
  "vma_tree_cmp a b \<longleftrightarrow> end_addr a \<le> end_addr b"

definition is_addr_in_vma :: "u64 \<Rightarrow> libos_vma \<Rightarrow> bool" where
  "is_addr_in_vma addr v \<longleftrightarrow> begin_addr v \<le> addr \<and> addr < end_addr v"

definition cmp_addr_to_vma :: "u64 \<Rightarrow> libos_vma \<Rightarrow> bool" where
  "cmp_addr_to_vma addr v \<longleftrightarrow> addr < end_addr v"

text \<open>The areas before and from the one that \<open>_lookup_vma\<close> finds; following \<open>_get_next_vma\<close>
  (\<open>_get_prev_vma\<close>) from there is walking the second list (the first one backwards).\<close>

definition vmas_below :: "u64 \<Rightarrow> libos_vma list \<Rightarrow> libos_vma list" where
  "vmas_below addr vs = takeWhile (\<lambda>v. \<not> cmp_addr_to_vma addr v) vs"

definition vmas_from :: "u64 \<Rightarrow> libos_vma list \<Rightarrow> libos_vma list" where
  "vmas_from addr vs = dropWhile (\<lambda>v. \<not> cmp_addr_to_vma addr v) vs"

definition lookup_vma_node :: "u64 \<Rightarrow> libos_vma list \<Rightarrow> libos_vma option" where
  "lookup_vma_node addr vs = (case vmas_from addr vs of [] \<Rightarrow> None | v # _ \<Rightarrow> Some v)"

definition vma_insert :: "libos_vma \<Rightarrow> libos_vma list \<Rightarrow> libos_vma list" where
  "vma_insert v vs =
     takeWhile (\<lambda>u. \<not> vma_tree_cmp v u) vs @ v # dropWhile (\<lambda>u. \<not> vma_tree_cmp v u) vs"

definition is_internal_vma :: "libos_vma \<Rightarrow> bool" where
  "is_internal_vma v \<longleftrightarrow> has_flag (vflags v) VMA_INTERNAL"

text \<open>The second half of a split area; the first half is the old one with a new end. The
  assertion that the address is inside is \<open>split_vma_asserts\<close>.\<close>

definition split_vma :: "libos_vma \<Rightarrow> u64 \<Rightarrow> libos_vma" where
  "split_vma old addr =
     old\<lparr>begin_addr := addr,
         voffset := (if vfile old \<noteq> None then voffset old + (addr - begin_addr old) else voffset old),
         vcomment := copy_comment (vcomment old)\<rparr>"

section \<open>Traversal\<close>

fun traverse_loop ::
    "(libos_vma \<Rightarrow> 'c \<Rightarrow> 'c \<times> bool) \<Rightarrow> u64 \<Rightarrow> libos_vma list \<Rightarrow> 'c \<Rightarrow> bool \<Rightarrow> 'c \<times> bool" where
  "traverse_loop visitor e [] ctx is_continuous = (ctx, is_continuous)"
| "traverse_loop visitor e (v # vs) ctx is_continuous =
     (let (ctx1, go) = visitor v ctx in
      if \<not> go then (ctx1, is_continuous)
      else
        (case vs of
           [] \<Rightarrow> (ctx1, is_continuous \<and> e \<le> end_addr v)
         | w # _ \<Rightarrow>
             if e \<le> begin_addr w then (ctx1, is_continuous \<and> e \<le> end_addr v)
             else traverse_loop visitor e vs ctx1 (is_continuous \<and> end_addr v = begin_addr w)))"

definition traverse_vmas_in_range ::
    "u64 \<Rightarrow> u64 \<Rightarrow> (libos_vma \<Rightarrow> 'c \<Rightarrow> 'c \<times> bool) \<Rightarrow> 'c \<Rightarrow> libos_vma list \<Rightarrow> 'c \<times> bool" where
  "traverse_vmas_in_range b e visitor ctx vs =
     (if b = e then (ctx, True)
      else
        (case vmas_from b vs of
           [] \<Rightarrow> (ctx, False)
         | v # rest \<Rightarrow>
             if e \<le> begin_addr v then (ctx, False)
             else traverse_loop visitor e (v # rest) ctx (begin_addr v \<le> b)))"

section \<open>Removing a range\<close>

text \<open>The loop that deletes the areas inside the range and trims the last one: the freed areas,
  the size taken out of the tree by each step, and what is left of the list.\<close>

fun remove_loop :: "u64 \<Rightarrow> libos_vma list \<Rightarrow> libos_vma list \<times> u64 list \<times> libos_vma list" where
  "remove_loop e [] = ([], [], [])"
| "remove_loop e (v # vs) =
     (if end_addr v \<le> e then
        (let (freed, sizes, rest) = remove_loop e vs
         in (v # freed, (end_addr v - begin_addr v) # sizes, rest))
      else if begin_addr v < e then
        ([], [e - begin_addr v],
         v\<lparr>voffset := (if vfile v \<noteq> None then voffset v + (e - begin_addr v) else voffset v),
           begin_addr := e\<rparr> # vs)
      else ([], [], v # vs))"

definition sub_sizes :: "u64 list \<Rightarrow> vma_state \<Rightarrow> vma_state" where
  "sub_sizes sizes st = fold total_memory_size_sub sizes st"

text \<open>
  \<open>_vma_bkeep_remove\<close>; \<open>new_vma\<close> says whether the caller has provided an area. The result is the
  error, whether the provided area was used, and the areas to free.
\<close>

definition vma_bkeep_remove ::
    "handles \<Rightarrow> u64 \<Rightarrow> u64 \<Rightarrow> bool \<Rightarrow> bool \<Rightarrow> vma_state \<Rightarrow>
     errno option \<times> bool \<times> libos_vma list \<times> vma_state" where
  "vma_bkeep_remove hs b e is_internal new_vma st =
     (case vmas_from b (vma_tree st) of
        [] \<Rightarrow> (None, False, [], st)
      | v # rest \<Rightarrow>
          if \<exists>u \<in> set (takeWhile (\<lambda>u. begin_addr u < e) (v # rest)). is_internal_vma u \<noteq> is_internal
          then (Some EACCES, False, [], st)
          else if begin_addr v < b \<and> e < end_addr v then
            (if \<not> new_vma then (Some ENOMEM, False, [], st)
             else
               (None, True, [],
                total_memory_size_sub (e - b)
                  (get_file hs (vfile v)
                    (st\<lparr>vma_tree :=
                       vma_insert (split_vma v e)
                         (vmas_below b (vma_tree st) @ v\<lparr>end_addr := b\<rparr> # rest)\<rparr>))))
          else if begin_addr v < b then
            (let (freed, sizes, kept) = remove_loop e rest
             in (None, False, freed,
                 sub_sizes ((end_addr v - b) # sizes)
                   (st\<lparr>vma_tree := vmas_below b (vma_tree st) @ v\<lparr>end_addr := b\<rparr> # kept\<rparr>)))
          else
            (let (freed, sizes, kept) = remove_loop e (v # rest)
             in (None, False, freed,
                 sub_sizes sizes (st\<lparr>vma_tree := vmas_below b (vma_tree st) @ kept\<rparr>))))"

definition bkeep_initial_vma :: "libos_vma \<Rightarrow> vma_state \<Rightarrow> errno option \<times> vma_state" where
  "bkeep_initial_vma new st =
     (case lookup_vma_node (begin_addr new) (vma_tree st) of
        Some tmp \<Rightarrow>
          if begin_addr tmp < end_addr new then (Some EEXIST, st)
          else (None, total_memory_size_add (end_addr new - begin_addr new)
                        (st\<lparr>vma_tree := vma_insert new (vma_tree st)\<rparr>))
      | None \<Rightarrow> (None, total_memory_size_add (end_addr new - begin_addr new)
                        (st\<lparr>vma_tree := vma_insert new (vma_tree st)\<rparr>)))"

definition unmapped_vma :: "u64 \<Rightarrow> u64 \<Rightarrow> libos_vma" where
  "unmapped_vma b e =
     \<lparr>begin_addr = b, end_addr = e, vprot = PROT_NONE, vflags = VMA_INTERNAL OR VMA_UNMAPPED,
      vfile = None, voffset = 0, vcomment = []\<rparr>"

definition add_unmapped_vma :: "u64 \<Rightarrow> u64 \<Rightarrow> vma_state \<Rightarrow> vma_state" where
  "add_unmapped_vma b e st =
     total_memory_size_add (e - b) (st\<lparr>vma_tree := vma_insert (unmapped_vma b e) (vma_tree st)\<rparr>)"

text \<open>\<open>bkeep_munmap\<close>: the error or the pointer to the temporary area.\<close>

definition bkeep_munmap ::
    "pal_public_state \<Rightarrow> handles \<Rightarrow> mem \<Rightarrow> u64 \<Rightarrow> u64 \<Rightarrow> bool \<Rightarrow> vma_state \<Rightarrow>
     mem \<times> (errno + u64) \<times> vma_state" where
  "bkeep_munmap pal hs m addr len is_internal st =
     (if len = 0 \<or> \<not> is_alloc_aligned pal len \<or> \<not> is_alloc_aligned pal addr then (m, Inl EINVAL, st)
      else
        (let (vma1, m1) = malloc m in
         if \<not> vma1 then (m1, Inl ENOMEM, st)
         else
           (let (vma2, m2) = malloc m1;
                (ret, _, freed, st1) = vma_bkeep_remove hs addr (addr + len) is_internal vma2 st
            in case ret of
                 Some err \<Rightarrow> (m2, Inl err, free_vmas_freelist hs freed st1)
               | None \<Rightarrow> (m2, Inr addr,
                          free_vmas_freelist hs freed (add_unmapped_vma addr (addr + len) st1)))))"

definition vma_node_at :: "u64 \<Rightarrow> libos_vma list \<Rightarrow> libos_vma option" where
  "vma_node_at ptr vs = find (\<lambda>v. begin_addr v = ptr) vs"

definition bkeep_remove_tmp_vma :: "handles \<Rightarrow> u64 \<Rightarrow> vma_state \<Rightarrow> vma_state" where
  "bkeep_remove_tmp_vma hs ptr st =
     (case vma_node_at ptr (vma_tree st) of
        None \<Rightarrow> vma_assert False st
      | Some v \<Rightarrow>
          free_vma hs v
            (total_memory_size_sub (end_addr v - begin_addr v)
              (vma_assert (vflags v = (VMA_INTERNAL OR VMA_UNMAPPED))
                (st\<lparr>vma_tree := remove1 v (vma_tree st)\<rparr>))))"

definition bkeep_convert_tmp_vma_to_user :: "u64 \<Rightarrow> vma_state \<Rightarrow> vma_state" where
  "bkeep_convert_tmp_vma_to_user ptr st =
     (case vma_node_at ptr (vma_tree st) of
        None \<Rightarrow> vma_assert False st
      | Some v \<Rightarrow>
          vma_assert (vflags v = (VMA_INTERNAL OR VMA_UNMAPPED))
            (st\<lparr>vma_tree :=
               map (\<lambda>u. if begin_addr u = ptr then u\<lparr>vflags := vflags u AND NOT VMA_INTERNAL\<rparr> else u)
                 (vma_tree st)\<rparr>))"

section \<open>Mapping at a fixed address\<close>

definition new_vma_flags :: "u32 \<Rightarrow> u32 \<Rightarrow> nat option \<Rightarrow> u32" where
  "new_vma_flags prot flags file =
     filter_saved_flags flags OR (if file \<noteq> None \<and> has_flag prot PROT_WRITE then VMA_TAINTED else 0)"

text \<open>The fields a new area gets.\<close>

definition fixed_vma :: "u64 \<Rightarrow> u64 \<Rightarrow> u32 \<Rightarrow> u32 \<Rightarrow> nat option \<Rightarrow> u64 \<Rightarrow> string \<Rightarrow> libos_vma" where
  "fixed_vma b e prot flags file offset comment =
     \<lparr>begin_addr = b, end_addr = e, vprot = prot, vflags = new_vma_flags prot flags file, vfile = file,
      voffset = (if file \<noteq> None then offset else 0), vcomment = copy_comment comment\<rparr>"

text \<open>The step before the insertion: the overlap check, or the removal.\<close>

definition make_room ::
    "handles \<Rightarrow> u64 \<Rightarrow> u64 \<Rightarrow> u32 \<Rightarrow> bool \<Rightarrow> vma_state \<Rightarrow> errno option \<times> libos_vma list \<times> vma_state" where
  "make_room hs b e flags vma1 st =
     (if has_flag flags MAP_FIXED_NOREPLACE then
        (case lookup_vma_node b (vma_tree st) of
           Some tmp \<Rightarrow> ((if begin_addr tmp < e then Some EEXIST else None), [], st)
         | None \<Rightarrow> (None, [], st))
      else
        (let (ret, _, freed, st2) = vma_bkeep_remove hs b e (has_flag flags VMA_INTERNAL) vma1 st
         in (ret, freed, st2)))"

definition bkeep_mmap_fixed ::
    "pal_public_state \<Rightarrow> handles \<Rightarrow> mem \<Rightarrow> u64 \<Rightarrow> u64 \<Rightarrow> u32 \<Rightarrow> u32 \<Rightarrow> nat option \<Rightarrow> u64 \<Rightarrow> string \<Rightarrow>
     vma_state \<Rightarrow> mem \<times> errno option \<times> vma_state" where
  "bkeep_mmap_fixed pal hs m addr len prot flags file offset comment st =
     (if len = 0 \<or> \<not> is_alloc_aligned pal len \<or> \<not> is_alloc_aligned pal addr then (m, Some EINVAL, st)
      else
        (let (new_ok, m1) = malloc m in
         if \<not> new_ok then (m1, Some ENOMEM, st)
         else
           (let (vma1, m2) = malloc m1;
                new = fixed_vma addr (addr + len) prot flags file offset comment;
                (ret, freed, st2) = make_room hs addr (addr + len) flags vma1 (get_file hs file st)
            in case ret of
                 Some err \<Rightarrow> (m2, Some err, free_vma hs new (free_vmas_freelist hs freed st2))
               | None \<Rightarrow>
                   (m2, None,
                    free_vmas_freelist hs freed
                      (total_memory_size_add (addr + len - addr)
                        (st2\<lparr>vma_tree := vma_insert new (vma_tree st2)\<rparr>))))))"

section \<open>Changing the protection\<close>

definition is_file_prot_matching :: "handles \<Rightarrow> nat \<Rightarrow> u32 \<Rightarrow> bool" where
  "is_file_prot_matching hs h prot \<longleftrightarrow> \<not> has_flag prot PROT_WRITE \<or> has_flag (hdl_flags (hs h)) O_RDWR"

definition vma_update_prot :: "libos_vma \<Rightarrow> u32 \<Rightarrow> libos_vma" where
  "vma_update_prot v prot =
     v\<lparr>vprot := prot AND (PROT_NONE OR PROT_READ OR PROT_WRITE OR PROT_EXEC),
       vflags := (if vfile v \<noteq> None \<and> has_flag prot PROT_WRITE then vflags v OR VMA_TAINTED
                  else vflags v)\<rparr>"

text \<open>The checks of \<open>_vma_bkeep_change\<close> on one area, and along the range.\<close>

definition change_denied :: "handles \<Rightarrow> u32 \<Rightarrow> bool \<Rightarrow> libos_vma \<Rightarrow> errno option" where
  "change_denied hs prot is_internal v =
     (if is_internal_vma v \<noteq> is_internal then Some EACCES
      else if has_flag prot PROT_GROWSDOWN \<and> \<not> has_flag (vflags v) MAP_GROWSDOWN then Some EINVAL
      else
        (case vfile v of
           Some h \<Rightarrow>
             if has_flag (vflags v) MAP_SHARED \<and> \<not> is_file_prot_matching hs h prot then Some EACCES
             else None
         | None \<Rightarrow> None))"

fun change_check :: "handles \<Rightarrow> u32 \<Rightarrow> bool \<Rightarrow> u64 \<Rightarrow> libos_vma list \<Rightarrow> bool \<Rightarrow> errno option" where
  "change_check hs prot is_internal e [] is_continuous = Some ENOMEM"
| "change_check hs prot is_internal e (v # vs) is_continuous =
     (case change_denied hs prot is_internal v of
        Some err \<Rightarrow> Some err
      | None \<Rightarrow>
          if e \<le> end_addr v then (if is_continuous then None else Some ENOMEM)
          else
            (case vs of
               [] \<Rightarrow> Some ENOMEM
             | w # _ \<Rightarrow>
                 change_check hs prot is_internal e vs (is_continuous \<and> end_addr v = begin_addr w)))"

text \<open>The loop over the areas that lie wholly in the range, and the split of the last one: the
  new list and the second half to be inserted.\<close>

fun change_loop :: "u32 \<Rightarrow> u64 \<Rightarrow> libos_vma list \<Rightarrow> libos_vma list \<times> libos_vma option" where
  "change_loop prot e [] = ([], None)"
| "change_loop prot e (v # vs) =
     (if end_addr v \<le> e then
        (let (vs', new2) = change_loop prot e vs in (vma_update_prot v prot # vs', new2))
      else if e \<le> begin_addr v then (v # vs, None)
      else (vma_update_prot (v\<lparr>end_addr := e\<rparr>) prot # vs, Some (split_vma v e)))"

definition insert_split ::
    "handles \<Rightarrow> libos_vma option \<Rightarrow> vma_state \<Rightarrow> vma_state" where
  "insert_split hs new st =
     (case new of
        None \<Rightarrow> st
      | Some v \<Rightarrow> get_file hs (vfile v) (st\<lparr>vma_tree := vma_insert v (vma_tree st)\<rparr>))"

text \<open>
  \<open>_vma_bkeep_change\<close>. In the third case the loop over the following areas changes nodes in place
  while the first half is already in the tree; the model changes the list and inserts afterwards.
  The assertion is \<open>assert(next)\<close>: without it the code goes on with a \<open>NULL\<close> pointer. When it fails the
  result \<open>None\<close> means nothing. The other assertions are \<open>vma_bkeep_change_asserts\<close>.
\<close>

definition vma_bkeep_change ::
    "handles \<Rightarrow> u64 \<Rightarrow> u64 \<Rightarrow> u32 \<Rightarrow> bool \<Rightarrow> vma_state \<Rightarrow> errno option \<times> vma_state" where
  "vma_bkeep_change hs b e prot is_internal st =
     (case vmas_from b (vma_tree st) of
        [] \<Rightarrow> (Some ENOMEM, st)
      | v # rest \<Rightarrow>
          if b < begin_addr v then (Some ENOMEM, st)
          else
            (case change_check hs prot is_internal e (v # rest) True of
               Some err \<Rightarrow> (Some err, st)
             | None \<Rightarrow>
                 let below = vmas_below b (vma_tree st) in
                 if begin_addr v < b \<and> \<not> has_flag prot PROT_GROWSDOWN then
                   (let new1 = vma_update_prot (split_vma v b) prot;
                        st1 = insert_split hs (Some new1)
                                (st\<lparr>vma_tree := below @ v\<lparr>end_addr := b\<rparr> # rest\<rparr>)
                    in if e < end_addr new1 then
                         (None,
                          insert_split hs
                            (Some (vma_update_prot (split_vma new1 e) (vprot v)))
                            (st1\<lparr>vma_tree :=
                               map (\<lambda>u. if begin_addr u = b then u\<lparr>end_addr := e\<rparr> else u)
                                 (vma_tree st1)\<rparr>))
                       else
                         (let (rest', new2) = change_loop prot e rest
                          in (None,
                              insert_split hs new2
                                (insert_split hs (Some new1)
                                  (vma_assert (rest \<noteq> [])
                                    (st\<lparr>vma_tree := below @ v\<lparr>end_addr := b\<rparr> # rest'\<rparr>))))))
                 else
                   (let (vs', new2) = change_loop prot e (v # rest)
                    in (None, insert_split hs new2 (st\<lparr>vma_tree := below @ vs'\<rparr>)))))"

definition bkeep_mprotect ::
    "pal_public_state \<Rightarrow> handles \<Rightarrow> mem \<Rightarrow> u64 \<Rightarrow> u64 \<Rightarrow> u32 \<Rightarrow> bool \<Rightarrow> vma_state \<Rightarrow>
     mem \<times> errno option \<times> vma_state" where
  "bkeep_mprotect pal hs m addr len prot is_internal st =
     (if len = 0 \<or> \<not> is_alloc_aligned pal len \<or> \<not> is_alloc_aligned pal addr then (m, Some EINVAL, st)
      else
        (let (vma1, m1) = malloc m in
         if \<not> vma1 then (m1, Some ENOMEM, st)
         else
           (let (vma2, m2) = malloc m1 in
            if \<not> vma2 then (m2, Some ENOMEM, st)
            else
              (let (ret, st1) = vma_bkeep_change hs addr (addr + len) prot is_internal st
               in (m2, ret, st1)))))"

section \<open>Mapping anywhere in a range\<close>

text \<open>The search of \<open>bkeep_mmap_any_in_range\<close> through the areas in descending order: the end of the
  gap found.\<close>

fun find_gap :: "u64 \<Rightarrow> u64 \<Rightarrow> u64 \<Rightarrow> libos_vma list \<Rightarrow> u64 option" where
  "find_gap bottom len max_addr [] =
     (if bottom \<le> max_addr \<and> len \<le> max_addr - bottom then Some max_addr else None)"
| "find_gap bottom len max_addr (v # vs) =
     (if bottom \<le> end_addr v then
        (if len \<le> max_addr - end_addr v then Some max_addr
         else find_gap bottom len (begin_addr v) vs)
      else if bottom \<le> max_addr \<and> len \<le> max_addr - bottom then Some max_addr else None)"

text \<open>The limits after the restriction of early internal allocations and of \<open>MAP_32BIT\<close>.\<close>

definition clip_range :: "pal_public_state \<Rightarrow> u32 \<Rightarrow> u64 \<Rightarrow> u64 \<Rightarrow> (u64 \<times> u64) option" where
  "clip_range pal flags bottom top_addr =
     (case (if \<not> received_user_memory pal \<and> has_flag flags VMA_INTERNAL then
              (if top_addr \<le> early_libos_mem_range_start pal \<or> early_libos_mem_range_end pal \<le> bottom then None
               else Some (max bottom (early_libos_mem_range_start pal),
                          min top_addr (early_libos_mem_range_end pal)))
            else Some (bottom, top_addr)) of
        None \<Rightarrow> None
      | Some (bottom, top_addr) \<Rightarrow>
          if has_flag flags MAP_32BIT then
            (let top_addr = min top_addr 0x80000000 in if top_addr \<le> bottom then None else Some (bottom, top_addr))
          else Some (bottom, top_addr))"

text \<open>The assertions of \<open>bkeep_mmap_any_in_range\<close> are \<open>mmap_any_in_range_asserts\<close>.\<close>

definition bkeep_mmap_any_in_range ::
    "pal_public_state \<Rightarrow> handles \<Rightarrow> mem \<Rightarrow> u64 \<Rightarrow> u64 \<Rightarrow> u64 \<Rightarrow> u32 \<Rightarrow> u32 \<Rightarrow> nat option \<Rightarrow> u64 \<Rightarrow> string \<Rightarrow>
     vma_state \<Rightarrow> mem \<times> (errno + u64) \<times> vma_state" where
  "bkeep_mmap_any_in_range pal hs m bottom0 top0 len prot flags file offset comment st =
     (if len = 0 \<or> \<not> is_alloc_aligned pal len then (m, Inl EINVAL, st)
      else if \<not> is_alloc_aligned pal bottom0 \<or> \<not> is_alloc_aligned pal top0 then (m, Inl EINVAL, st)
      else
        (case clip_range pal flags bottom0 top0 of
           None \<Rightarrow> (m, Inl ENOMEM, st)
         | Some (bottom, top_addr) \<Rightarrow>
             (let (ok, m1) = malloc m in
              if \<not> ok then (m1, Inl ENOMEM, st)
              else
                (let st1 = get_file hs file st;
                     new = fixed_vma 0 0 prot flags file offset comment;
                     max_addr = (case lookup_vma_node top_addr (vma_tree st1) of
                                   None \<Rightarrow> top_addr
                                 | Some v \<Rightarrow> min top_addr (begin_addr v))
                 in case find_gap bottom len max_addr (rev (vmas_below top_addr (vma_tree st1))) of
                      None \<Rightarrow> (m1, Inl ENOMEM, free_vma hs new st1)
                    | Some e \<Rightarrow>
                        (m1, Inr (e - len),
                         total_memory_size_add (e - (e - len))
                           (st1\<lparr>vma_tree :=
                              vma_insert (new\<lparr>begin_addr := e - len, end_addr := e\<rparr>)
                                (vma_tree st1)\<rparr>))))))"

definition bkeep_mmap_any ::
    "pal_public_state \<Rightarrow> handles \<Rightarrow> mem \<Rightarrow> u64 \<Rightarrow> u32 \<Rightarrow> u32 \<Rightarrow> nat option \<Rightarrow> u64 \<Rightarrow> string \<Rightarrow>
     vma_state \<Rightarrow> mem \<times> (errno + u64) \<times> vma_state" where
  "bkeep_mmap_any pal hs m len prot flags file offset comment st =
     bkeep_mmap_any_in_range pal hs m (memory_address_start pal) (memory_address_end pal)
       len prot flags file offset comment st"

text \<open>\<open>aslr_top\<close> is \<open>g_aslr_addr_top\<close>.\<close>

definition bkeep_mmap_any_aslr ::
    "pal_public_state \<Rightarrow> handles \<Rightarrow> u64 \<Rightarrow> mem \<Rightarrow> u64 \<Rightarrow> u32 \<Rightarrow> u32 \<Rightarrow> nat option \<Rightarrow> u64 \<Rightarrow> string \<Rightarrow>
     vma_state \<Rightarrow> mem \<times> (errno + u64) \<times> vma_state" where
  "bkeep_mmap_any_aslr pal hs aslr_top m len prot flags file offset comment st =
     (case bkeep_mmap_any_in_range pal hs m (memory_address_start pal) aslr_top
             len prot flags file offset comment st of
        (m1, Inr addr, st1) \<Rightarrow> (m1, Inr addr, st1)
      | (m1, Inl _, st1) \<Rightarrow> bkeep_mmap_any pal hs m1 len prot flags file offset comment st1)"

definition pal_mem_bkeep_alloc ::
    "pal_public_state \<Rightarrow> handles \<Rightarrow> mem \<Rightarrow> u64 \<Rightarrow> vma_state \<Rightarrow> mem \<times> (errno + u64) \<times> vma_state" where
  "pal_mem_bkeep_alloc pal hs m sz st =
     bkeep_mmap_any pal hs m sz (PROT_READ OR PROT_WRITE) (MAP_PRIVATE OR MAP_ANONYMOUS OR VMA_INTERNAL)
       None 0 ''pal internal memory'' st"

definition pal_mem_bkeep_free ::
    "pal_public_state \<Rightarrow> handles \<Rightarrow> mem \<Rightarrow> u64 \<Rightarrow> u64 \<Rightarrow> vma_state \<Rightarrow> mem \<times> errno option \<times> vma_state" where
  "pal_mem_bkeep_free pal hs m addr sz st =
     (case bkeep_munmap pal hs m addr sz True st of
        (m1, Inl err, st1) \<Rightarrow> (m1, Some err, st1)
      | (m1, Inr tmp, st1) \<Rightarrow> (m1, None, bkeep_remove_tmp_vma hs tmp st1))"

end
