(* ===== verification/Vma_Tree.thy ===== *)
theory Vma_Tree
  imports Vma Avl_Tree_Correct
begin

text \<open>
  The tree of areas: well-formed trees (ordered, disjoint, non-empty areas), the map from
  addresses to what is mapped there, and what insertion and lookup do to it. That the list
  operations are those of the AVL tree with \<open>vma_tree_cmp\<close> is shown in \<open>Vma_State\<close>.
\<close>

section \<open>Well-formed trees\<close>

definition vmas_wf :: "libos_vma list \<Rightarrow> bool" where
  "vmas_wf vs \<longleftrightarrow>
     (\<forall>v \<in> set vs. begin_addr v < end_addr v) \<and> sorted_wrt (\<lambda>u v. end_addr u \<le> begin_addr v) vs"

lemma vmas_wf_Nil [simp]: "vmas_wf []"
  by (simp add: vmas_wf_def)

lemma vmas_wf_Cons:
  "vmas_wf (v # vs) \<longleftrightarrow>
     begin_addr v < end_addr v \<and> (\<forall>u \<in> set vs. end_addr v \<le> begin_addr u) \<and> vmas_wf vs"
  by (auto simp: vmas_wf_def)

lemma vmas_wf_append:
  "vmas_wf (us @ vs) \<longleftrightarrow>
     vmas_wf us \<and> vmas_wf vs \<and> (\<forall>u \<in> set us. \<forall>v \<in> set vs. end_addr u \<le> begin_addr v)"
  by (auto simp: vmas_wf_def sorted_wrt_append)

lemma vmas_wf_area: "vmas_wf vs \<Longrightarrow> v \<in> set vs \<Longrightarrow> begin_addr v < end_addr v"
  by (simp add: vmas_wf_def)

lemma vmas_wf_ends:
  assumes "vmas_wf (v # vs)" "u \<in> set vs"
  shows "end_addr v \<le> begin_addr u" "end_addr v < end_addr u" "begin_addr v < begin_addr u"
proof -
  have "end_addr v \<le> begin_addr u" "begin_addr u < end_addr u" "begin_addr v < end_addr v"
    using assms vmas_wf_area by (auto simp: vmas_wf_Cons)
  then show "end_addr v \<le> begin_addr u" "end_addr v < end_addr u" "begin_addr v < begin_addr u"
    by order+
qed

lemma vmas_wf_sorted_ends: "vmas_wf vs \<Longrightarrow> sorted_wrt (\<lambda>u v. end_addr u < end_addr v) vs"
proof (induction vs)
  case (Cons v vs)
  then show ?case using vmas_wf_ends(2) [of v vs] by (simp add: vmas_wf_Cons)
qed simp

text \<open>What the lower bound of an address separates.\<close>

lemma vmas_split: "vmas_below a vs @ vmas_from a vs = vs"
  by (simp add: vmas_below_def vmas_from_def)

lemma vmas_below_end: "v \<in> set (vmas_below a vs) \<Longrightarrow> end_addr v \<le> a"
  by (auto simp: vmas_below_def cmp_addr_to_vma_def not_less dest: set_takeWhileD)

lemma vmas_from_end:
  assumes "vmas_wf vs" "v \<in> set (vmas_from a vs)"
  shows "a < end_addr v"
proof -
  have "sorted_wrt (\<lambda>u v. cmp_addr_to_vma a u \<longrightarrow> cmp_addr_to_vma a v) vs"
    using vmas_wf_sorted_ends [OF assms(1)]
    by (rule sorted_wrt_mono_rel [rotated]) (auto simp: cmp_addr_to_vma_def)
  then show ?thesis
    using assms(2) upward_highs [of "cmp_addr_to_vma a" vs v]
    by (simp add: vmas_from_def cmp_addr_to_vma_def)
qed

lemma vmas_from_Nil:
  assumes "vmas_from a vs = []" "v \<in> set vs"
  shows "end_addr v \<le> a"
  using assms vmas_below_end [of v a vs] vmas_split [of a vs] by simp

lemma vmas_wf_split:
  assumes "vmas_wf vs"
  shows "vmas_wf (vmas_below a vs)" "vmas_wf (vmas_from a vs)"
    "\<And>u v. u \<in> set (vmas_below a vs) \<Longrightarrow> v \<in> set (vmas_from a vs) \<Longrightarrow> end_addr u \<le> begin_addr v"
  using assms vmas_wf_append [of "vmas_below a vs" "vmas_from a vs"] by (simp_all add: vmas_split)

section \<open>The address space\<close>

definition vma_at :: "libos_vma list \<Rightarrow> u64 \<Rightarrow> libos_vma option" where
  "vma_at vs a = find (is_addr_in_vma a) vs"

text \<open>What a page sees of its area: protection, flags, file and the offset in the file.\<close>

definition vma_view :: "libos_vma \<Rightarrow> u64 \<Rightarrow> u32 \<times> u32 \<times> nat option \<times> u64" where
  "vma_view v a =
     (vprot v, vflags v, vfile v, if vfile v \<noteq> None then voffset v + (a - begin_addr v) else voffset v)"

definition mapped :: "libos_vma list \<Rightarrow> u64 \<Rightarrow> (u32 \<times> u32 \<times> nat option \<times> u64) option" where
  "mapped vs a = map_option (\<lambda>v. vma_view v a) (vma_at vs a)"

lemma vma_at_append: "vma_at (us @ vs) a = (case vma_at us a of None \<Rightarrow> vma_at vs a | Some v \<Rightarrow> Some v)"
  by (induction us) (auto simp: vma_at_def)

lemma vma_at_Cons: "vma_at (v # vs) a = (if is_addr_in_vma a v then Some v else vma_at vs a)"
  by (simp add: vma_at_def)

lemma vma_at_None: "vma_at vs a = None \<longleftrightarrow> (\<forall>v \<in> set vs. \<not> is_addr_in_vma a v)"
  by (auto simp: vma_at_def find_None_iff)

lemma vma_at_SomeD: "vma_at vs a = Some v \<Longrightarrow> v \<in> set vs \<and> is_addr_in_vma a v"
  by (auto simp: vma_at_def find_Some_iff)

lemma vma_at_unique:
  assumes "vmas_wf vs" "v \<in> set vs" "is_addr_in_vma a v"
  shows "vma_at vs a = Some v"
  using assms
proof (induction vs)
  case (Cons u vs)
  show ?case
  proof (cases "v = u")
    case False
    then have v: "v \<in> set vs" using Cons.prems(2) by simp
    then have "\<not> is_addr_in_vma a u"
      using vmas_wf_ends(1) [OF Cons.prems(1) v] Cons.prems(3) unfolding is_addr_in_vma_def
      by (safe; order)
    then show ?thesis
      using Cons v by (simp add: vma_at_Cons vmas_wf_Cons)
  qed (use Cons.prems in \<open>simp add: vma_at_Cons\<close>)
qed simp

lemma mapped_append: "mapped (us @ vs) a = (case mapped us a of None \<Rightarrow> mapped vs a | Some x \<Rightarrow> Some x)"
  by (auto simp: mapped_def vma_at_append split: option.splits)

lemma mapped_Cons: "mapped (v # vs) a = (if is_addr_in_vma a v then Some (vma_view v a) else mapped vs a)"
  by (simp add: mapped_def vma_at_Cons)

lemma mapped_Nil [simp]: "mapped [] a = None"
  by (simp add: mapped_def vma_at_def)

lemma mapped_None: "mapped vs a = None \<longleftrightarrow> (\<forall>v \<in> set vs. \<not> is_addr_in_vma a v)"
  by (simp add: mapped_def vma_at_None)

lemma mapped_below:
  assumes "\<And>v. v \<in> set vs \<Longrightarrow> end_addr v \<le> b" "b \<le> a"
  shows "mapped vs a = None"
  using assms by (force simp: mapped_None is_addr_in_vma_def not_less)

lemma mapped_above:
  assumes "\<And>v. v \<in> set vs \<Longrightarrow> e \<le> begin_addr v" "a < e"
  shows "mapped vs a = None"
  using assms by (force simp: mapped_None is_addr_in_vma_def not_le)

section \<open>Insertion\<close>

lemma vma_insert_at:
  assumes "vmas_wf vs" "begin_addr v < end_addr v"
    and "\<And>u. u \<in> set us \<Longrightarrow> end_addr u \<le> begin_addr v" "\<And>w. w \<in> set vs \<Longrightarrow> end_addr v \<le> begin_addr w"
  shows "vma_insert v (us @ vs) = us @ v # vs"
proof -
  have us: "\<not> vma_tree_cmp v u" if "u \<in> set us" for u
    using assms(2) assms(3) [OF that] unfolding vma_tree_cmp_def by order
  have vs: "vma_tree_cmp v w" if "w \<in> set vs" for w
    using vmas_wf_area [OF assms(1) that] assms(4) [OF that] unfolding vma_tree_cmp_def by order
  show ?thesis
  proof (cases vs)
    case Nil
    then show ?thesis using us by (simp add: vma_insert_def takeWhile_eq_all_conv)
  next
    case (Cons w ws)
    then have "vma_tree_cmp v w" using vs by simp
    then show ?thesis
      using us Cons by (simp add: vma_insert_def takeWhile_append2 dropWhile_append2)
  qed
qed

text \<open>Inserting an area that overlaps no other.\<close>

definition vma_free :: "libos_vma list \<Rightarrow> u64 \<Rightarrow> u64 \<Rightarrow> bool" where
  "vma_free vs b e \<longleftrightarrow> (\<forall>v \<in> set vs. end_addr v \<le> b \<or> e \<le> begin_addr v)"

lemma vma_free_split:
  assumes "vmas_wf vs" "vma_free vs b e" "b < e"
  shows "\<And>u. u \<in> set (vmas_below b vs) \<Longrightarrow> end_addr u \<le> b"
    "\<And>u. u \<in> set (vmas_from b vs) \<Longrightarrow> e \<le> begin_addr u"
proof -
  fix u assume u: "u \<in> set (vmas_from b vs)"
  then have "b < end_addr u" by (rule vmas_from_end [OF assms(1)])
  moreover have "u \<in> set vs" using u by (metis vmas_split in_set_conv_decomp_first append_assoc set_append UnI2)
  ultimately show "e \<le> begin_addr u"
    using assms(2) by (auto simp: vma_free_def)
qed (rule vmas_below_end)

lemma vma_insert_free:
  assumes "vmas_wf vs" "vma_free vs (begin_addr v) (end_addr v)" "begin_addr v < end_addr v"
  shows "vma_insert v vs = vmas_below (begin_addr v) vs @ v # vmas_from (begin_addr v) vs"
    "vmas_wf (vma_insert v vs)"
    "mapped (vma_insert v vs) a = (if is_addr_in_vma a v then Some (vma_view v a) else mapped vs a)"
proof -
  let ?us = "vmas_below (begin_addr v) vs" and ?ws = "vmas_from (begin_addr v) vs"
  note bounds = vma_free_split [OF assms]
  note wf = vmas_wf_split [OF assms(1), where a = "begin_addr v"]
  have eq: "vma_insert v (?us @ ?ws) = ?us @ v # ?ws"
    using wf(2) assms(3) bounds by (rule vma_insert_at)
  then show "vma_insert v vs = ?us @ v # ?ws" by (simp add: vmas_split)
  note eq' = this
  show "vmas_wf (vma_insert v vs)"
    unfolding eq' using wf bounds assms(3) by (auto simp: vmas_wf_append vmas_wf_Cons)
  show "mapped (vma_insert v vs) a = (if is_addr_in_vma a v then Some (vma_view v a) else mapped vs a)"
  proof (cases "is_addr_in_vma a v")
    case True
    then have "mapped ?us a = None"
      using bounds(1) by (intro mapped_below [where b = "begin_addr v"]) (auto simp: is_addr_in_vma_def)
    with True show ?thesis by (simp add: eq' mapped_append mapped_Cons)
  next
    case False
    have "mapped vs a = mapped (?us @ ?ws) a" by (simp only: vmas_split)
    with False show ?thesis by (simp add: eq' mapped_append mapped_Cons split: option.splits)
  qed
qed

section \<open>Sizes and references\<close>

definition vma_size :: "libos_vma \<Rightarrow> nat" where
  "vma_size v = unat (end_addr v - begin_addr v)"

definition total_len :: "libos_vma list \<Rightarrow> nat" where
  "total_len vs = sum_list (map vma_size vs)"

definition file_count :: "nat \<Rightarrow> libos_vma list \<Rightarrow> nat" where
  "file_count h vs = length (filter (\<lambda>v. vfile v = Some h) vs)"

definition inode_count :: "handles \<Rightarrow> nat \<Rightarrow> libos_vma list \<Rightarrow> nat" where
  "inode_count hs i vs = length (filter (\<lambda>v. \<exists>h. vfile v = Some h \<and> hdl_inode (hs h) = Some i) vs)"

lemma total_len_simps [simp]:
  "total_len [] = 0" "total_len (v # vs) = vma_size v + total_len vs"
  "total_len (us @ vs) = total_len us + total_len vs"
  by (simp_all add: total_len_def)

lemma file_count_simps [simp]:
  "file_count h [] = 0"
  "file_count h (v # vs) = (if vfile v = Some h then 1 else 0) + file_count h vs"
  "file_count h (us @ vs) = file_count h us + file_count h vs"
  by (simp_all add: file_count_def)

lemma inode_count_simps [simp]:
  "inode_count hs i [] = 0"
  "inode_count hs i (v # vs) =
     (if \<exists>h. vfile v = Some h \<and> hdl_inode (hs h) = Some i then 1 else 0) + inode_count hs i vs"
  "inode_count hs i (us @ vs) = inode_count hs i us + inode_count hs i vs"
  by (simp_all add: inode_count_def)

lemma vma_insert_total [simp]: "total_len (vma_insert v vs) = vma_size v + total_len vs"
  and vma_insert_files [simp]: "file_count h (vma_insert v vs) = (if vfile v = Some h then 1 else 0) + file_count h vs"
  and vma_insert_inodes [simp]: "inode_count hs i (vma_insert v vs) =
     (if \<exists>h. vfile v = Some h \<and> hdl_inode (hs h) = Some i then 1 else 0) + inode_count hs i vs"
proof -
  let ?p = "\<lambda>u. \<not> vma_tree_cmp v u"
  have "total_len vs = total_len (takeWhile ?p vs) + total_len (dropWhile ?p vs)"
    "file_count h vs = file_count h (takeWhile ?p vs) + file_count h (dropWhile ?p vs)"
    "inode_count hs i vs = inode_count hs i (takeWhile ?p vs) + inode_count hs i (dropWhile ?p vs)"
    by (metis takeWhile_dropWhile_id total_len_simps(3) file_count_simps(3) inode_count_simps(3))+
  then show "total_len (vma_insert v vs) = vma_size v + total_len vs"
    "file_count h (vma_insert v vs) = (if vfile v = Some h then 1 else 0) + file_count h vs"
    "inode_count hs i (vma_insert v vs) =
     (if \<exists>h. vfile v = Some h \<and> hdl_inode (hs h) = Some i then 1 else 0) + inode_count hs i vs"
    by (simp_all add: vma_insert_def)
qed

lemma vma_size_unat: "begin_addr v \<le> end_addr v \<Longrightarrow> vma_size v = unat (end_addr v) - unat (begin_addr v)"
  by (simp add: vma_size_def unat_sub)

text \<open>Disjoint areas never add up to more than the address space.\<close>

lemma total_len_bound:
  "vmas_wf vs \<Longrightarrow> (\<And>v. v \<in> set vs \<Longrightarrow> b \<le> begin_addr v) \<Longrightarrow> total_len vs + unat b \<le> unat (- 1 :: u64)"
proof (induction vs arbitrary: b)
  case Nil
  then show ?case by (simp add: word_le_nat_alt [symmetric])
next
  case (Cons v vs)
  have "total_len vs + unat (end_addr v) \<le> unat (- 1 :: u64)"
    using Cons.prems(1) by (intro Cons.IH) (auto simp: vmas_wf_Cons)
  moreover have "begin_addr v < end_addr v" "b \<le> begin_addr v"
    using Cons.prems by (auto simp: vmas_wf_Cons)
  ultimately show ?case
    by (simp add: vma_size_unat word_less_nat_alt word_le_nat_alt)
qed

lemma unat_u64_less: "unat (x :: u64) < 2 ^ 64"
  by (rule order_less_le_trans [OF unsigned_less]) simp

lemma total_len_less: "vmas_wf vs \<Longrightarrow> total_len vs < 2 ^ 64"
  using total_len_bound [of vs 0] unat_u64_less [of "- 1"] by simp

section \<open>The invariant\<close>

definition vma_inv :: "handles \<Rightarrow> vma_state \<Rightarrow> bool" where
  "vma_inv hs st \<longleftrightarrow>
     vmas_wf (vma_tree st) \<and>
     unat (g_total_memory_size st) = total_len (vma_tree st) \<and>
     g_total_memory_size st \<le> g_peak_total_memory_size st \<and>
     (\<forall>h. handle_refs st h = file_count h (vma_tree st)) \<and>
     (\<forall>i. num_mmapped st i = inode_count hs i (vma_tree st)) \<and>
     asserts_hold st"

end
