(* ===== verification/Vma_Remove.thy ===== *)
theory Vma_Remove
  imports Vma_Tree
begin

text \<open>
  Removal of a range from the address space: the accounting of sizes and references, what
  \<open>_vma_bkeep_remove\<close> does to the map of addresses, and the invariant of \<open>bkeep_munmap\<close> and
  \<open>bkeep_mmap_fixed\<close>.
\<close>

section \<open>Accounting\<close>

text \<open>The references counted in a state are those of the areas \<open>vs\<close>.\<close>

definition refs_of :: "handles \<Rightarrow> libos_vma list \<Rightarrow> vma_state \<Rightarrow> bool" where
  "refs_of hs vs st \<longleftrightarrow>
     (\<forall>h. handle_refs st h = file_count h vs) \<and> (\<forall>i. num_mmapped st i = inode_count hs i vs)"

definition sized :: "nat \<Rightarrow> vma_state \<Rightarrow> bool" where
  "sized n st \<longleftrightarrow> unat (g_total_memory_size st) = n \<and> g_total_memory_size st \<le> g_peak_total_memory_size st"

lemma vma_inv_parts:
  "vma_inv hs st \<longleftrightarrow> vmas_wf (vma_tree st) \<and> sized (total_len (vma_tree st)) st \<and>
     refs_of hs (vma_tree st) st \<and> asserts_hold st"
  by (auto simp: vma_inv_def refs_of_def sized_def)

lemma vma_assert_True [simp]: "vma_assert True st = st"
  by (simp add: vma_assert_def)

lemma tree_update_parts [simp]:
  "refs_of hs vs (st\<lparr>vma_tree := t\<rparr>) = refs_of hs vs st"
  "sized n (st\<lparr>vma_tree := t\<rparr>) = sized n st"
  by (simp_all add: refs_of_def sized_def)

lemma get_file_parts [simp]:
  "vma_tree (get_file hs f st) = vma_tree st"
  "sized n (get_file hs f st) = sized n st"
  "asserts_hold (get_file hs f st) = asserts_hold st"
  by (simp_all add: get_file_def sized_def Let_def split: option.splits)

lemma get_file_refs: "refs_of hs vs st \<Longrightarrow> refs_of hs (v # vs) (get_file hs (vfile v) st)"
  by (auto simp: refs_of_def get_file_def Let_def split: option.splits)

lemma free_vma_parts [simp]:
  "vma_tree (free_vma hs v st) = vma_tree st"
  "sized n (free_vma hs v st) = sized n st"
  by (simp_all add: free_vma_def vma_assert_def sized_def Let_def split: option.splits)

lemma free_vma_refs:
  assumes "refs_of hs (v # vs) st"
  shows "refs_of hs vs (free_vma hs v st)" "asserts_hold (free_vma hs v st) = asserts_hold st"
proof -
  have refs: "\<And>h. handle_refs st h = file_count h (v # vs)" "\<And>i. num_mmapped st i = inode_count hs i (v # vs)"
    using assms by (simp_all only: refs_of_def)
  show "refs_of hs vs (free_vma hs v st)"
    by (auto simp: refs_of_def free_vma_def vma_assert_def Let_def refs split: option.splits)
  show "asserts_hold (free_vma hs v st) = asserts_hold st"
    by (auto simp: free_vma_def vma_assert_def Let_def refs split: option.splits)
qed

lemma free_list_parts [simp]:
  "vma_tree (free_vmas_freelist hs fs st) = vma_tree st"
  "sized n (free_vmas_freelist hs fs st) = sized n st"
  by (induction fs arbitrary: st) auto

lemma free_list_refs:
  "refs_of hs (fs @ vs) st \<Longrightarrow>
   refs_of hs vs (free_vmas_freelist hs fs st) \<and> asserts_hold (free_vmas_freelist hs fs st) = asserts_hold st"
  by (induction fs arbitrary: st) (auto dest: free_vma_refs)

lemma size_add_parts [simp]:
  "vma_tree (total_memory_size_add n st) = vma_tree st"
  "refs_of hs vs (total_memory_size_add n st) = refs_of hs vs st"
  "asserts_hold (total_memory_size_add n st) = asserts_hold st"
  by (simp_all add: total_memory_size_add_def refs_of_def Let_def)

lemma size_add_sized:
  "sized n st \<Longrightarrow> n + unat len < 2 ^ 64 \<Longrightarrow> sized (n + unat len) (total_memory_size_add len st)"
  by (auto simp: sized_def total_memory_size_add_def Let_def unat_word_ariths(1) not_less)

lemma size_sub_parts [simp]:
  "vma_tree (total_memory_size_sub n st) = vma_tree st"
  "refs_of hs vs (total_memory_size_sub n st) = refs_of hs vs st"
  by (simp_all add: total_memory_size_sub_def vma_assert_def refs_of_def)

lemma size_sub_sized:
  assumes "sized n st" "unat len \<le> n"
  shows "sized (n - unat len) (total_memory_size_sub len st)"
    "asserts_hold (total_memory_size_sub len st) = asserts_hold st"
proof -
  have le: "len \<le> g_total_memory_size st"
    using assms by (simp add: sized_def word_le_nat_alt)
  then have "g_total_memory_size st - len \<le> g_total_memory_size st"
    by (simp add: word_le_nat_alt unat_sub)
  with le assms(1) show "sized (n - unat len) (total_memory_size_sub len st)"
    by (auto simp: sized_def total_memory_size_sub_def vma_assert_def unat_sub)
  show "asserts_hold (total_memory_size_sub len st) = asserts_hold st"
    using le by (simp add: total_memory_size_sub_def vma_assert_def)
qed

lemma sub_sizes_parts [simp]:
  "vma_tree (sub_sizes ns st) = vma_tree st"
  "refs_of hs vs (sub_sizes ns st) = refs_of hs vs st"
  unfolding sub_sizes_def by (induction ns arbitrary: st) auto

lemma sub_sizes_sized:
  "sized n st \<Longrightarrow> sum_list (map unat ns) \<le> n \<Longrightarrow>
   sized (n - sum_list (map unat ns)) (sub_sizes ns st) \<and> asserts_hold (sub_sizes ns st) = asserts_hold st"
proof (induction ns arbitrary: n st)
  case (Cons len ns)
  then have "sized (n - unat len) (total_memory_size_sub len st)"
    "asserts_hold (total_memory_size_sub len st) = asserts_hold st"
    using size_sub_sized [of n st len] by simp_all
  then show ?case
    using Cons.IH [of "n - unat len" "total_memory_size_sub len st"] Cons.prems(2)
    by (simp add: sub_sizes_def)
qed (simp add: sub_sizes_def)

section \<open>The removal loop\<close>

definition trim_begin :: "libos_vma \<Rightarrow> u64 \<Rightarrow> libos_vma" where
  "trim_begin v e =
     v\<lparr>voffset := (if vfile v \<noteq> None then voffset v + (e - begin_addr v) else voffset v), begin_addr := e\<rparr>"

lemma trim_begin_parts [simp]:
  "begin_addr (trim_begin v e) = e" "end_addr (trim_begin v e) = end_addr v"
  "vfile (trim_begin v e) = vfile v" "vflags (trim_begin v e) = vflags v"
  "vma_view (trim_begin v e) a = vma_view v a"
  by (simp_all add: trim_begin_def vma_view_def)

lemma split_vma_parts [simp]:
  "begin_addr (split_vma v e) = e" "end_addr (split_vma v e) = end_addr v"
  "vfile (split_vma v e) = vfile v" "vflags (split_vma v e) = vflags v" "vprot (split_vma v e) = vprot v"
  "vma_view (split_vma v e) a = vma_view v a"
  by (simp_all add: split_vma_def vma_view_def)

lemma end_update_view [simp]: "vma_view (v\<lparr>end_addr := e\<rparr>) a = vma_view v a"
  by (simp add: vma_view_def)

lemma remove_loop_cases:
  "end_addr v \<le> e \<Longrightarrow> remove_loop e (v # vs) =
     (let (freed, sizes, rest) = remove_loop e vs
      in (v # freed, (end_addr v - begin_addr v) # sizes, rest))"
  "e < end_addr v \<Longrightarrow> begin_addr v < e \<Longrightarrow>
     remove_loop e (v # vs) = ([], [e - begin_addr v], trim_begin v e # vs)"
  "e < end_addr v \<Longrightarrow> e \<le> begin_addr v \<Longrightarrow> remove_loop e (v # vs) = ([], [], v # vs)"
  by (simp_all add: trim_begin_def less_le_not_le)

lemma remove_loop_consider:
  obtains (inside) "end_addr v \<le> e" | (trim) "e < end_addr v" "begin_addr v < e"
    | (after) "e < end_addr v" "e \<le> (begin_addr v :: u64)"
  by (meson not_less)

lemma size_trim:
  assumes "begin_addr v < e" "e < end_addr v"
  shows "unat (e - begin_addr v) + vma_size (trim_begin v e) = vma_size v"
    and "vma_size (v\<lparr>end_addr := e\<rparr>) + unat (end_addr v - e) = vma_size v"
  using assms by (auto simp: vma_size_def unat_sub word_less_nat_alt word_le_nat_alt)

lemma remove_loop_freed:
  "remove_loop e vs = (freed, sizes, kept) \<Longrightarrow>
   file_count h freed + file_count h kept = file_count h vs \<and>
   inode_count hs i freed + inode_count hs i kept = inode_count hs i vs"
  by (induction vs arbitrary: freed sizes kept) (auto split: if_splits prod.splits)

lemma remove_loop_sizes:
  "vmas_wf vs \<Longrightarrow> remove_loop e vs = (freed, sizes, kept) \<Longrightarrow>
   sum_list (map unat sizes) + total_len kept = total_len vs"
proof (induction vs arbitrary: freed sizes kept)
  case (Cons v vs)
  have wf: "vmas_wf vs" using Cons.prems(1) by (simp add: vmas_wf_Cons)
  show ?case
  proof (cases v e rule: remove_loop_consider)
    case inside
    obtain f s l where "remove_loop e vs = (f, s, l)" by (metis prod_cases3)
    then show ?thesis
      using Cons.IH [OF wf] Cons.prems(2) inside by (auto simp: vma_size_def)
  next
    case trim
    then show ?thesis
      using Cons.prems(2) size_trim(1) [of v e]
      by (auto simp: remove_loop_cases simp del: remove_loop.simps)
  next
    case after
    then show ?thesis using Cons.prems(2) by (auto simp: remove_loop_cases simp del: remove_loop.simps)
  qed
qed simp

lemma remove_loop_left:
  assumes "vmas_wf vs" "remove_loop e vs = (freed, sizes, kept)"
  shows "vmas_wf kept \<and> (\<forall>v \<in> set kept. e \<le> begin_addr v) \<and>
    mapped kept a = (if a < e then None else mapped vs a)"
  using assms
proof (induction vs arbitrary: freed sizes kept)
  case (Cons v vs)
  have wf: "vmas_wf vs" and area: "begin_addr v < end_addr v"
    and rest: "\<And>u. u \<in> set vs \<Longrightarrow> end_addr v \<le> begin_addr u"
    using Cons.prems(1) by (auto simp: vmas_wf_Cons)
  show ?case
  proof (cases v e rule: remove_loop_consider)
    case inside
    obtain f s l where l: "remove_loop e vs = (f, s, l)" by (metis prod_cases3)
    then have "kept = l" using Cons.prems(2) inside by simp
    moreover have "\<not> is_addr_in_vma a v" if "\<not> a < e"
      using that inside unfolding is_addr_in_vma_def by (safe; order)
    ultimately show ?thesis
      using Cons.IH [OF wf l] by (auto simp: mapped_Cons)
  next
    case trim
    then have kept: "kept = trim_begin v e # vs"
      using Cons.prems(2) by (simp add: remove_loop_cases del: remove_loop.simps)
    have above: "e \<le> begin_addr u" if "u \<in> set vs" for u
      using rest [OF that] trim by order
    have "mapped vs a = None" if "a < e"
      using above that by (rule mapped_above)
    then show ?thesis
      using wf rest trim above by (auto simp: kept vmas_wf_Cons mapped_Cons is_addr_in_vma_def)
  next
    case after
    then have kept: "kept = v # vs"
      using Cons.prems(2) by (simp add: remove_loop_cases del: remove_loop.simps)
    have above: "e \<le> begin_addr u" if "u \<in> set (v # vs)" for u
      using that after area rest [of u] by (cases "u = v") (simp, force)
    have "mapped (v # vs) a = None" if "a < e"
      using above that by (rule mapped_above)
    then show ?thesis using Cons.prems(1) above by (auto simp: kept)
  qed
qed simp

section \<open>Removing a range\<close>

text \<open>The map of addresses with the range taken out.\<close>

definition cut :: "u64 \<Rightarrow> u64 \<Rightarrow> (u64 \<Rightarrow> 'b option) \<Rightarrow> u64 \<Rightarrow> 'b option" where
  "cut b e f a = (if b \<le> a \<and> a < e then None else f a)"

lemma mapped_prefix:
  assumes "\<And>u. u \<in> set us \<Longrightarrow> end_addr u \<le> b" "mapped ws a = cut b e (mapped vs) a"
  shows "mapped (us @ ws) a = cut b e (mapped (us @ vs)) a"
proof (cases "a < b")
  case True
  then show ?thesis using assms(2) by (auto simp: cut_def mapped_append split: option.splits)
next
  case False
  then have "mapped us a = None"
    using assms(1) by (intro mapped_below [where b = b]) auto
  then show ?thesis using assms(2) by (auto simp: cut_def mapped_append split: option.splits)
qed

lemma remove_split_case:
  assumes "vmas_wf (us @ v # vs)" "\<And>u. u \<in> set us \<Longrightarrow> end_addr u \<le> b"
    and "begin_addr v < b" "b < e" "e < end_addr v"
  defines "new \<equiv> vma_insert (split_vma v e) (us @ v\<lparr>end_addr := b\<rparr> # vs)"
  shows "new = us @ v\<lparr>end_addr := b\<rparr> # split_vma v e # vs"
    "vmas_wf new" "mapped new a = cut b e (mapped (us @ v # vs)) a"
proof -
  let ?v = "v\<lparr>end_addr := b\<rparr>"
  have rest: "\<And>w. w \<in> set vs \<Longrightarrow> end_addr v \<le> begin_addr w" and wf: "vmas_wf vs" "vmas_wf us"
    and left: "\<And>u. u \<in> set us \<Longrightarrow> end_addr u \<le> begin_addr v" "\<And>u w. u \<in> set us \<Longrightarrow> w \<in> set vs \<Longrightarrow> end_addr u \<le> begin_addr w"
    using assms(1) by (auto simp: vmas_wf_append vmas_wf_Cons)
  have "vma_insert (split_vma v e) ((us @ [?v]) @ vs) = (us @ [?v]) @ split_vma v e # vs"
    using wf(1)
  proof (rule vma_insert_at)
    show "end_addr u \<le> begin_addr (split_vma v e)" if "u \<in> set (us @ [?v])" for u
      using that assms(2) [of u] assms(4) by auto
  qed (use assms(5) rest in auto)
  then show new: "new = us @ ?v # split_vma v e # vs" by (simp add: new_def)
  have ends: "end_addr u \<le> e" if "u \<in> set us" for u
    using assms(2) [OF that] assms(4) by order
  have begins: "b \<le> begin_addr w" if "w \<in> set vs" for w
    using rest [OF that] assms(4,5) by order
  show "vmas_wf new"
    unfolding new using wf rest left ends begins assms(3-5) by (auto simp: vmas_wf_append vmas_wf_Cons)
  have "mapped (?v # split_vma v e # vs) a = cut b e (mapped (v # vs)) a"
  proof -
    have "mapped vs a = None" if "a < e"
      using that assms(5) rest by (intro mapped_above [where e = "end_addr v"]) auto
    then show ?thesis
      using assms(3-5) by (auto simp: cut_def mapped_Cons is_addr_in_vma_def)
  qed
  then show "mapped new a = cut b e (mapped (us @ v # vs)) a"
    unfolding new using assms(2) by (intro mapped_prefix)
qed

lemma remove_shorten_case:
  assumes "vmas_wf (us @ v # vs)" "\<And>u. u \<in> set us \<Longrightarrow> end_addr u \<le> b"
    and "begin_addr v < b" "b < end_addr v" "end_addr v \<le> e" "remove_loop e vs = (freed, sizes, kept)"
  shows "vmas_wf (us @ v\<lparr>end_addr := b\<rparr> # kept)"
    "mapped (us @ v\<lparr>end_addr := b\<rparr> # kept) a = cut b e (mapped (us @ v # vs)) a"
proof -
  have rest: "\<And>w. w \<in> set vs \<Longrightarrow> end_addr v \<le> begin_addr w" and wf: "vmas_wf vs" "vmas_wf us"
    and before: "\<And>u. u \<in> set us \<Longrightarrow> end_addr u \<le> begin_addr v"
    using assms(1) by (auto simp: vmas_wf_append vmas_wf_Cons)
  note kept = remove_loop_left [OF wf(1) assms(6)]
  have begins: "b \<le> begin_addr w" "end_addr u \<le> begin_addr w" if "w \<in> set kept" "u \<in> set us" for w u
    using kept that assms(2) [OF that(2)] assms(4,5) by force+
  have "b \<le> begin_addr w" if "w \<in> set kept" for w
    using kept that assms(4,5) by force
  then show "vmas_wf (us @ v\<lparr>end_addr := b\<rparr> # kept)"
    using wf before begins kept assms(3) by (auto simp: vmas_wf_append vmas_wf_Cons)
  have "mapped (v\<lparr>end_addr := b\<rparr> # kept) a = cut b e (mapped (v # vs)) a"
  proof -
    have "mapped vs a = None" if "a < b"
      using that assms(4) rest by (intro mapped_above [where e = "end_addr v"]) auto
    then show ?thesis
      using assms(3-5) kept [of a] by (auto simp: cut_def mapped_Cons is_addr_in_vma_def)
  qed
  then show "mapped (us @ v\<lparr>end_addr := b\<rparr> # kept) a = cut b e (mapped (us @ v # vs)) a"
    using assms(2) by (intro mapped_prefix)
qed

lemma remove_drop_case:
  assumes "vmas_wf (us @ vs)" "\<And>u. u \<in> set us \<Longrightarrow> end_addr u \<le> b"
    and "\<And>v. v \<in> set vs \<Longrightarrow> b \<le> begin_addr v" "b < e" "remove_loop e vs = (freed, sizes, kept)"
  shows "vmas_wf (us @ kept)" "mapped (us @ kept) a = cut b e (mapped (us @ vs)) a"
proof -
  have wf: "vmas_wf vs" "vmas_wf us"
    using assms(1) by (auto simp: vmas_wf_append)
  note kept = remove_loop_left [OF wf(1) assms(5)]
  have "end_addr u \<le> begin_addr w" if "w \<in> set kept" "u \<in> set us" for w u
    using kept that assms(2) [OF that(2)] assms(4) by force
  then show "vmas_wf (us @ kept)"
    using wf kept by (auto simp: vmas_wf_append)
  have "mapped kept a = cut b e (mapped vs) a"
  proof -
    have "mapped vs a = None" if "a < b"
      using that assms(3) by (intro mapped_above [where e = b]) auto
    then show ?thesis using kept [of a] assms(4) by (auto simp: cut_def)
  qed
  then show "mapped (us @ kept) a = cut b e (mapped (us @ vs)) a"
    using assms(2) by (intro mapped_prefix)
qed

lemma bkeep_remove_error:
  assumes "vma_bkeep_remove hs b e intl new st = (Some err, used, freed, st')"
  shows "st' = st \<and> freed = [] \<and> \<not> used \<and> (err = EACCES \<or> err = ENOMEM \<and> \<not> new)"
  using assms
  by (auto simp: vma_bkeep_remove_def Let_def split: list.splits if_splits prod.splits)

text \<open>The cases in which a removal succeeds, with the list that results.\<close>

lemma bkeep_remove_ok_cases:
  assumes "vma_bkeep_remove hs b e intl new st = (None, used, freed, st')" "vmas_wf (vma_tree st)"
  obtains (nothing) "vmas_from b (vma_tree st) = []" "st' = st" "freed = []"
  | (split) us v rest where "vma_tree st = us @ v # rest" "\<And>u. u \<in> set us \<Longrightarrow> end_addr u \<le> b"
      "begin_addr v < b" "e < end_addr v" "freed = []"
      "st' = total_memory_size_sub (e - b) (get_file hs (vfile v)
         (st\<lparr>vma_tree := vma_insert (split_vma v e) (us @ v\<lparr>end_addr := b\<rparr> # rest)\<rparr>))"
  | (shorten) us v rest sizes kept where "vma_tree st = us @ v # rest"
      "\<And>u. u \<in> set us \<Longrightarrow> end_addr u \<le> b" "begin_addr v < b" "b < end_addr v" "end_addr v \<le> e"
      "remove_loop e rest = (freed, sizes, kept)"
      "st' = sub_sizes ((end_addr v - b) # sizes) (st\<lparr>vma_tree := us @ v\<lparr>end_addr := b\<rparr> # kept\<rparr>)"
  | (drop) us vs sizes kept where "vma_tree st = us @ vs" "\<And>u. u \<in> set us \<Longrightarrow> end_addr u \<le> b"
      "\<And>v. v \<in> set vs \<Longrightarrow> b \<le> begin_addr v" "remove_loop e vs = (freed, sizes, kept)"
      "st' = sub_sizes sizes (st\<lparr>vma_tree := us @ kept\<rparr>)"
proof (cases "vmas_from b (vma_tree st)")
  case Nil
  then have "st' = st" "freed = []" using assms(1) by (auto simp: vma_bkeep_remove_def)
  with Nil show ?thesis by (rule nothing)
next
  case (Cons v rest)
  let ?us = "vmas_below b (vma_tree st)"
  have tree: "vma_tree st = ?us @ v # rest" and ends: "\<And>u. u \<in> set ?us \<Longrightarrow> end_addr u \<le> b"
    using vmas_split [of b "vma_tree st"] vmas_below_end Cons by auto
  have end_v: "b < end_addr v" and wf: "vmas_wf (v # rest)"
    using vmas_from_end [OF assms(2), of v b] vmas_wf_split(2) [OF assms(2), of b] Cons by simp_all
  obtain f1 s1 k1 f2 s2 k2 where loops: "remove_loop e rest = (f1, s1, k1)"
    "remove_loop e (v # rest) = (f2, s2, k2)" by (metis prod_cases3)
  consider "begin_addr v < b" "e < end_addr v" | "begin_addr v < b" "end_addr v \<le> e"
    | "b \<le> begin_addr v" by (meson not_less)
  then show ?thesis
  proof cases
    case 1
    then show ?thesis
      using assms(1) Cons split [OF tree ends]
      by (auto simp: vma_bkeep_remove_def split: if_splits)
  next
    case 2
    then have "\<not> (begin_addr v < b \<and> e < end_addr v)" by auto
    with 2 show ?thesis
      using assms(1) Cons loops(1) shorten [OF tree ends 2(1) end_v 2(2)]
      by (auto simp: vma_bkeep_remove_def split: if_splits)
  next
    case 3
    then have "\<not> begin_addr v < b" by auto
    moreover have "b \<le> begin_addr u" if "u \<in> set (v # rest)" for u
      using that 3 vmas_wf_ends(3) [OF wf, of u] by fastforce
    ultimately show ?thesis
      using assms(1) Cons loops(2) drop [OF tree ends]
      by (auto simp: vma_bkeep_remove_def simp del: remove_loop.simps split: if_splits)
  qed
qed

lemma cut_empty:
  assumes "\<And>v. v \<in> set vs \<Longrightarrow> end_addr v \<le> b"
  shows "mapped vs a = cut b e (mapped vs) a"
proof (cases "b \<le> a")
  case True
  then have "mapped vs a = None" using assms by (intro mapped_below [where b = b]) auto
  then show ?thesis by (simp add: cut_def)
qed (simp add: cut_def)

lemma bkeep_remove_tree:
  assumes "vma_bkeep_remove hs b e intl new st = (None, used, freed, st')" "vmas_wf (vma_tree st)" "b < e"
  shows "vmas_wf (vma_tree st')" "mapped (vma_tree st') a = cut b e (mapped (vma_tree st)) a"
proof -
  have "vmas_wf (vma_tree st') \<and> mapped (vma_tree st') a = cut b e (mapped (vma_tree st)) a"
    using assms(1,2)
  proof (cases rule: bkeep_remove_ok_cases)
    case nothing
    then show ?thesis using assms(2) cut_empty [of "vma_tree st" b a e] vmas_from_Nil by auto
  next
    case (split us v rest)
    note wf = assms(2) [unfolded split(1)]
    show ?thesis
      using remove_split_case(2,3) [OF wf split(2,3) assms(3) split(4)] split(1,6) by simp
  next
    case (shorten us v rest sizes kept)
    note wf = assms(2) [unfolded shorten(1)]
    show ?thesis
      using remove_shorten_case [OF wf shorten(2-6)] shorten(1,7) by simp
  next
    case (drop us vs sizes kept)
    note wf = assms(2) [unfolded drop(1)]
    show ?thesis
      using remove_drop_case [OF wf drop(2,3) assms(3) drop(4)] drop(1,5) by simp
  qed
  then show "vmas_wf (vma_tree st')" "mapped (vma_tree st') a = cut b e (mapped (vma_tree st)) a" by auto
qed

lemma bkeep_remove_free:
  assumes "vma_bkeep_remove hs b e intl new st = (None, used, freed, st')" "vmas_wf (vma_tree st)" "b < e"
  shows "vma_free (vma_tree st') b e"
proof -
  note wf = bkeep_remove_tree(1) [OF assms]
  have "end_addr v \<le> b \<or> e \<le> begin_addr v" if v: "v \<in> set (vma_tree st')" for v
  proof (rule ccontr)
    assume overlap: "\<not> (end_addr v \<le> b \<or> e \<le> begin_addr v)"
    let ?a = "max b (begin_addr v)"
    have "begin_addr v < end_addr v" using wf v by (rule vmas_wf_area)
    then have "is_addr_in_vma ?a v" "b \<le> ?a" "?a < e"
      using overlap assms(3) by (auto simp: is_addr_in_vma_def not_le)
    moreover have "mapped (vma_tree st') ?a \<noteq> None"
      using v \<open>is_addr_in_vma ?a v\<close> by (auto simp: mapped_None)
    ultimately show False
      using bkeep_remove_tree(2) [OF assms, of ?a] by (simp add: cut_def)
  qed
  then show ?thesis by (simp add: vma_free_def)
qed

lemma refs_of_cong:
  assumes "refs_of hs vs st" "\<And>h. file_count h us = file_count h vs" "\<And>i. inode_count hs i us = inode_count hs i vs"
  shows "refs_of hs us st"
  using assms by (simp add: refs_of_def)

lemma bkeep_remove_refs:
  assumes "vma_bkeep_remove hs b e intl new st = (None, used, freed, st')" "vmas_wf (vma_tree st)"
    and "refs_of hs (xs @ vma_tree st) st"
  shows "refs_of hs (xs @ freed @ vma_tree st') st'"
  using assms(1,2)
proof (cases rule: bkeep_remove_ok_cases)
  case nothing
  then show ?thesis using assms(3) by simp
next
  case (split us v rest)
  have "refs_of hs (v # xs @ us @ v # rest) (get_file hs (vfile v) (st\<lparr>vma_tree := t\<rparr>))" for t
    using assms(3) split(1) by (intro get_file_refs) simp
  then show ?thesis
    unfolding split(6) size_sub_parts(2) by (rule refs_of_cong) (simp_all add: split(5))
next
  case (shorten us v rest sizes kept)
  have "refs_of hs (xs @ us @ v # rest) st'" using assms(3) shorten(1,7) by simp
  then show ?thesis
    using remove_loop_freed [OF shorten(6)] by (rule_tac refs_of_cong) (auto simp: shorten(7))
next
  case (drop us vs sizes kept)
  have "refs_of hs (xs @ us @ vs) st'" using assms(3) drop(1,5) by simp
  then show ?thesis
    using remove_loop_freed [OF drop(4)] by (rule_tac refs_of_cong) (auto simp: drop(5))
qed

lemma bkeep_remove_sized:
  assumes "vma_bkeep_remove hs b e intl new st = (None, used, freed, st')" "vmas_wf (vma_tree st)"
    and "sized (total_len (vma_tree st)) st" "b < e"
  shows "sized (total_len (vma_tree st')) st' \<and> asserts_hold st' = asserts_hold st"
  using assms(1,2)
proof (cases rule: bkeep_remove_ok_cases)
  case nothing
  then show ?thesis using assms(3) by simp
next
  case (split us v rest)
  have "begin_addr v < e" using split(3) assms(4) by order
  then have sz: "vma_size v = vma_size (v\<lparr>end_addr := b\<rparr>) + unat (e - b) + vma_size (split_vma v e)"
    using split(3,4) assms(4) by (auto simp: vma_size_def unat_sub word_less_nat_alt word_le_nat_alt)
  let ?st = "get_file hs (vfile v)
    (st\<lparr>vma_tree := vma_insert (split_vma v e) (us @ v\<lparr>end_addr := b\<rparr> # rest)\<rparr>)"
  have "sized (total_len (us @ v # rest)) ?st"
    using assms(3) split(1) by simp
  note sub = size_sub_sized [OF this, of "e - b"]
  have "unat (e - b) \<le> total_len (us @ v # rest)" using sz by simp
  with sub sz show ?thesis by (simp add: split(6) ac_simps)
next
  case (shorten us v rest sizes kept)
  have "vmas_wf rest" using assms(2) shorten(1) by (simp add: vmas_wf_append vmas_wf_Cons)
  note loop = remove_loop_sizes [OF this shorten(6), symmetric]
  have "vma_size v = vma_size (v\<lparr>end_addr := b\<rparr>) + unat (end_addr v - b)"
    using size_trim(2) [OF shorten(3,4)] by simp
  then show ?thesis
    unfolding shorten(7) using assms(3) shorten(1) loop
      sub_sizes_sized [of "total_len (us @ v # rest)" "st\<lparr>vma_tree := us @ v\<lparr>end_addr := b\<rparr> # kept\<rparr>" "(end_addr v - b) # sizes"]
    by simp
next
  case (drop us vs sizes kept)
  have "vmas_wf vs" using assms(2) drop(1) by (simp add: vmas_wf_append)
  note loop = remove_loop_sizes [OF this drop(4), symmetric]
  show ?thesis
    unfolding drop(5) using assms(3) drop(1) loop
      sub_sizes_sized [of "total_len (us @ vs)" "st\<lparr>vma_tree := us @ kept\<rparr>" sizes]
    by auto
qed

end
