(* ===== verification/Vma_Ops.thy ===== *)
theory Vma_Ops
  imports Vma_Remove
begin

text \<open>
  The operations that map and unmap: each keeps the invariant of the bookkeeping and changes the
  map of addresses exactly on its range.
\<close>

section \<open>Inserting an area\<close>

lemma vma_inv_wf: "vma_inv hs st \<Longrightarrow> vmas_wf (vma_tree st)"
  by (simp add: vma_inv_def)

lemma insert_area:
  assumes "vmas_wf (vma_tree st)" "vma_free (vma_tree st) (begin_addr v) (end_addr v)"
    and "begin_addr v < end_addr v" "sized (total_len (vma_tree st)) st" "refs_of hs (fs @ v # vma_tree st) st"
  defines "st' \<equiv> total_memory_size_add (end_addr v - begin_addr v)
    (st\<lparr>vma_tree := vma_insert v (vma_tree st)\<rparr>)"
  shows "vmas_wf (vma_tree st')" "sized (total_len (vma_tree st')) st'" "refs_of hs (fs @ vma_tree st') st'"
    "asserts_hold st' = asserts_hold st"
    "mapped (vma_tree st') a = (if is_addr_in_vma a v then Some (vma_view v a) else mapped (vma_tree st) a)"
proof -
  note ins = vma_insert_free [OF assms(1-3)]
  show "vmas_wf (vma_tree st')" using ins(2) by (simp add: st'_def)
  have "total_len (vma_tree st) + unat (end_addr v - begin_addr v) < 2 ^ 64"
    using total_len_less [OF ins(2)] by (simp add: vma_size_def)
  then have "sized (total_len (vma_tree st) + unat (end_addr v - begin_addr v)) st'"
    unfolding st'_def using assms(4) by (intro size_add_sized) simp_all
  then show "sized (total_len (vma_tree st')) st'"
    by (simp add: st'_def vma_size_def ac_simps)
  have "refs_of hs (fs @ v # vma_tree st) st'" using assms(5) by (simp add: st'_def)
  then show "refs_of hs (fs @ vma_tree st') st'"
    by (rule refs_of_cong) (simp_all add: st'_def)
  show "asserts_hold st' = asserts_hold st" by (simp add: st'_def)
  show "mapped (vma_tree st') a = (if is_addr_in_vma a v then Some (vma_view v a) else mapped (vma_tree st) a)"
    using ins(3) by (simp add: st'_def)
qed

lemma free_freed:
  assumes "vmas_wf (vma_tree st)" "sized (total_len (vma_tree st)) st" "refs_of hs (fs @ vma_tree st) st"
    "asserts_hold st"
  shows "vma_inv hs (free_vmas_freelist hs fs st)"
  using assms free_list_refs [of hs fs "vma_tree st" st] by (simp add: vma_inv_parts)

section \<open>Unmapping\<close>

lemma unmapped_vma_parts [simp]:
  "begin_addr (unmapped_vma b e) = b" "end_addr (unmapped_vma b e) = e" "vfile (unmapped_vma b e) = None"
  "vflags (unmapped_vma b e) = (VMA_INTERNAL OR VMA_UNMAPPED)"
  "vma_view (unmapped_vma b e) a = (PROT_NONE, VMA_INTERNAL OR VMA_UNMAPPED, None, 0)"
  by (simp_all add: unmapped_vma_def vma_view_def)

lemma munmap_error:
  assumes "bkeep_munmap pal hs m addr len intl st = (m', Inl err, st')"
  shows "st' = st \<and> (err = EINVAL \<or> err = ENOMEM \<or> err = EACCES)"
  using assms
  by (auto simp: bkeep_munmap_def Let_def split: if_splits prod.splits option.splits
           dest!: bkeep_remove_error)

lemma munmap_ok_cases:
  assumes "bkeep_munmap pal hs m addr len intl st = (m', Inr ptr, st')"
  obtains used freed new st1 where "ptr = addr" "len \<noteq> 0"
    "vma_bkeep_remove hs addr (addr + len) intl new st = (None, used, freed, st1)"
    "st' = free_vmas_freelist hs freed (add_unmapped_vma addr (addr + len) st1)"
  using assms
  by (auto simp: bkeep_munmap_def Let_def split: if_splits prod.splits option.splits)

lemma munmap_ok:
  assumes "bkeep_munmap pal hs m addr len intl st = (m', Inr ptr, st')" "vma_inv hs st" "addr < addr + len"
  shows "vma_inv hs st'" "ptr = addr"
    "unmapped_vma addr (addr + len) \<in> set (vma_tree st')"
    "mapped (vma_tree st') a =
       (if addr \<le> a \<and> a < addr + len then Some (PROT_NONE, VMA_INTERNAL OR VMA_UNMAPPED, None, 0)
        else mapped (vma_tree st) a)"
proof -
  let ?e = "addr + len" and ?v = "unmapped_vma addr (addr + len)"
  obtain used freed new st1 where
    remove: "vma_bkeep_remove hs addr ?e intl new st = (None, used, freed, st1)"
    and st': "st' = free_vmas_freelist hs freed (add_unmapped_vma addr ?e st1)" and ptr: "ptr = addr"
    using assms(1) by (rule munmap_ok_cases)
  have inv: "vmas_wf (vma_tree st)" "sized (total_len (vma_tree st)) st" "refs_of hs (vma_tree st) st" "asserts_hold st"
    using assms(2) by (simp_all add: vma_inv_parts)
  note tree = bkeep_remove_tree [OF remove inv(1) assms(3)]
  note sized = bkeep_remove_sized [OF remove inv(1,2) assms(3)]
  have "refs_of hs (freed @ vma_tree st1) st1"
    using bkeep_remove_refs [OF remove inv(1), of "[]"] inv(3) by simp
  then have refs: "refs_of hs (freed @ ?v # vma_tree st1) st1"
    by (rule refs_of_cong) simp_all
  have "vma_free (vma_tree st1) (begin_addr ?v) (end_addr ?v)" "begin_addr ?v < end_addr ?v"
    using bkeep_remove_free [OF remove inv(1) assms(3)] assms(3) by simp_all
  note ins = insert_area [OF tree(1) this conjunct1 [OF sized] refs]
  show "vma_inv hs st'"
    unfolding st' add_unmapped_vma_def using ins(1-4) sized inv(4) by (intro free_freed) simp_all
  show "ptr = addr" by (rule ptr)
  show "?v \<in> set (vma_tree st')"
    by (simp add: st' add_unmapped_vma_def vma_insert_def)
  show "mapped (vma_tree st') a =
       (if addr \<le> a \<and> a < ?e then Some (PROT_NONE, VMA_INTERNAL OR VMA_UNMAPPED, None, 0)
        else mapped (vma_tree st) a)"
    using ins(5) [of a] tree(2) [of a]
    by (simp add: st' add_unmapped_vma_def is_addr_in_vma_def cut_def)
qed

section \<open>The temporary area\<close>

lemma vma_node_at_unique:
  assumes "vmas_wf vs" "v \<in> set vs" "begin_addr v = ptr"
  shows "vma_node_at ptr vs = Some v"
  using assms
proof (induction vs)
  case (Cons u vs)
  show ?case
  proof (cases "v = u")
    case False
    then have "v \<in> set vs" using Cons.prems(2) by simp
    then have "begin_addr u \<noteq> ptr"
      using vmas_wf_ends(3) [OF Cons.prems(1), of v] Cons.prems(3) by auto
    then show ?thesis
      using Cons \<open>v \<in> set vs\<close> by (simp add: vma_node_at_def vmas_wf_Cons)
  qed (use Cons.prems in \<open>simp add: vma_node_at_def\<close>)
qed (simp)

lemma remove_area:
  assumes "vmas_wf (us @ v # vs)"
  shows "remove1 v (us @ v # vs) = us @ vs" "vmas_wf (us @ vs)"
    "mapped (us @ vs) a = cut (begin_addr v) (end_addr v) (mapped (us @ v # vs)) a"
proof -
  have "v \<notin> set us"
    using assms vmas_wf_area [OF assms, of v] by (auto simp: vmas_wf_append dest: leD)
  then show "remove1 v (us @ v # vs) = us @ vs" by (simp add: remove1_append)
  show "vmas_wf (us @ vs)" using assms by (simp add: vmas_wf_append vmas_wf_Cons)
  have "mapped vs a = cut (begin_addr v) (end_addr v) (mapped (v # vs)) a"
  proof -
    have "mapped vs a = None" if "a < end_addr v"
      using that assms by (intro mapped_above [where e = "end_addr v"]) (auto simp: vmas_wf_append vmas_wf_Cons)
    then show ?thesis by (auto simp: cut_def mapped_Cons is_addr_in_vma_def)
  qed
  then show "mapped (us @ vs) a = cut (begin_addr v) (end_addr v) (mapped (us @ v # vs)) a"
    using assms by (intro mapped_prefix) (auto simp: vmas_wf_append)
qed

lemma remove_tmp_ok:
  assumes "vma_inv hs st" "v \<in> set (vma_tree st)" "begin_addr v = ptr" "vflags v = (VMA_INTERNAL OR VMA_UNMAPPED)"
  shows "vma_inv hs (bkeep_remove_tmp_vma hs ptr st)"
    "mapped (vma_tree (bkeep_remove_tmp_vma hs ptr st)) a =
       cut (begin_addr v) (end_addr v) (mapped (vma_tree st)) a"
proof -
  have inv: "vmas_wf (vma_tree st)" "sized (total_len (vma_tree st)) st" "refs_of hs (vma_tree st) st" "asserts_hold st"
    using assms(1) by (simp_all add: vma_inv_parts)
  obtain us vs where tree: "vma_tree st = us @ v # vs"
    using assms(2) by (meson split_list)
  note rem = remove_area [OF inv(1) [unfolded tree]]
  let ?st1 = "total_memory_size_sub (end_addr v - begin_addr v) (st\<lparr>vma_tree := us @ vs\<rparr>)"
  have eq: "bkeep_remove_tmp_vma hs ptr st = free_vma hs v ?st1"
    using vma_node_at_unique [OF inv(1) assms(2,3)] inv(4) assms(4) rem(1)
    by (simp add: bkeep_remove_tmp_vma_def tree)
  have sz: "sized (total_len (us @ vs)) ?st1" "asserts_hold ?st1"
    using size_sub_sized [of "total_len (us @ v # vs)" "st\<lparr>vma_tree := us @ vs\<rparr>" "end_addr v - begin_addr v"]
      inv(2,4) tree by (simp_all add: vma_size_def)
  have "refs_of hs (us @ v # vs) ?st1" using inv(3) tree by simp
  then have "refs_of hs (v # us @ vs) ?st1" by (rule refs_of_cong) simp_all
  note refs = free_vma_refs [OF this]
  show "vma_inv hs (bkeep_remove_tmp_vma hs ptr st)"
    using rem(2) sz refs by (simp add: eq vma_inv_parts)
  show "mapped (vma_tree (bkeep_remove_tmp_vma hs ptr st)) a =
       cut (begin_addr v) (end_addr v) (mapped (vma_tree st)) a"
    using rem(3) by (simp add: eq tree)
qed

text \<open>In-place changes that keep the ranges, sizes and files of the areas.\<close>

lemma map_areas_inv:
  assumes "\<And>v. v \<in> set vs \<Longrightarrow> begin_addr (f v) = begin_addr v \<and> end_addr (f v) = end_addr v \<and> vfile (f v) = vfile v"
  shows "vmas_wf (map f vs) = vmas_wf vs" "total_len (map f vs) = total_len vs"
    "file_count h (map f vs) = file_count h vs" "inode_count hs i (map f vs) = inode_count hs i vs"
  using assms by (induction vs) (simp_all add: vmas_wf_Cons vma_size_def)

lemma convert_tmp_ok:
  assumes "vma_inv hs st" "v \<in> set (vma_tree st)" "begin_addr v = ptr" "vflags v = (VMA_INTERNAL OR VMA_UNMAPPED)"
  shows "vma_inv hs (bkeep_convert_tmp_vma_to_user ptr st)"
proof -
  let ?f = "\<lambda>u. if begin_addr u = ptr then u\<lparr>vflags := vflags u AND NOT VMA_INTERNAL\<rparr> else u"
  have eq: "bkeep_convert_tmp_vma_to_user ptr st = st\<lparr>vma_tree := map ?f (vma_tree st)\<rparr>"
    using assms vma_node_at_unique [OF vma_inv_wf [OF assms(1)] assms(2,3)]
    by (simp add: bkeep_convert_tmp_vma_to_user_def)
  have "begin_addr (?f u) = begin_addr u \<and> end_addr (?f u) = end_addr u \<and> vfile (?f u) = vfile u" for u
    by simp
  then show ?thesis
    using assms(1) map_areas_inv [of "vma_tree st" ?f] by (simp add: eq vma_inv_def)
qed

section \<open>Mapping at a fixed address\<close>

lemma fixed_vma_parts [simp]:
  "begin_addr (fixed_vma b e prot flags file offset comment) = b"
  "end_addr (fixed_vma b e prot flags file offset comment) = e"
  "vfile (fixed_vma b e prot flags file offset comment) = file"
  "vflags (fixed_vma b e prot flags file offset comment) = new_vma_flags prot flags file"
  "vma_view (fixed_vma b e prot flags file offset comment) a =
     (prot, new_vma_flags prot flags file, file, if file \<noteq> None then offset + (a - b) else 0)"
  by (auto simp: fixed_vma_def vma_view_def)

lemma lookup_free:
  assumes "vmas_wf vs" "b < e"
  shows "(case lookup_vma_node b vs of None \<Rightarrow> True | Some v \<Rightarrow> e \<le> begin_addr v) \<longleftrightarrow> vma_free vs b e"
proof (cases "vmas_from b vs")
  case Nil
  then show ?thesis
    using vmas_from_Nil [of b vs] by (auto simp: lookup_vma_node_def vma_free_def)
next
  case (Cons v rest)
  have tree: "vs = vmas_below b vs @ v # rest" using vmas_split [of b vs] Cons by simp
  have "b < end_addr v" and wf: "vmas_wf (v # rest)"
    using vmas_from_end [OF assms(1), of v b] vmas_wf_split(2) [OF assms(1), of b] Cons by simp_all
  have "vma_free vs b e" if le: "e \<le> begin_addr v"
  proof -
    have "e \<le> begin_addr u" if "u \<in> set (v # rest)" for u
      using that le vmas_wf_ends(3) [OF wf, of u] by fastforce
    moreover have "u \<in> set (vmas_below b vs) \<or> u \<in> set (v # rest)" if "u \<in> set vs" for u
      using that tree by (metis Un_iff set_append)
    ultimately show ?thesis
      using vmas_below_end [of _ b vs] by (auto simp: vma_free_def)
  qed
  moreover have "v \<in> set vs" using tree by (metis in_set_conv_decomp)
  ultimately show ?thesis
    using \<open>b < end_addr v\<close> Cons by (auto simp: lookup_vma_node_def vma_free_def)
qed

lemma make_room_error:
  "make_room hs b e flags vma1 st = (Some err, freed, st') \<Longrightarrow> st' = st \<and> freed = []"
  by (auto simp: make_room_def split: if_splits option.splits prod.splits dest!: bkeep_remove_error)

lemma make_room_ok:
  assumes "make_room hs b e flags vma1 st = (None, freed, st')" "vmas_wf (vma_tree st)" "b < e"
    "sized (total_len (vma_tree st)) st" "refs_of hs (xs @ vma_tree st) st"
  shows "vmas_wf (vma_tree st')" "vma_free (vma_tree st') b e" "sized (total_len (vma_tree st')) st'"
    "refs_of hs (xs @ freed @ vma_tree st') st'" "asserts_hold st' = asserts_hold st"
    "mapped (vma_tree st') a = cut b e (mapped (vma_tree st)) a"
proof -
  have "vmas_wf (vma_tree st') \<and> vma_free (vma_tree st') b e \<and> sized (total_len (vma_tree st')) st' \<and>
    refs_of hs (xs @ freed @ vma_tree st') st' \<and> asserts_hold st' = asserts_hold st \<and>
    mapped (vma_tree st') a = cut b e (mapped (vma_tree st)) a"
  proof (cases "has_flag flags MAP_FIXED_NOREPLACE")
    case True
    then have st: "st' = st" "freed = []"
      and "case lookup_vma_node b (vma_tree st) of None \<Rightarrow> True | Some v \<Rightarrow> e \<le> begin_addr v"
      using assms(1) by (auto simp: make_room_def split: option.splits if_splits)
    then have free: "vma_free (vma_tree st) b e"
      using lookup_free [OF assms(2,3)] by simp
    have "mapped (vma_tree st) a = cut b e (mapped (vma_tree st)) a"
    proof (cases "b \<le> a \<and> a < e")
      case True
      then have "\<not> is_addr_in_vma a v" if "v \<in> set (vma_tree st)" for v
        using free that by (force simp: vma_free_def is_addr_in_vma_def)
      then show ?thesis by (simp add: cut_def mapped_None)
    qed (auto simp: cut_def)
    with st free assms show ?thesis by simp
  next
    case False
    then obtain used where remove:
      "vma_bkeep_remove hs b e (has_flag flags VMA_INTERNAL) vma1 st = (None, used, freed, st')"
      using assms(1) by (auto simp: make_room_def split: prod.splits)
    show ?thesis
      using bkeep_remove_tree [OF remove assms(2,3)] bkeep_remove_free [OF remove assms(2,3)]
        bkeep_remove_sized [OF remove assms(2,4,3)] bkeep_remove_refs [OF remove assms(2,5)] by simp
  qed
  then show "vmas_wf (vma_tree st')" "vma_free (vma_tree st') b e" "sized (total_len (vma_tree st')) st'"
    "refs_of hs (xs @ freed @ vma_tree st') st'" "asserts_hold st' = asserts_hold st"
    "mapped (vma_tree st') a = cut b e (mapped (vma_tree st)) a" by auto
qed

lemma mmap_fixed_cases:
  assumes "bkeep_mmap_fixed pal hs m addr len prot flags file offset comment st = (m', ret, st')"
  obtains (early) err where "ret = Some err" "st' = st"
  | (error) err where "ret = Some err"
      "st' = free_vma hs (fixed_vma addr (addr + len) prot flags file offset comment) (get_file hs file st)"
  | (ok) vma1 freed st2 where "ret = None"
      "make_room hs addr (addr + len) flags vma1 (get_file hs file st) = (None, freed, st2)"
      "st' = free_vmas_freelist hs freed
         (total_memory_size_add (addr + len - addr)
           (st2\<lparr>vma_tree := vma_insert (fixed_vma addr (addr + len) prot flags file offset comment)
              (vma_tree st2)\<rparr>))"
  using assms
  by (auto simp: bkeep_mmap_fixed_def Let_def split: if_splits prod.splits option.splits
           dest!: make_room_error)

lemma mmap_fixed_ok:
  assumes "bkeep_mmap_fixed pal hs m addr len prot flags file offset comment st = (m', None, st')"
    and "vma_inv hs st" "addr < addr + len"
  shows "vma_inv hs st'"
    "mapped (vma_tree st') a =
       (if addr \<le> a \<and> a < addr + len
        then Some (prot, new_vma_flags prot flags file, file, if file \<noteq> None then offset + (a - addr) else 0)
        else mapped (vma_tree st) a)"
proof -
  let ?e = "addr + len"
  let ?v = "fixed_vma addr ?e prot flags file offset comment"
  obtain vma1 freed st2 where
    room: "make_room hs addr ?e flags vma1 (get_file hs file st) = (None, freed, st2)"
    and st': "st' = free_vmas_freelist hs freed (total_memory_size_add (?e - addr)
      (st2\<lparr>vma_tree := vma_insert ?v (vma_tree st2)\<rparr>))"
    using assms(1) by (cases rule: mmap_fixed_cases) simp_all
  have inv: "vmas_wf (vma_tree st)" "sized (total_len (vma_tree st)) st" "refs_of hs (vma_tree st) st" "asserts_hold st"
    using assms(2) by (simp_all add: vma_inv_parts)
  have "refs_of hs ([?v] @ vma_tree (get_file hs file st)) (get_file hs file st)"
    using get_file_refs [OF inv(3), of ?v] by simp
  note room_ok = make_room_ok [OF room _ assms(3) _ this]
  have tree: "vmas_wf (vma_tree st2)" "vma_free (vma_tree st2) (begin_addr ?v) (end_addr ?v)"
    "begin_addr ?v < end_addr ?v" "sized (total_len (vma_tree st2)) st2" "asserts_hold st2"
    using room_ok(1,2,3,5) inv assms(3) by simp_all
  have "refs_of hs ([?v] @ freed @ vma_tree st2) st2"
    using room_ok(4) inv by simp
  then have "refs_of hs (freed @ ?v # vma_tree st2) st2" by (rule refs_of_cong) simp_all
  note ins = insert_area [OF tree(1-4) this]
  show "vma_inv hs st'"
    unfolding st' using ins(1-4) tree(5) by (intro free_freed) simp_all
  show "mapped (vma_tree st') a =
       (if addr \<le> a \<and> a < addr + len
        then Some (prot, new_vma_flags prot flags file, file, if file \<noteq> None then offset + (a - addr) else 0)
        else mapped (vma_tree st) a)"
    using ins(5) [of a] room_ok(6) [of a] inv
    by (simp add: st' is_addr_in_vma_def cut_def)
qed

lemma free_after_get:
  assumes "vma_inv hs st" "vfile v = f"
  shows "vma_inv hs (free_vma hs v (get_file hs f st))" "vma_tree (free_vma hs v (get_file hs f st)) = vma_tree st"
  using assms get_file_refs [of hs "vma_tree st" st v] free_vma_refs [of hs v "vma_tree st" "get_file hs f st"]
  by (simp_all add: vma_inv_parts)

lemma mmap_fixed_error:
  assumes "bkeep_mmap_fixed pal hs m addr len prot flags file offset comment st = (m', Some err, st')"
    and "vma_inv hs st"
  shows "vma_inv hs st' \<and> vma_tree st' = vma_tree st"
  using assms(1)
proof (cases rule: mmap_fixed_cases)
  case (error err')
  then show ?thesis by (simp add: free_after_get [OF assms(2)])
qed (use assms(2) in simp_all)

end
