(* ===== verification/Vma_Search.thy ===== *)
theory Vma_Search
  imports Vma_Ops
begin

text \<open>
  The search for a free range: \<open>bkeep_mmap_any_in_range\<close> returns the highest free range of the
  wanted length inside its limits, and fails only when there is none.
\<close>

lemma sub_le_iff: "(b :: u64) \<le> y \<Longrightarrow> len \<le> y - b \<longleftrightarrow> len \<le> y \<and> b \<le> y - len"
  by (auto simp: word_le_nat_alt unat_sub)

lemma sub_mono: "(b :: u64) \<le> y \<Longrightarrow> y \<le> m \<Longrightarrow> y - b \<le> m - b"
  by (auto simp: word_le_nat_alt unat_sub)

lemma sub_less_self: "0 < (len :: u64) \<Longrightarrow> len \<le> y \<Longrightarrow> y - len < y"
  by (auto simp: word_less_nat_alt word_le_nat_alt unat_sub)

text \<open>\<open>y\<close> is the end of a free range of the length inside the limits.\<close>

definition fits :: "u64 \<Rightarrow> u64 \<Rightarrow> u64 \<Rightarrow> libos_vma list \<Rightarrow> u64 \<Rightarrow> bool" where
  "fits bottom len max_addr vs y \<longleftrightarrow>
     y \<le> max_addr \<and> bottom \<le> y \<and> len \<le> y - bottom \<and> vma_free vs (y - len) y"

lemma fits_whole:
  assumes "\<And>u. u \<in> set us \<Longrightarrow> end_addr u \<le> z" "z \<le> max_addr - len" "bottom \<le> max_addr" "len \<le> max_addr - bottom"
  shows "fits bottom len max_addr us max_addr \<and> (\<forall>y. fits bottom len max_addr us y \<longrightarrow> y \<le> max_addr)"
  using assms by (fastforce simp: fits_def vma_free_def)

lemma fits_none:
  assumes "\<not> (bottom \<le> max_addr \<and> len \<le> max_addr - bottom)"
  shows "\<not> fits bottom len max_addr us y"
  using assms sub_mono [of bottom y max_addr] by (auto simp: fits_def)

lemma fits_step:
  assumes "begin_addr v < end_addr v" "end_addr v \<le> max_addr" "\<not> len \<le> max_addr - end_addr v"
  shows "fits bottom len max_addr (us @ [v]) y \<longleftrightarrow> fits bottom len (begin_addr v) us y"
proof
  assume f: "fits bottom len max_addr (us @ [v]) y"
  then have len: "len \<le> y" "bottom \<le> y - len"
    using sub_le_iff [of bottom y len] by (auto simp: fits_def)
  have "\<not> end_addr v \<le> y - len"
  proof
    assume le: "end_addr v \<le> y - len"
    have "y - len \<le> y" using len(1) by (simp add: word_le_nat_alt unat_sub)
    then have "end_addr v \<le> y" using le by order
    then have "len \<le> y - end_addr v" using le len(1) sub_le_iff [of "end_addr v" y len] by blast
    moreover have "y - end_addr v \<le> max_addr - end_addr v"
      using \<open>end_addr v \<le> y\<close> f by (intro sub_mono) (auto simp: fits_def)
    ultimately show False using assms(3) by order
  qed
  then show "fits bottom len (begin_addr v) us y"
    using f by (auto simp: fits_def vma_free_def)
next
  assume f: "fits bottom len (begin_addr v) us y"
  have "begin_addr v \<le> max_addr" using assms(1,2) by order
  then show "fits bottom len max_addr (us @ [v]) y"
    using f by (auto simp: fits_def vma_free_def)
qed

lemma find_gap_best:
  assumes "vmas_wf us" "\<And>u. u \<in> set us \<Longrightarrow> end_addr u \<le> max_addr" "0 < len"
  shows "case find_gap bottom len max_addr (rev us) of
      None \<Rightarrow> \<forall>y. \<not> fits bottom len max_addr us y
    | Some e \<Rightarrow> fits bottom len max_addr us e \<and> (\<forall>y. fits bottom len max_addr us y \<longrightarrow> y \<le> e)"
  using assms
proof (induction us arbitrary: max_addr rule: rev_induct)
  case Nil
  then show ?case
    using fits_none [of bottom max_addr len "[]"] fits_whole [of "[]" "max_addr - len" max_addr len bottom] by auto
next
  case (snoc v us)
  have v: "begin_addr v < end_addr v" "end_addr v \<le> max_addr" and wf: "vmas_wf us"
    and before: "\<And>u. u \<in> set us \<Longrightarrow> end_addr u \<le> begin_addr v"
    using snoc.prems by (auto simp: vmas_wf_append vmas_wf_Cons)
  have ends: "end_addr u \<le> end_addr v" if "u \<in> set (us @ [v])" for u
    using that before [of u] v(1) by auto
  consider (here) "bottom \<le> end_addr v" "len \<le> max_addr - end_addr v"
    | (lower) "bottom \<le> end_addr v" "\<not> len \<le> max_addr - end_addr v" | (stop) "\<not> bottom \<le> end_addr v" by blast
  then show ?case
  proof cases
    case here
    have "end_addr v \<le> max_addr - len" "len \<le> max_addr"
      using here(2) sub_le_iff [OF v(2)] by blast+
    moreover have "bottom \<le> max_addr" using here(1) v(2) by order
    moreover have "len \<le> max_addr - bottom"
    proof -
      have "bottom \<le> max_addr - len" using here(1) calculation(1) by order
      then show ?thesis using \<open>bottom \<le> max_addr\<close> calculation(2) sub_le_iff [of bottom max_addr len] by blast
    qed
    ultimately show ?thesis
      using fits_whole [of "us @ [v]" "end_addr v" max_addr len bottom, OF ends] here by simp
  next
    case lower
    then have eq: "find_gap bottom len max_addr (rev (us @ [v])) = find_gap bottom len (begin_addr v) (rev us)"
      by simp
    show ?thesis
      unfolding eq fits_step [OF v lower(2)] by (rule snoc.IH [OF wf before snoc.prems(3)])
  next
    case stop
    show ?thesis
    proof (cases "bottom \<le> max_addr \<and> len \<le> max_addr - bottom")
      case True
      then have "bottom \<le> max_addr - len" using sub_le_iff [of bottom max_addr len] by blast
      then have "end_addr v \<le> max_addr - len" using stop by order
      then show ?thesis
        using fits_whole [of "us @ [v]" "end_addr v" max_addr len bottom, OF ends] True stop by simp
    next
      case False
      then show ?thesis using fits_none [OF False] stop by auto
    qed
  qed
qed

text \<open>The same in the whole tree: the areas above the upper limit do not matter.\<close>

definition upper_limit :: "u64 \<Rightarrow> libos_vma list \<Rightarrow> u64" where
  "upper_limit top_addr vs =
     (case lookup_vma_node top_addr vs of None \<Rightarrow> top_addr | Some v \<Rightarrow> min top_addr (begin_addr v))"

lemma upper_limit_below:
  assumes "vmas_wf vs" "u \<in> set (vmas_below top_addr vs)"
  shows "end_addr u \<le> upper_limit top_addr vs"
proof (cases "vmas_from top_addr vs")
  case Nil
  then show ?thesis
    using vmas_below_end [OF assms(2)] by (simp add: upper_limit_def lookup_vma_node_def)
next
  case (Cons v rest)
  then have "end_addr u \<le> begin_addr v"
    using vmas_wf_split(3) [OF assms(1), of u top_addr v] assms(2) by simp
  then show ?thesis
    using vmas_below_end [OF assms(2)] Cons by (simp add: upper_limit_def lookup_vma_node_def)
qed

lemma fits_upper_limit:
  assumes "vmas_wf vs" "0 < len"
  shows "fits bottom len top_addr vs y \<longleftrightarrow>
    fits bottom len (upper_limit top_addr vs) (vmas_below top_addr vs) y"
proof (cases "vmas_from top_addr vs")
  case Nil
  then show ?thesis
    using vmas_split [of top_addr vs] by (simp add: upper_limit_def lookup_vma_node_def)
next
  case (Cons v rest)
  have limit: "upper_limit top_addr vs = min top_addr (begin_addr v)"
    using Cons by (simp add: upper_limit_def lookup_vma_node_def)
  have tree: "set vs = set (vmas_below top_addr vs) \<union> set (v # rest)"
    using vmas_split [of top_addr vs] Cons by (metis set_append)
  have "top_addr < end_addr v" and wf: "vmas_wf (v # rest)"
    using vmas_from_end [OF assms(1), of v top_addr] vmas_wf_split(2) [OF assms(1), of top_addr] Cons by simp_all
  show ?thesis
  proof
    assume f: "fits bottom len top_addr vs y"
    then have "len \<le> y" "y \<le> top_addr"
      using sub_le_iff [of bottom y len] by (auto simp: fits_def)
    then have "y - len < y" using assms(2) by (intro sub_less_self)
    then have "\<not> end_addr v \<le> y - len"
      using \<open>top_addr < end_addr v\<close> \<open>y \<le> top_addr\<close> by order
    then have "y \<le> begin_addr v"
      using f tree by (auto simp: fits_def vma_free_def)
    then show "fits bottom len (upper_limit top_addr vs) (vmas_below top_addr vs) y"
      using f tree by (auto simp: fits_def vma_free_def limit)
  next
    assume f: "fits bottom len (upper_limit top_addr vs) (vmas_below top_addr vs) y"
    then have "y \<le> begin_addr v" by (simp add: fits_def limit)
    then have "y \<le> begin_addr u" if "u \<in> set (v # rest)" for u
      using that vmas_wf_ends(3) [OF wf, of u] by fastforce
    then show "fits bottom len top_addr vs y"
      using f tree by (auto simp: fits_def vma_free_def limit)
  qed
qed

lemma search_best:
  assumes "vmas_wf vs" "0 < len"
  shows "case find_gap bottom len (upper_limit top_addr vs) (rev (vmas_below top_addr vs)) of
      None \<Rightarrow> \<forall>y. \<not> fits bottom len top_addr vs y
    | Some e \<Rightarrow> fits bottom len top_addr vs e \<and> (\<forall>y. fits bottom len top_addr vs y \<longrightarrow> y \<le> e)"
  unfolding fits_upper_limit [OF assms, of bottom top_addr]
  using vmas_wf_split(1) [OF assms(1)] upper_limit_below [OF assms(1)] assms(2) by (rule find_gap_best)

section \<open>Mapping anywhere\<close>

lemma mmap_any_cases:
  assumes "bkeep_mmap_any_in_range pal hs m bottom0 top0 len prot flags file offset comment st = (m', res, st')"
  obtains (early) err where "res = Inl err" "st' = st"
  | (full) bottom top_addr where "res = Inl ENOMEM" "0 < len" "clip_range pal flags bottom0 top0 = Some (bottom, top_addr)"
      "find_gap bottom len (upper_limit top_addr (vma_tree st)) (rev (vmas_below top_addr (vma_tree st))) = None"
      "st' = free_vma hs (fixed_vma 0 0 prot flags file offset comment) (get_file hs file st)"
  | (ok) bottom top_addr e where "res = Inr (e - len)" "0 < len" "clip_range pal flags bottom0 top0 = Some (bottom, top_addr)"
      "find_gap bottom len (upper_limit top_addr (vma_tree st)) (rev (vmas_below top_addr (vma_tree st))) = Some e"
      "st' = total_memory_size_add (e - (e - len))
         ((get_file hs file st)\<lparr>vma_tree := vma_insert (fixed_vma (e - len) e prot flags file offset comment)
            (vma_tree (get_file hs file st))\<rparr>)"
proof -
  have fixed: "(fixed_vma 0 0 prot flags file offset comment)\<lparr>begin_addr := b, end_addr := e\<rparr> =
    fixed_vma b e prot flags file offset comment" for b e
    by (simp add: fixed_vma_def)
  show ?thesis
  proof (cases "len = 0 \<or> \<not> is_alloc_aligned pal len \<or> \<not> is_alloc_aligned pal bottom0 \<or>
      \<not> is_alloc_aligned pal top0 \<or> clip_range pal flags bottom0 top0 = None \<or> \<not> fst (malloc m)")
    case True
    then have "\<exists>err. res = Inl err \<and> st' = st"
      using assms by (auto simp: bkeep_mmap_any_in_range_def split: if_splits prod.splits option.splits)
    then show ?thesis using early by blast
  next
    case False
    then obtain bottom top_addr where clip: "clip_range pal flags bottom0 top0 = Some (bottom, top_addr)"
      by auto
    have len: "0 < len" using False by (simp add: word_neq_0_conv)
    have "(case find_gap bottom len (upper_limit top_addr (vma_tree st)) (rev (vmas_below top_addr (vma_tree st))) of
        None \<Rightarrow> (m', res, st') = (snd (malloc m), Inl ENOMEM,
          free_vma hs (fixed_vma 0 0 prot flags file offset comment) (get_file hs file st))
      | Some e \<Rightarrow> (m', res, st') = (snd (malloc m), Inr (e - len), total_memory_size_add (e - (e - len))
         ((get_file hs file st)\<lparr>vma_tree := vma_insert (fixed_vma (e - len) e prot flags file offset comment)
            (vma_tree (get_file hs file st))\<rparr>)))"
      using assms False clip unfolding bkeep_mmap_any_in_range_def upper_limit_def
      by (simp add: Let_def fixed split: prod.splits option.splits)
    then show ?thesis
      using full [OF _ len clip] ok [OF _ len clip] by (auto split: option.splits)
  qed
qed

text \<open>Free ranges by their begin, as callers see them.\<close>

definition free_range :: "u64 \<Rightarrow> u64 \<Rightarrow> u64 \<Rightarrow> libos_vma list \<Rightarrow> u64 \<Rightarrow> bool" where
  "free_range bottom top_addr len vs x \<longleftrightarrow>
     bottom \<le> x \<and> x < x + len \<and> x + len \<le> top_addr \<and> vma_free vs x (x + len)"

lemma free_range_fits:
  assumes "0 < len"
  shows "free_range bottom top_addr len vs x \<Longrightarrow> fits bottom len top_addr vs (x + len)"
    "fits bottom len top_addr vs y \<Longrightarrow> free_range bottom top_addr len vs (y - len)"
proof -
  assume f: "free_range bottom top_addr len vs x"
  then have "bottom \<le> x + len" "unat (x + len) = unat x + unat len"
    using unat_add_no_wrap [of x len] by (auto simp: free_range_def)
  then have "bottom \<le> x + len" "len \<le> x + len" by (auto simp: word_le_nat_alt)
  then show "fits bottom len top_addr vs (x + len)"
    using f sub_le_iff [of bottom "x + len" len] by (simp add: fits_def free_range_def)
next
  assume f: "fits bottom len top_addr vs y"
  then have "len \<le> y" "bottom \<le> y - len" using sub_le_iff [of bottom y len] by (auto simp: fits_def)
  then show "free_range bottom top_addr len vs (y - len)"
    using f sub_less_self [OF assms, of y] by (simp add: fits_def free_range_def)
qed

lemma mmap_any_ok:
  assumes "bkeep_mmap_any_in_range pal hs m bottom0 top0 len prot flags file offset comment st = (m', Inr addr, st')"
    and "vma_inv hs st"
  shows "vma_inv hs st'"
    "mapped (vma_tree st') a =
       (if addr \<le> a \<and> a < addr + len
        then Some (prot, new_vma_flags prot flags file, file, if file \<noteq> None then offset + (a - addr) else 0)
        else mapped (vma_tree st) a)"
    "\<exists>bottom top_addr. clip_range pal flags bottom0 top0 = Some (bottom, top_addr) \<and>
       free_range bottom top_addr len (vma_tree st) addr \<and>
       (\<forall>x. free_range bottom top_addr len (vma_tree st) x \<longrightarrow> x \<le> addr)"
proof -
  obtain bottom top_addr e where addr: "addr = e - len" and len: "0 < len"
    and clip: "clip_range pal flags bottom0 top0 = Some (bottom, top_addr)"
    and gap: "find_gap bottom len (upper_limit top_addr (vma_tree st)) (rev (vmas_below top_addr (vma_tree st))) = Some e"
    and st': "st' = total_memory_size_add (e - (e - len))
         ((get_file hs file st)\<lparr>vma_tree := vma_insert (fixed_vma (e - len) e prot flags file offset comment)
            (vma_tree (get_file hs file st))\<rparr>)"
    using assms(1) by (cases rule: mmap_any_cases) simp_all
  have inv: "vmas_wf (vma_tree st)" "sized (total_len (vma_tree st)) st" "refs_of hs (vma_tree st) st" "asserts_hold st"
    using assms(2) by (simp_all add: vma_inv_parts)
  have best: "fits bottom len top_addr (vma_tree st) e" "\<And>y. fits bottom len top_addr (vma_tree st) y \<Longrightarrow> y \<le> e"
    using search_best [OF inv(1) len, where bottom = bottom and top_addr = top_addr] gap by auto
  have free: "free_range bottom top_addr len (vma_tree st) addr"
    using free_range_fits(2) [OF len best(1)] addr by simp
  have "x \<le> addr" if "free_range bottom top_addr len (vma_tree st) x" for x
  proof -
    have "x + len \<le> e" using best(2) free_range_fits(1) [OF len that] by simp
    moreover have "unat (x + len) = unat x + unat len"
      using that by (intro unat_add_no_wrap) (auto simp: free_range_def)
    moreover have "len \<le> e"
      using best(1) sub_le_iff [of bottom e len] by (auto simp: fits_def)
    ultimately have "unat x + unat len \<le> unat e" "unat (e - len) = unat e - unat len"
      by (simp_all add: word_le_nat_alt unat_sub)
    then show ?thesis using addr by (simp add: word_le_nat_alt)
  qed
  with clip free show "\<exists>bottom top_addr. clip_range pal flags bottom0 top0 = Some (bottom, top_addr) \<and>
       free_range bottom top_addr len (vma_tree st) addr \<and>
       (\<forall>x. free_range bottom top_addr len (vma_tree st) x \<longrightarrow> x \<le> addr)" by blast
  let ?v = "fixed_vma addr (addr + len) prot flags file offset comment" and ?st = "get_file hs file st"
  have st'': "st' = total_memory_size_add (end_addr ?v - begin_addr ?v) (?st\<lparr>vma_tree := vma_insert ?v (vma_tree ?st)\<rparr>)"
    by (simp add: st' addr)
  have "vmas_wf (vma_tree ?st)" "vma_free (vma_tree ?st) (begin_addr ?v) (end_addr ?v)" "begin_addr ?v < end_addr ?v"
    "sized (total_len (vma_tree ?st)) ?st" "refs_of hs ([] @ ?v # vma_tree ?st) ?st"
    using inv free get_file_refs [OF inv(3), of ?v] by (simp_all add: free_range_def)
  note ins = insert_area [OF this, folded st'']
  show "vma_inv hs st'" using ins(1-4) inv(4) by (simp add: vma_inv_parts)
  show "mapped (vma_tree st') a =
       (if addr \<le> a \<and> a < addr + len
        then Some (prot, new_vma_flags prot flags file, file, if file \<noteq> None then offset + (a - addr) else 0)
        else mapped (vma_tree st) a)"
    using ins(5) [of a] by (simp add: is_addr_in_vma_def)
qed

lemma mmap_any_error:
  assumes "bkeep_mmap_any_in_range pal hs m bottom0 top0 len prot flags file offset comment st = (m', Inl err, st')"
    and "vma_inv hs st"
  shows "vma_inv hs st' \<and> vma_tree st' = vma_tree st"
  using assms(1)
proof (cases rule: mmap_any_cases)
  case (full bottom top_addr)
  then show ?thesis by (simp add: free_after_get [OF assms(2)])
qed (use assms(2) in simp_all)

lemma mmap_any_complete:
  assumes "vma_inv hs st" "clip_range pal flags bottom0 top0 = Some (bottom, top_addr)"
    and "is_alloc_aligned pal len" "is_alloc_aligned pal bottom0" "is_alloc_aligned pal top0" "0 < len"
    and "fst (malloc m)" "free_range bottom top_addr len (vma_tree st) x"
  shows "\<exists>m' addr st'. bkeep_mmap_any_in_range pal hs m bottom0 top0 len prot flags file offset comment st = (m', Inr addr, st')"
proof -
  have "find_gap bottom len (upper_limit top_addr (vma_tree st)) (rev (vmas_below top_addr (vma_tree st))) \<noteq> None"
    using search_best [OF vma_inv_wf [OF assms(1)] assms(6), where bottom = bottom and top_addr = top_addr]
      free_range_fits(1) [OF assms(6,8)] by (auto split: option.splits)
  then show ?thesis
    using assms(2-7) unfolding bkeep_mmap_any_in_range_def upper_limit_def
    by (auto simp: Let_def split: prod.splits option.splits)
qed

end
