(* ===== verification/Vma_Protect.thy ===== *)
theory Vma_Protect
  imports Vma_Ops
begin

text \<open>
  Changing the protection of a range, and the checks that a range is covered by suitable areas:
  \<open>_vma_bkeep_change\<close>, \<open>_traverse_vmas_in_range\<close>, \<open>is_in_adjacent_user_vmas\<close>.
\<close>

section \<open>Covered ranges\<close>

definition covered :: "(libos_vma \<Rightarrow> bool) \<Rightarrow> u64 \<Rightarrow> u64 \<Rightarrow> libos_vma list \<Rightarrow> bool" where
  "covered P b e vs \<longleftrightarrow> (\<forall>a. b \<le> a \<and> a < e \<longrightarrow> (\<exists>u \<in> set vs. is_addr_in_vma a u \<and> P u))"

lemma covered_empty: "e \<le> b \<Longrightarrow> covered P b e vs"
  by (auto simp: covered_def)

lemma covered_Nil: "covered P b e [] \<longleftrightarrow> e \<le> b"
proof
  assume "covered P b e []"
  then show "e \<le> b" by (auto simp: covered_def not_less dest: spec [of _ b])
qed (rule covered_empty)

lemma covered_Cons:
  assumes "vmas_wf (v # vs)" "begin_addr v \<le> b" "b < end_addr v" "b < e"
  shows "covered P b e (v # vs) \<longleftrightarrow> P v \<and> (e \<le> end_addr v \<or> covered P (end_addr v) e vs)"
proof
  assume cov: "covered P b e (v # vs)"
  have "\<not> is_addr_in_vma b u" if "u \<in> set vs" for u
    using vmas_wf_ends(1) [OF assms(1) that] assms(3) by (auto simp: is_addr_in_vma_def)
  then have "P v" using cov assms(4) by (auto simp: covered_def)
  moreover have "covered P (end_addr v) e vs" if "\<not> e \<le> end_addr v"
    unfolding covered_def
  proof (intro allI impI)
    fix a assume a: "end_addr v \<le> a \<and> a < e"
    then have "b \<le> a" using assms(3) by auto
    with cov a obtain u where u: "u \<in> set (v # vs)" "is_addr_in_vma a u" "P u"
      by (auto simp: covered_def)
    moreover have "u \<noteq> v" using u(2) a by (auto simp: is_addr_in_vma_def)
    ultimately show "\<exists>u \<in> set vs. is_addr_in_vma a u \<and> P u" by auto
  qed
  ultimately show "P v \<and> (e \<le> end_addr v \<or> covered P (end_addr v) e vs)" by blast
next
  assume r: "P v \<and> (e \<le> end_addr v \<or> covered P (end_addr v) e vs)"
  show "covered P b e (v # vs)"
    unfolding covered_def
  proof (intro allI impI)
    fix a assume a: "b \<le> a \<and> a < e"
    show "\<exists>u \<in> set (v # vs). is_addr_in_vma a u \<and> P u"
    proof (cases "a < end_addr v")
      case True
      then have "is_addr_in_vma a v" using a assms(2) by (auto simp: is_addr_in_vma_def)
      with r show ?thesis by auto
    next
      case False
      with a have "covered P (end_addr v) e vs" using r by (auto simp: covered_empty)
      with a False show ?thesis by (force simp: covered_def)
    qed
  qed
qed

lemma covered_next:
  assumes "vmas_wf (v # vs)" "end_addr v < e"
  shows "covered P (end_addr v) e vs \<longleftrightarrow>
    (\<exists>w ws. vs = w # ws \<and> begin_addr w = end_addr v \<and> covered P (end_addr v) e vs)"
proof -
  have "\<exists>w ws. vs = w # ws \<and> begin_addr w = end_addr v" if cov: "covered P (end_addr v) e vs"
  proof -
    obtain u where u: "u \<in> set vs" "is_addr_in_vma (end_addr v) u"
      using cov assms(2) by (auto simp: covered_def)
    then obtain w ws where vs: "vs = w # ws" by (cases vs) auto
    have "vmas_wf (w # ws)" using assms(1) vs by (simp add: vmas_wf_Cons)
    then have "begin_addr w \<le> begin_addr u"
      using u(1) vmas_wf_ends(3) [of w ws u] by (auto simp: vs)
    moreover have "end_addr v \<le> begin_addr w" using assms(1) vs by (simp add: vmas_wf_Cons)
    ultimately have "begin_addr w = end_addr v" using u(2) unfolding is_addr_in_vma_def by (elim conjE) order
    with vs show ?thesis by blast
  qed
  then show ?thesis by blast
qed

lemma covered_from:
  assumes "vmas_wf vs" "b < e"
  shows "covered P b e vs \<longleftrightarrow> covered P b e (vmas_from b vs)"
proof -
  have "\<not> is_addr_in_vma a u" if "b \<le> a" "u \<in> set (vmas_below b vs)" for a u
    using vmas_below_end [OF that(2)] that(1) by (auto simp: is_addr_in_vma_def)
  moreover have "set vs = set (vmas_below b vs) \<union> set (vmas_from b vs)"
    by (metis vmas_split set_append)
  ultimately show ?thesis by (auto simp: covered_def)
qed

section \<open>The check before a change\<close>

lemma change_check_broken: "change_check hs prot intl e vs False \<noteq> None"
  by (induction hs prot intl e vs False rule: change_check.induct)
    (auto split: option.splits list.splits)

lemma change_check_Cons2:
  "change_check hs prot intl e (v # w # ws) c =
     (case change_denied hs prot intl v of
        Some err \<Rightarrow> Some err
      | None \<Rightarrow>
          if e \<le> end_addr v then (if c then None else Some ENOMEM)
          else change_check hs prot intl e (w # ws) (c \<and> end_addr v = begin_addr w))"
  by (subst change_check.simps(2)) (simp split: option.split del: change_check.simps)

lemma change_check_covered:
  fixes hs prot intl
  defines "P \<equiv> \<lambda>u. change_denied hs prot intl u = None"
  assumes "vmas_wf (v # vs)" "begin_addr v \<le> b" "b < end_addr v" "b < e"
  shows "change_check hs prot intl e (v # vs) True = None \<longleftrightarrow> covered P b e (v # vs)"
  using assms(2-)
proof (induction vs arbitrary: v b)
  case Nil
  have "covered P b e [v] \<longleftrightarrow> P v \<and> e \<le> end_addr v"
    unfolding covered_Cons [OF Nil] covered_Nil by blast
  then show ?case
    by (auto simp: P_def split: option.splits)
next
  case (Cons w ws)
  have step: "covered P b e (v # w # ws) \<longleftrightarrow> P v \<and> (e \<le> end_addr v \<or> covered P (end_addr v) e (w # ws))"
    by (rule covered_Cons [OF Cons.prems])
  have wf: "vmas_wf (w # ws)" "begin_addr w < end_addr w"
    using Cons.prems(1) by (simp_all add: vmas_wf_Cons)
  consider (denied) "\<not> P v" | (last) "P v" "e \<le> end_addr v"
    | (adjacent) "P v" "\<not> e \<le> end_addr v" "end_addr v = begin_addr w"
    | (hole) "P v" "\<not> e \<le> end_addr v" "end_addr v \<noteq> begin_addr w" by blast
  then show ?case
  proof cases
    case denied
    then show ?thesis unfolding step change_check_Cons2 by (auto simp: P_def)
  next
    case last
    then show ?thesis unfolding step change_check_Cons2 by (simp add: P_def)
  next
    case adjacent
    have "change_check hs prot intl e (w # ws) True = None \<longleftrightarrow> covered P (end_addr v) e (w # ws)"
      using wf adjacent by (intro Cons.IH) auto
    with adjacent show ?thesis unfolding step change_check_Cons2 by (simp add: P_def del: change_check.simps)
  next
    case hole
    then have "\<not> covered P (end_addr v) e (w # ws)"
      using covered_next [OF Cons.prems(1), of e P] by auto
    with hole show ?thesis
      unfolding step change_check_Cons2 by (simp add: P_def change_check_broken del: change_check.simps)
  qed
qed

section \<open>The effect of a change\<close>

text \<open>What a change does to the page it applies to.\<close>

definition view_protect :: "u32 \<Rightarrow> u32 \<times> u32 \<times> nat option \<times> u64 \<Rightarrow> u32 \<times> u32 \<times> nat option \<times> u64" where
  "view_protect prot x =
     (case x of (p, f, file, off) \<Rightarrow>
        (prot AND (PROT_NONE OR PROT_READ OR PROT_WRITE OR PROT_EXEC),
         if file \<noteq> None \<and> has_flag prot PROT_WRITE then f OR VMA_TAINTED else f, file, off))"

lemma update_prot_parts [simp]:
  "begin_addr (vma_update_prot v prot) = begin_addr v" "end_addr (vma_update_prot v prot) = end_addr v"
  "vfile (vma_update_prot v prot) = vfile v" "vma_size (vma_update_prot v prot) = vma_size v"
  "is_addr_in_vma a (vma_update_prot v prot) = is_addr_in_vma a v"
  "vma_view (vma_update_prot v prot) a = view_protect prot (vma_view v a)"
  by (simp_all add: vma_update_prot_def vma_size_def vma_view_def view_protect_def is_addr_in_vma_def)

definition insert_opt :: "libos_vma option \<Rightarrow> libos_vma list \<Rightarrow> libos_vma list" where
  "insert_opt new vs = (case new of None \<Rightarrow> vs | Some v \<Rightarrow> vma_insert v vs)"

lemma insert_opt_simps [simp]: "insert_opt None vs = vs" "insert_opt (Some v) vs = vma_insert v vs"
  by (simp_all add: insert_opt_def)

text \<open>The list after the loop, with the second half of the last area in its place.\<close>

fun change_list :: "u32 \<Rightarrow> u64 \<Rightarrow> libos_vma list \<Rightarrow> libos_vma list" where
  "change_list prot e [] = []"
| "change_list prot e (v # vs) =
     (if end_addr v \<le> e then vma_update_prot v prot # change_list prot e vs
      else if e \<le> begin_addr v then v # vs
      else vma_update_prot (v\<lparr>end_addr := e\<rparr>) prot # split_vma v e # vs)"

lemma change_loop_list:
  assumes "vmas_wf (us @ vs)" "change_loop prot e vs = (vs', new2)"
  shows "insert_opt new2 (us @ vs') = us @ change_list prot e vs"
  using assms
proof (induction vs arbitrary: us vs' new2)
  case (Cons v vs)
  consider (inside) "end_addr v \<le> e" | (after) "\<not> end_addr v \<le> e" "e \<le> begin_addr v"
    | (split) "\<not> end_addr v \<le> e" "\<not> e \<le> begin_addr v" by blast
  then show ?case
  proof cases
    case inside
    obtain ws n where ws: "change_loop prot e vs = (ws, n)" by fastforce
    then have res: "vs' = vma_update_prot v prot # ws" "new2 = n"
      using Cons.prems(2) inside by simp_all
    have "vmas_wf ((us @ [vma_update_prot v prot]) @ vs)"
      using Cons.prems(1) by (auto simp: vmas_wf_append vmas_wf_Cons)
    from Cons.IH [OF this ws] inside show ?thesis
      by (simp add: res)
  next
    case after
    then show ?thesis using Cons.prems(2) by auto
  next
    case split
    let ?v = "vma_update_prot (v\<lparr>end_addr := e\<rparr>) prot"
    have res: "vs' = ?v # vs" "new2 = Some (split_vma v e)"
      using Cons.prems(2) split by simp_all
    have "vma_insert (split_vma v e) ((us @ [?v]) @ vs) = (us @ [?v]) @ split_vma v e # vs"
    proof (rule vma_insert_at)
      have "end_addr u \<le> e" if "u \<in> set us" for u
        using that Cons.prems(1) split by (fastforce simp: vmas_wf_append)
      then show "end_addr u \<le> begin_addr (split_vma v e)" if "u \<in> set (us @ [?v])" for u
        using that by auto
    qed (use Cons.prems(1) split in \<open>auto simp: vmas_wf_append vmas_wf_Cons\<close>)
    then show ?thesis using split by (simp add: res)
  qed
qed simp

lemma change_list_spec:
  assumes "vmas_wf vs"
  shows "vmas_wf (change_list prot e vs)" "total_len (change_list prot e vs) = total_len vs"
    "mapped (change_list prot e vs) a =
       (if a < e then map_option (view_protect prot) (mapped vs a) else mapped vs a)"
    "\<And>b. (\<And>v. v \<in> set vs \<Longrightarrow> b \<le> begin_addr v) \<Longrightarrow> u \<in> set (change_list prot e vs) \<Longrightarrow> b \<le> begin_addr u"
proof -
  have "vmas_wf (change_list prot e vs) \<and> total_len (change_list prot e vs) = total_len vs \<and>
    mapped (change_list prot e vs) a =
       (if a < e then map_option (view_protect prot) (mapped vs a) else mapped vs a) \<and>
    (\<forall>b. (\<forall>v \<in> set vs. b \<le> begin_addr v) \<longrightarrow> (\<forall>u \<in> set (change_list prot e vs). b \<le> begin_addr u))"
    using assms
  proof (induction vs)
    case (Cons v vs)
    have wf: "vmas_wf vs" "begin_addr v < end_addr v" and rest: "\<And>u. u \<in> set vs \<Longrightarrow> end_addr v \<le> begin_addr u"
      using Cons.prems by (auto simp: vmas_wf_Cons)
    note IH = Cons.IH [OF wf(1)]
    consider (inside) "end_addr v \<le> e" | (after) "\<not> end_addr v \<le> e" "e \<le> begin_addr v"
      | (split) "\<not> end_addr v \<le> e" "\<not> e \<le> begin_addr v" by blast
    then show ?case
    proof cases
      case inside
      have "a < e" if "is_addr_in_vma a v" using that inside by (auto simp: is_addr_in_vma_def)
      then show ?thesis using inside IH wf(2) rest by (auto simp: vmas_wf_Cons mapped_Cons)
    next
      case after
      have "e \<le> begin_addr u" if "u \<in> set (v # vs)" for u
        using that after rest [of u] wf(2) by fastforce
      then have "mapped (v # vs) a = None" if "a < e"
        using that by (rule mapped_above)
      with after Cons.prems show ?thesis by simp
    next
      case split
      have sz: "vma_size (v\<lparr>end_addr := e\<rparr>) + vma_size (split_vma v e) = vma_size v"
        using size_trim(2) [of v e] split by (simp add: vma_size_def)
      have "mapped vs a = None" if "a < e"
        using that rest split by (intro mapped_above [where e = "end_addr v"]) auto
      then have "mapped (change_list prot e (v # vs)) a =
         (if a < e then map_option (view_protect prot) (mapped (v # vs) a) else mapped (v # vs) a)"
        using split by (auto simp: mapped_Cons is_addr_in_vma_def)
      moreover have "vmas_wf (change_list prot e (v # vs))"
        using split wf rest by (auto simp: vmas_wf_Cons not_le) (metis less_imp_le order_trans)
      ultimately show ?thesis using split sz by (auto simp: not_le)
    qed
  qed simp
  then show "vmas_wf (change_list prot e vs)" "total_len (change_list prot e vs) = total_len vs"
    "mapped (change_list prot e vs) a =
       (if a < e then map_option (view_protect prot) (mapped vs a) else mapped vs a)"
    "\<And>b. (\<And>v. v \<in> set vs \<Longrightarrow> b \<le> begin_addr v) \<Longrightarrow> u \<in> set (change_list prot e vs) \<Longrightarrow> b \<le> begin_addr u"
    by blast+
qed

lemma insert_split_parts [simp]:
  "vma_tree (insert_split hs new st) = insert_opt new (vma_tree st)"
  "sized n (insert_split hs new st) = sized n st"
  "asserts_hold (insert_split hs new st) = asserts_hold st"
  by (simp_all add: insert_split_def split: option.splits)

lemma insert_split_refs:
  assumes "refs_of hs vs st" "\<And>h. file_count h (vma_tree st) = file_count h vs"
    "\<And>i. inode_count hs i (vma_tree st) = inode_count hs i vs"
  shows "refs_of hs (vma_tree (insert_split hs new st)) (insert_split hs new st)"
proof (cases new)
  case None
  then show ?thesis using refs_of_cong [OF assms(1)] assms(2,3) by (simp add: insert_split_def)
next
  case (Some v)
  have "refs_of hs (v # vs) (get_file hs (vfile v) (st\<lparr>vma_tree := t\<rparr>))" for t
    using assms(1) by (intro get_file_refs) simp
  then show ?thesis
    unfolding Some insert_split_def option.case
    by (rule refs_of_cong) (simp_all add: assms(2,3))
qed

lemma change_loop_files:
  "change_loop prot e vs = (vs', new2) \<Longrightarrow>
   file_count h vs' = file_count h vs \<and> inode_count hs i vs' = inode_count hs i vs"
  by (induction vs arbitrary: vs' new2) (auto split: if_splits prod.splits)

lemma change_loop_wf:
  assumes "vmas_wf vs" "change_loop prot e vs = (vs', new2)"
  shows "vmas_wf vs'" "\<And>b. (\<And>v. v \<in> set vs \<Longrightarrow> b \<le> begin_addr v) \<Longrightarrow> w \<in> set vs' \<Longrightarrow> b \<le> begin_addr w"
proof -
  have "vmas_wf vs' \<and> (\<forall>b. (\<forall>v \<in> set vs. b \<le> begin_addr v) \<longrightarrow> (\<forall>w \<in> set vs'. b \<le> begin_addr w))"
    using assms
  proof (induction vs arbitrary: vs' new2)
    case (Cons v vs)
    obtain ws n where ws: "change_loop prot e vs = (ws, n)" by fastforce
    have wf: "vmas_wf vs" "begin_addr v < end_addr v" and rest: "\<And>u. u \<in> set vs \<Longrightarrow> end_addr v \<le> begin_addr u"
      using Cons.prems(1) by (auto simp: vmas_wf_Cons)
    note IH = Cons.IH [OF wf(1) ws]
    have rest': "e \<le> begin_addr u" if "u \<in> set vs" "\<not> end_addr v \<le> e" for u
      using rest [OF that(1)] that(2) by order
    show ?case
      using Cons.prems(2) ws IH wf rest rest' by (auto simp: vmas_wf_Cons split: if_splits)
  qed simp
  then show "vmas_wf vs'"
    "\<And>b. (\<And>v. v \<in> set vs \<Longrightarrow> b \<le> begin_addr v) \<Longrightarrow> w \<in> set vs' \<Longrightarrow> b \<le> begin_addr w" by blast+
qed

text \<open>The three shapes of a successful change. In the last one the second half of the split is
  split again; in the second one the code needs a following area.\<close>

lemma change_ok_cases:
  assumes "vma_bkeep_change hs b e prot intl st = (None, st')" "vmas_wf (vma_tree st)" "b < e"
  obtains (whole) us v rest where "vma_tree st = us @ v # rest" "\<And>u. u \<in> set us \<Longrightarrow> end_addr u \<le> b"
      "begin_addr v \<le> b" "b < end_addr v" "begin_addr v = b \<or> has_flag prot PROT_GROWSDOWN"
      "vma_tree st' = us @ change_list prot e (v # rest)" "asserts_hold st' = asserts_hold st"
  | (tail) us v rest where "vma_tree st = us @ v # rest" "\<And>u. u \<in> set us \<Longrightarrow> end_addr u \<le> b"
      "begin_addr v < b" "b < end_addr v" "end_addr v \<le> e" "\<not> has_flag prot PROT_GROWSDOWN"
      "vma_tree st' = us @ v\<lparr>end_addr := b\<rparr> # vma_update_prot (split_vma v b) prot # change_list prot e rest"
      "asserts_hold st' \<longleftrightarrow> asserts_hold st \<and> rest \<noteq> []"
  | (middle) us v rest where "vma_tree st = us @ v # rest" "\<And>u. u \<in> set us \<Longrightarrow> end_addr u \<le> b"
      "begin_addr v < b" "e < end_addr v" "\<not> has_flag prot PROT_GROWSDOWN"
      "vma_tree st' = us @ v\<lparr>end_addr := b\<rparr> # (vma_update_prot (split_vma v b) prot)\<lparr>end_addr := e\<rparr> #
         vma_update_prot (split_vma (vma_update_prot (split_vma v b) prot) e) (vprot v) # rest"
      "asserts_hold st' = asserts_hold st"
proof (cases "vmas_from b (vma_tree st)")
  case Nil
  then show ?thesis using assms(1) by (simp add: vma_bkeep_change_def)
next
  case (Cons v rest)
  let ?us = "vmas_below b (vma_tree st)" and ?new1 = "vma_update_prot (split_vma v b) prot"
  have tree: "vma_tree st = ?us @ v # rest" and ends: "\<And>u. u \<in> set ?us \<Longrightarrow> end_addr u \<le> b"
    using vmas_split [of b "vma_tree st"] vmas_below_end Cons by auto
  have end_v: "b < end_addr v" and wf: "vmas_wf (v # rest)" "vmas_wf (?us @ v # rest)"
    using vmas_from_end [OF assms(2), of v b] vmas_wf_split(2) [OF assms(2), of b] assms(2) tree Cons by simp_all
  have checks: "\<not> b < begin_addr v" "change_check hs prot intl e (v # rest) True = None"
    using assms(1) Cons by (auto simp: vma_bkeep_change_def split: if_splits option.splits)
  note change = assms(1) [unfolded vma_bkeep_change_def Cons list.case if_not_P [OF checks(1)] checks(2) option.case Let_def]
  have ins1: "vma_insert ?new1 (?us @ v\<lparr>end_addr := b\<rparr> # ws) = ?us @ v\<lparr>end_addr := b\<rparr> # ?new1 # ws"
    if "vmas_wf ws" "\<And>w. w \<in> set ws \<Longrightarrow> end_addr v \<le> begin_addr w" for ws
    using that vma_insert_at [of ws ?new1 "?us @ [v\<lparr>end_addr := b\<rparr>]"] end_v ends by fastforce
  have rest: "\<And>w. w \<in> set rest \<Longrightarrow> end_addr v \<le> begin_addr w" "vmas_wf rest"
    using wf(1) by (auto simp: vmas_wf_Cons)
  consider (a) "begin_addr v = b \<or> has_flag prot PROT_GROWSDOWN"
    | (b) "begin_addr v < b" "\<not> has_flag prot PROT_GROWSDOWN" "end_addr v \<le> e"
    | (c) "begin_addr v < b" "\<not> has_flag prot PROT_GROWSDOWN" "e < end_addr v"
    using checks(1) by fastforce
  then show ?thesis
  proof cases
    case a
    obtain vs' new2 where loop: "change_loop prot e (v # rest) = (vs', new2)" by fastforce
    have st': "st' = insert_split hs new2 (st\<lparr>vma_tree := ?us @ vs'\<rparr>)"
      using change a loop by (auto simp del: change_loop.simps)
    have "vma_tree st' = ?us @ change_list prot e (v # rest)"
      using change_loop_list [OF wf(2) loop] by (simp add: st' del: change_list.simps)
    then show ?thesis
      using whole [OF tree ends _ end_v a] checks(1) by (simp add: st')
  next
    case b
    obtain rest' new2 where loop: "change_loop prot e rest = (rest', new2)" by fastforce
    have st': "st' = insert_split hs new2 (insert_split hs (Some ?new1)
        (vma_assert (rest \<noteq> []) (st\<lparr>vma_tree := ?us @ v\<lparr>end_addr := b\<rparr> # rest'\<rparr>)))"
      using change b loop by (simp add: leD)
    note wf' = change_loop_wf [OF rest(2) loop]
    have "vma_tree st' = insert_opt new2 ((?us @ [v\<lparr>end_addr := b\<rparr>, ?new1]) @ rest')"
      using ins1 [of rest'] wf' rest(1) by (simp add: st' vma_assert_def)
    also have "\<dots> = (?us @ [v\<lparr>end_addr := b\<rparr>, ?new1]) @ change_list prot e rest"
    proof (rule change_loop_list [OF _ loop])
      have "b \<le> begin_addr w" "end_addr u \<le> b \<longrightarrow> end_addr u \<le> begin_addr w" if "w \<in> set rest" for u w
        using rest(1) [OF that] end_v by (auto; order)+
      then show "vmas_wf ((?us @ [v\<lparr>end_addr := b\<rparr>, ?new1]) @ rest)"
        using wf(2) b end_v ends by (auto simp: vmas_wf_append vmas_wf_Cons)
    qed
    finally show ?thesis
      using tail [OF tree ends b(1) end_v b(3,2)] by (simp add: st' vma_assert_def)
  next
    case c
    let ?tree = "?us @ v\<lparr>end_addr := b\<rparr> # ?new1 # rest"
    let ?new2 = "vma_update_prot (split_vma ?new1 e) (vprot v)"
    have others: "begin_addr u \<noteq> b" if "u \<in> set ?us \<union> set rest" for u
      using that ends [of u] rest(1) [of u] end_v vmas_wf_area [OF wf(2), of u] by force
    have "map (\<lambda>u. if begin_addr u = b then u\<lparr>end_addr := e\<rparr> else u) ?tree =
        ?us @ v\<lparr>end_addr := b\<rparr> # ?new1\<lparr>end_addr := e\<rparr> # rest" (is "?upd = _")
      using others c(1) by (simp add: map_idI)
    moreover have "st' = insert_split hs (Some ?new2)
        ((insert_split hs (Some ?new1) (st\<lparr>vma_tree := ?us @ v\<lparr>end_addr := b\<rparr> # rest\<rparr>))\<lparr>vma_tree := ?upd\<rparr>)"
      using change c ins1 [OF rest(2,1)] by simp
    moreover have "vma_insert ?new2 ((?us @ [v\<lparr>end_addr := b\<rparr>, ?new1\<lparr>end_addr := e\<rparr>]) @ rest) =
        (?us @ [v\<lparr>end_addr := b\<rparr>, ?new1\<lparr>end_addr := e\<rparr>]) @ ?new2 # rest"
      using rest(2)
    proof (rule vma_insert_at)
      have "end_addr u \<le> e" if "u \<in> set ?us" for u using ends [OF that] assms(3) by order
      then show "end_addr u \<le> begin_addr ?new2" if "u \<in> set (?us @ [v\<lparr>end_addr := b\<rparr>, ?new1\<lparr>end_addr := e\<rparr>])" for u
        using that assms(3) by auto
    qed (use rest(1) c(3) in auto)
    ultimately show ?thesis
      using middle [OF tree ends c(1,3,2)] by simp
  qed
qed

text \<open>Every step of a change keeps the references counted right.\<close>

definition counted :: "handles \<Rightarrow> vma_state \<Rightarrow> bool" where
  "counted hs st \<longleftrightarrow> refs_of hs (vma_tree st) st"

lemma counted_insert_split: "counted hs st \<Longrightarrow> counted hs (insert_split hs new st)"
  unfolding counted_def by (rule insert_split_refs) simp_all

lemma counted_update:
  assumes "counted hs st" "\<And>h. file_count h vs = file_count h (vma_tree st)"
    "\<And>i. inode_count hs i vs = inode_count hs i (vma_tree st)"
  shows "counted hs (st\<lparr>vma_tree := vs\<rparr>)"
  using assms unfolding counted_def by (simp add: refs_of_cong)

lemma counted_assert: "counted hs st \<Longrightarrow> counted hs (vma_assert c st)"
  by (simp add: counted_def vma_assert_def refs_of_def)

lemma file_count_map_end:
  "file_count h (map (\<lambda>u. if begin_addr u = b then u\<lparr>end_addr := e\<rparr> else u) vs) = file_count h vs"
  "inode_count hs i (map (\<lambda>u. if begin_addr u = b then u\<lparr>end_addr := e\<rparr> else u) vs) = inode_count hs i vs"
  by (induction vs) simp_all

lemma sized_change [simp]:
  "sized n (st\<lparr>vma_tree := vs\<rparr>) = sized n st" "sized n (vma_assert c st) = sized n st"
  by (simp_all add: sized_def vma_assert_def)

lemma change_result:
  assumes "vma_bkeep_change hs b e prot intl st = (ret, st')"
  obtains (same) "st' = st"
  | (whole) v rest vs' new2 where "vma_tree st = vmas_below b (vma_tree st) @ v # rest"
      "change_loop prot e (v # rest) = (vs', new2)"
      "st' = insert_split hs new2 (st\<lparr>vma_tree := vmas_below b (vma_tree st) @ vs'\<rparr>)"
  | (tail) v rest rest' new1 new2 where "vma_tree st = vmas_below b (vma_tree st) @ v # rest"
      "change_loop prot e rest = (rest', new2)"
      "st' = insert_split hs new2 (insert_split hs (Some new1) (vma_assert (rest \<noteq> [])
               (st\<lparr>vma_tree := vmas_below b (vma_tree st) @ v\<lparr>end_addr := b\<rparr> # rest'\<rparr>)))"
  | (middle) v rest new1 new2 st1 where "vma_tree st = vmas_below b (vma_tree st) @ v # rest"
      "st1 = insert_split hs (Some new1) (st\<lparr>vma_tree := vmas_below b (vma_tree st) @ v\<lparr>end_addr := b\<rparr> # rest\<rparr>)"
      "st' = insert_split hs (Some new2)
               (st1\<lparr>vma_tree := map (\<lambda>u. if begin_addr u = b then u\<lparr>end_addr := e\<rparr> else u) (vma_tree st1)\<rparr>)"
proof (cases "vmas_from b (vma_tree st)")
  case Nil
  then show ?thesis using assms same by (simp add: vma_bkeep_change_def)
next
  case (Cons v rest)
  have tree: "vma_tree st = vmas_below b (vma_tree st) @ v # rest"
    using vmas_split [of b "vma_tree st"] Cons by simp
  obtain l1 n1 l2 n2 where loops: "change_loop prot e rest = (l1, n1)" "change_loop prot e (v # rest) = (l2, n2)"
    by fastforce
  show ?thesis
    using assms unfolding vma_bkeep_change_def Cons list.case loops Let_def prod.case
    by (simp only: split: if_split_asm option.split_asm)
      (elim conjE Pair_inject disjE exE; rule same whole [OF tree loops(2)] tail [OF tree loops(1)] middle [OF tree refl];
       erule sym)+
qed

lemma change_counted:
  assumes "vma_bkeep_change hs b e prot intl st = (ret, st')" "counted hs st"
  shows "counted hs st'" "sized n st' = sized n st"
proof -
  have upd: "counted hs (st\<lparr>vma_tree := us @ ws\<rparr>)"
    if "vma_tree st = us @ vs" "\<And>h. file_count h ws = file_count h vs"
      "\<And>i. inode_count hs i ws = inode_count hs i vs" for us vs ws
    using assms(2) by (rule counted_update) (simp_all add: that)
  show "counted hs st'"
    using assms(1)
  proof (cases rule: change_result)
    case same
    then show ?thesis using assms(2) by simp
  next
    case (whole v rest vs' new2)
    show ?thesis
      unfolding whole(3) using change_loop_files [OF whole(2)]
      by (intro counted_insert_split upd [OF whole(1)]) simp_all
  next
    case (tail v rest rest' new1 new2)
    show ?thesis
      unfolding tail(3) using change_loop_files [OF tail(2)]
      by (intro counted_insert_split counted_assert upd [OF tail(1)]) simp_all
  next
    case (middle v rest new1 new2 st1)
    have "counted hs st1"
      unfolding middle(2) by (intro counted_insert_split upd [OF middle(1)]) simp_all
    then show ?thesis
      unfolding middle(3) by (intro counted_insert_split counted_update) (simp_all only: file_count_map_end)
  qed
  show "sized n st' = sized n st"
    using assms(1) by (cases rule: change_result) simp_all
qed

text \<open>
  What the pages outside of the range may see of a change: when an area is split twice its last part gets its old
  protection back through \<open>vma_update_prot\<close> and keeps a \<open>VMA_TAINTED\<close> set for the middle part.
\<close>

definition untouched :: "(u32 \<times> u32 \<times> nat option \<times> u64) option \<Rightarrow> (u32 \<times> u32 \<times> nat option \<times> u64) option \<Rightarrow> bool" where
  "untouched x y \<longleftrightarrow>
     (case (x, y) of
        (None, None) \<Rightarrow> True
      | (Some (p, f, file, off), Some (p', f', file', off')) \<Rightarrow>
          p' AND (PROT_NONE OR PROT_READ OR PROT_WRITE OR PROT_EXEC) =
            p AND (PROT_NONE OR PROT_READ OR PROT_WRITE OR PROT_EXEC) \<and>
          f' OR VMA_TAINTED = f OR VMA_TAINTED \<and> file' = file \<and> off' = off
      | _ \<Rightarrow> False)"

lemma untouched_refl [simp]: "untouched x x"
  by (auto simp: untouched_def split: option.split)

lemma untouched_protect_back: "untouched (Some x) (Some (view_protect (fst x) (view_protect prot x)))"
  by (auto simp: untouched_def view_protect_def word_bw_assocs split: prod.splits)

text \<open>The effect on the list of areas from the first one that is changed.\<close>

definition changed :: "u64 \<Rightarrow> u64 \<Rightarrow> u32 \<Rightarrow> libos_vma list \<Rightarrow> libos_vma list \<Rightarrow> bool" where
  "changed b e prot vs vs' \<longleftrightarrow> vmas_wf vs' \<and> total_len vs' = total_len vs \<and>
     (\<forall>u \<in> set vs'. \<exists>v \<in> set vs. begin_addr v \<le> begin_addr u) \<and>
     (\<forall>a. if b \<le> a \<and> a < e then mapped vs' a = map_option (view_protect prot) (mapped vs a)
          else untouched (mapped vs a) (mapped vs' a))"

lemma changedD:
  assumes "changed b e prot vs vs'"
  shows "vmas_wf vs'" "total_len vs' = total_len vs"
    "b \<le> a \<Longrightarrow> a < e \<Longrightarrow> mapped vs' a = map_option (view_protect prot) (mapped vs a)"
    "\<not> (b \<le> a \<and> a < e) \<Longrightarrow> untouched (mapped vs a) (mapped vs' a)"
  using assms by (auto simp: changed_def dest: spec [of _ a])

lemma changed_prefix:
  assumes "changed b e prot vs vs'" "vmas_wf (us @ vs)" "\<And>u. u \<in> set us \<Longrightarrow> end_addr u \<le> b"
  shows "changed b e prot (us @ vs) (us @ vs')"
  unfolding changed_def
proof (intro conjI allI)
  show "vmas_wf (us @ vs')"
    using assms(1,2) unfolding changed_def vmas_wf_append by (meson order_trans)
  show "\<forall>u \<in> set (us @ vs'). \<exists>v \<in> set (us @ vs). begin_addr v \<le> begin_addr u"
    using assms(1) unfolding changed_def by auto
  show "total_len (us @ vs') = total_len (us @ vs)" using changedD(2) [OF assms(1)] by simp
  fix a
  have "mapped us a = None" if "b \<le> a" using that assms(3) by (intro mapped_below) auto
  then show "if b \<le> a \<and> a < e then mapped (us @ vs') a = map_option (view_protect prot) (mapped (us @ vs) a)
    else untouched (mapped (us @ vs) a) (mapped (us @ vs') a)"
    using changedD(3,4) [OF assms(1), of a] by (auto simp: mapped_append split: option.splits)
qed

lemma changed_whole:
  assumes "vmas_wf (v # rest)" "begin_addr v = b"
  shows "changed b e prot (v # rest) (change_list prot e (v # rest))"
proof -
  have low: "\<And>u. u \<in> set (v # rest) \<Longrightarrow> b \<le> begin_addr u"
    using vmas_wf_ends(3) [OF assms(1)] assms(2) by fastforce
  have "\<forall>u \<in> set (change_list prot e (v # rest)). \<exists>w \<in> set (v # rest). begin_addr w \<le> begin_addr u"
    using change_list_spec(4) [OF assms(1) low] assms(2) by auto
  moreover have "mapped (v # rest) a = None" if "a < b" for a
    by (rule mapped_above [OF _ that]) (rule low)
  ultimately show ?thesis
    unfolding changed_def using change_list_spec(1,2,3) [OF assms(1), where prot = prot and e = e]
    by (auto simp del: change_list.simps simp: not_le)
qed

lemma changed_tail:
  assumes "vmas_wf (v # rest)" "begin_addr v < b" "b < end_addr v" "end_addr v \<le> e"
  shows "changed b e prot (v # rest)
    (v\<lparr>end_addr := b\<rparr> # vma_update_prot (split_vma v b) prot # change_list prot e rest)"
proof -
  have wf: "vmas_wf rest" and low: "\<And>u. u \<in> set rest \<Longrightarrow> end_addr v \<le> begin_addr u"
    using assms(1) by (auto simp: vmas_wf_Cons)
  note spec = change_list_spec [OF wf, where prot = prot and e = e]
  have low': "\<And>u. u \<in> set (change_list prot e rest) \<Longrightarrow> end_addr v \<le> begin_addr u"
    using spec(4) [OF low] .
  have sz: "vma_size (v\<lparr>end_addr := b\<rparr>) + vma_size (split_vma v b) = vma_size v"
    using size_trim(2) [of v b] assms(2,3) by (simp add: vma_size_def)
  have none: "mapped rest a = None" if "a < end_addr v" for a by (rule mapped_above [OF _ that]) (rule low)
  show ?thesis
    unfolding changed_def
  proof (intro conjI allI)
    show "vmas_wf (v\<lparr>end_addr := b\<rparr> # vma_update_prot (split_vma v b) prot # change_list prot e rest)"
      using spec(1) low' assms(2,3) by (fastforce simp: vmas_wf_Cons)
    show "\<forall>u\<in>set (v\<lparr>end_addr := b\<rparr> # vma_update_prot (split_vma v b) prot # change_list prot e rest).
       \<exists>w\<in>set (v # rest). begin_addr w \<le> begin_addr u"
      using low' assms(2,3) by fastforce
    fix a
    show "if b \<le> a \<and> a < e
         then mapped (v\<lparr>end_addr := b\<rparr> # vma_update_prot (split_vma v b) prot # change_list prot e rest) a =
              map_option (view_protect prot) (mapped (v # rest) a)
         else untouched (mapped (v # rest) a)
               (mapped (v\<lparr>end_addr := b\<rparr> # vma_update_prot (split_vma v b) prot # change_list prot e rest) a)"
      using spec(3) [where a = a] none [of a] assms(2-4) by (auto simp: mapped_Cons is_addr_in_vma_def)
  qed (use spec(2) sz in simp)
qed

lemma changed_middle:
  assumes "vmas_wf (v # rest)" "begin_addr v < b" "b < e" "e < end_addr v"
  shows "changed b e prot (v # rest)
    (v\<lparr>end_addr := b\<rparr> # (vma_update_prot (split_vma v b) prot)\<lparr>end_addr := e\<rparr> #
         vma_update_prot (split_vma (vma_update_prot (split_vma v b) prot) e) (vprot v) # rest)"
    (is "changed b e prot _ (?v1 # ?v2 # ?v3 # rest)")
proof -
  have wf: "vmas_wf rest" and low: "\<And>u. u \<in> set rest \<Longrightarrow> end_addr v \<le> begin_addr u"
    using assms(1) by (auto simp: vmas_wf_Cons)
  have "vma_size ?v1 + unat (end_addr v - b) = vma_size v" "vma_size ?v2 + vma_size ?v3 = unat (end_addr v - b)"
    using size_trim(2) [of v b] size_trim(2) [of "split_vma v b" e] assms(2-4) by (simp_all add: vma_size_def)
  then have sz: "vma_size ?v1 + (vma_size ?v2 + vma_size ?v3) = vma_size v" by linarith
  have restored: "untouched (Some (vma_view v a)) (Some (view_protect (vprot v) (view_protect prot (vma_view v a))))" for a
    using untouched_protect_back [of "vma_view v a" prot] by (simp add: vma_view_def)
  have views: "vma_view ?v2 a = view_protect prot (vma_view v a)"
    "vma_view ?v3 a = view_protect (vprot v) (view_protect prot (vma_view v a))" for a
    by (simp_all add: vma_view_def view_protect_def vma_update_prot_def split_vma_def)
  show ?thesis
    unfolding changed_def
  proof (intro conjI allI)
    show "vmas_wf (?v1 # ?v2 # ?v3 # rest)"
      using wf low assms(2-4) by (fastforce simp: vmas_wf_Cons)
    show "\<forall>u\<in>set (?v1 # ?v2 # ?v3 # rest). \<exists>w\<in>set (v # rest). begin_addr w \<le> begin_addr u"
      using assms(2-4) by fastforce
    fix a
    show "if b \<le> a \<and> a < e then mapped (?v1 # ?v2 # ?v3 # rest) a = map_option (view_protect prot) (mapped (v # rest) a)
         else untouched (mapped (v # rest) a) (mapped (?v1 # ?v2 # ?v3 # rest) a)"
      using restored [of a] views [of a] assms(2-4) by (auto simp: mapped_Cons is_addr_in_vma_def)
  qed (use sz in simp)
qed

lemma change_effect:
  assumes "vma_bkeep_change hs b e prot intl st = (None, st')" "vmas_wf (vma_tree st)" "b < e"
    and "\<not> has_flag prot PROT_GROWSDOWN"
  shows "changed b e prot (vma_tree st) (vma_tree st')"
    "asserts_hold st' \<longleftrightarrow> asserts_hold st \<and>
       (begin_addr (last (vma_tree st)) < b \<longrightarrow> e < end_addr (last (vma_tree st)))"
proof -
  have "changed b e prot (vma_tree st) (vma_tree st') \<and>
    (asserts_hold st' \<longleftrightarrow> asserts_hold st \<and>
       (begin_addr (last (vma_tree st)) < b \<longrightarrow> e < end_addr (last (vma_tree st))))"
    using assms(1-3)
  proof (cases rule: change_ok_cases)
    case (whole us v rest)
    have wf: "vmas_wf (us @ v # rest)" "vmas_wf (v # rest)" using assms(2) whole(1) by (auto simp: vmas_wf_append)
    have "begin_addr v \<le> begin_addr (last (v # rest))"
      using vmas_wf_ends(3) [OF wf(2), of "last rest"] by (cases rest) auto
    then show ?thesis
      unfolding whole(1,6,7) using changed_prefix [OF changed_whole [OF wf(2)] wf(1) whole(2)] whole(5) assms(4)
      by (auto simp del: change_list.simps)
  next
    case (tail us v rest)
    have wf: "vmas_wf (us @ v # rest)" "vmas_wf (v # rest)" using assms(2) tail(1) by (auto simp: vmas_wf_append)
    have "end_addr v \<le> begin_addr (last rest)" if "rest \<noteq> []"
      using wf(2) that by (auto simp: vmas_wf_Cons)
    then show ?thesis
      unfolding tail(1,7,8) using changed_prefix [OF changed_tail [OF wf(2) tail(3-5)] wf(1) tail(2)] tail(3-5)
      by (cases rest) fastforce+
  next
    case (middle us v rest)
    have wf: "vmas_wf (us @ v # rest)" "vmas_wf (v # rest)" using assms(2) middle(1) by (auto simp: vmas_wf_append)
    have "end_addr v \<le> begin_addr (last rest)" if "rest \<noteq> []"
      using wf(2) that by (auto simp: vmas_wf_Cons)
    then show ?thesis
      unfolding middle(1,6,7)
      using changed_prefix [OF changed_middle [OF wf(2) middle(3) assms(3) middle(4)] wf(1) middle(2)] middle(3,4) assms(3)
      by (cases rest) fastforce+
  qed
  then show "changed b e prot (vma_tree st) (vma_tree st')"
    "asserts_hold st' \<longleftrightarrow> asserts_hold st \<and>
       (begin_addr (last (vma_tree st)) < b \<longrightarrow> e < end_addr (last (vma_tree st)))" by simp_all
qed

end
