(* ===== verification/Vma_Query.thy ===== *)
theory Vma_Query
  imports Vma_Protect
begin

text \<open>
  The operations of \<^verbatim>\<open>libos/src/bookkeep/libos_vma.c\<close> that look at the areas: looking one up,
  the check that a range is accessible to the user, dumping the areas of a range, and what
  \<open>madvise\<close>, \<open>msync\<close> and a write to a mapped file do with them. A call into the PAL takes its
  outcome from a list of outcomes (an exhausted list means success); the calls made are kept in
  a list of events.
\<close>

section \<open>Looking up\<close>

record libos_vma_info =
  info_addr :: u64
  info_length :: u64
  info_prot :: u32
  info_flags :: u32
  info_file_offset :: u64
  info_file :: "nat option"
  info_comment :: string

type_synonym refs = "nat \<Rightarrow> nat"

definition get_info_file :: "nat option \<Rightarrow> refs \<Rightarrow> refs" where
  "get_info_file f refs = (case f of None \<Rightarrow> refs | Some h \<Rightarrow> refs(h := refs h + 1))"

definition put_info_file :: "nat option \<Rightarrow> refs \<Rightarrow> refs" where
  "put_info_file f refs = (case f of None \<Rightarrow> refs | Some h \<Rightarrow> refs(h := refs h - 1))"

definition dump_vma :: "libos_vma \<Rightarrow> libos_vma_info" where
  "dump_vma v =
     \<lparr>info_addr = begin_addr v, info_length = end_addr v - begin_addr v, info_prot = vprot v,
      info_flags = vflags v, info_file_offset = voffset v, info_file = vfile v,
      info_comment = vcomment v\<rparr>"

definition lookup_vma :: "u64 \<Rightarrow> libos_vma list \<Rightarrow> refs \<Rightarrow> (errno + libos_vma_info) \<times> refs" where
  "lookup_vma addr vs refs =
     (case lookup_vma_node addr vs of
        None \<Rightarrow> (Inl ENOENT, refs)
      | Some v \<Rightarrow>
          if \<not> is_addr_in_vma addr v then (Inl ENOENT, refs)
          else (Inr (dump_vma v), get_info_file (vfile v) refs))"

section \<open>The range check\<close>

definition adj_visitor :: "u32 \<Rightarrow> libos_vma \<Rightarrow> bool \<Rightarrow> bool \<times> bool" where
  "adj_visitor prot v ctx_ok =
     (let is_ok = (\<not> has_flag (vflags v) (VMA_INTERNAL OR VMA_UNMAPPED) \<and> vprot v AND prot = prot)
      in (ctx_ok \<and> is_ok, is_ok))"

definition is_in_adjacent_user_vmas :: "u64 \<Rightarrow> u64 \<Rightarrow> u32 \<Rightarrow> libos_vma list \<Rightarrow> bool" where
  "is_in_adjacent_user_vmas addr len prot vs =
     (let (ctx_ok, is_continuous) =
        traverse_vmas_in_range addr (addr + len) (adj_visitor prot) True vs
      in is_continuous \<and> ctx_ok)"

section \<open>Dumping a range\<close>

fun dump_vmas_loop ::
    "(libos_vma \<Rightarrow> bool) \<Rightarrow> nat \<Rightarrow> u64 \<Rightarrow> libos_vma list \<Rightarrow> libos_vma_info list \<times> nat \<times> refs \<Rightarrow>
     libos_vma_info list \<times> nat \<times> refs" where
  "dump_vmas_loop vma_filter max_count e [] (infos, sz, refs) = (infos, sz, refs)"
| "dump_vmas_loop vma_filter max_count e (v # vs) (infos, sz, refs) =
     (if e \<le> begin_addr v then (infos, sz, refs)
      else if \<not> vma_filter v then dump_vmas_loop vma_filter max_count e vs (infos, sz, refs)
      else if sz < max_count then
        dump_vmas_loop vma_filter max_count e vs
          (infos @ [dump_vma v], sz + 1, get_info_file (vfile v) refs)
      else dump_vmas_loop vma_filter max_count e vs (infos, sz + 1, refs))"

definition dump_vmas_with_buf ::
    "nat \<Rightarrow> u64 \<Rightarrow> u64 \<Rightarrow> (libos_vma \<Rightarrow> bool) \<Rightarrow> libos_vma list \<Rightarrow> refs \<Rightarrow>
     libos_vma_info list \<times> nat \<times> refs" where
  "dump_vmas_with_buf max_count b e vma_filter vs refs =
     dump_vmas_loop vma_filter max_count e (vmas_from b vs) ([], 0, refs)"

definition free_vma_info_array :: "libos_vma_info list \<Rightarrow> refs \<Rightarrow> refs" where
  "free_vma_info_array infos refs = fold (\<lambda>i. put_info_file (info_file i)) infos refs"

text \<open>
  The tree is only locked while one attempt runs, so each round of the loop may see another tree;
  the argument lists the trees seen. \<open>None\<close> means that the loop has not ended with them.
\<close>

definition DEFAULT_VMA_COUNT :: nat where "DEFAULT_VMA_COUNT = 64"

fun dump_vmas_rounds ::
    "u64 \<Rightarrow> u64 \<Rightarrow> (libos_vma \<Rightarrow> bool) \<Rightarrow> nat \<Rightarrow> libos_vma list list \<Rightarrow> mem \<Rightarrow> refs \<Rightarrow>
     (mem \<times> (errno + libos_vma_info list) \<times> refs) option" where
  "dump_vmas_rounds b e vma_filter count [] m refs = None"
| "dump_vmas_rounds b e vma_filter count (vs # trees) m refs =
     (let (ok, m1) = malloc m in
      if \<not> ok then Some (m1, Inl ENOMEM, refs)
      else
        (let (infos, needed_count, refs1) = dump_vmas_with_buf count b e vma_filter vs refs in
         if needed_count \<le> count then Some (m1, Inr infos, refs1)
         else dump_vmas_rounds b e vma_filter needed_count trees m1 (free_vma_info_array infos refs1)))"

definition dump_vmas ::
    "u64 \<Rightarrow> u64 \<Rightarrow> (libos_vma \<Rightarrow> bool) \<Rightarrow> libos_vma list list \<Rightarrow> mem \<Rightarrow> refs \<Rightarrow>
     (mem \<times> (errno + libos_vma_info list) \<times> refs) option" where
  "dump_vmas b e vma_filter trees m refs = dump_vmas_rounds b e vma_filter DEFAULT_VMA_COUNT trees m refs"

definition vma_filter_all :: "libos_vma \<Rightarrow> bool" where
  "vma_filter_all v \<longleftrightarrow> \<not> has_flag (vflags v) VMA_INTERNAL"

definition vma_filter_exclude_unmapped :: "libos_vma \<Rightarrow> bool" where
  "vma_filter_exclude_unmapped v \<longleftrightarrow> \<not> has_flag (vflags v) (VMA_INTERNAL OR VMA_UNMAPPED)"

definition dump_vmas_in_range ::
    "u64 \<Rightarrow> u64 \<Rightarrow> bool \<Rightarrow> libos_vma list list \<Rightarrow> mem \<Rightarrow> refs \<Rightarrow>
     (mem \<times> (errno + libos_vma_info list) \<times> refs) option" where
  "dump_vmas_in_range b e include_unmapped trees m refs =
     dump_vmas b e (if include_unmapped then vma_filter_all else vma_filter_exclude_unmapped) trees m refs"

definition dump_all_vmas ::
    "bool \<Rightarrow> libos_vma list list \<Rightarrow> mem \<Rightarrow> refs \<Rightarrow> (mem \<times> (errno + libos_vma_info list) \<times> refs) option" where
  "dump_all_vmas include_unmapped trees m refs = dump_vmas_in_range 0 (- 1) include_unmapped trees m refs"

section \<open>\<open>MADV_DONTNEED\<close>\<close>

definition PAL_PROT_READ :: u32 where "PAL_PROT_READ = 1"
definition PAL_PROT_WRITE :: u32 where "PAL_PROT_WRITE = 2"
definition PAL_PROT_EXEC :: u32 where "PAL_PROT_EXEC = 4"
definition PAL_PROT_WRITECOPY :: u32 where "PAL_PROT_WRITECOPY = 8"

definition linux_prot_to_pal :: "u32 \<Rightarrow> u32 \<Rightarrow> u32" where
  "linux_prot_to_pal prot map_flags =
     (if has_flag prot PROT_READ then PAL_PROT_READ else 0) OR
     (if has_flag prot PROT_WRITE then PAL_PROT_WRITE else 0) OR
     (if has_flag prot PROT_EXEC then PAL_PROT_EXEC else 0) OR
     (if has_flag map_flags MAP_PRIVATE then PAL_PROT_WRITECOPY else 0)"

definition pal_prot_to_linux :: "u32 \<Rightarrow> u32" where
  "pal_prot_to_linux prot =
     (if has_flag prot PAL_PROT_READ then PROT_READ else 0) OR
     (if has_flag prot PAL_PROT_WRITE then PROT_WRITE else 0) OR
     (if has_flag prot PAL_PROT_EXEC then PROT_EXEC else 0)"

datatype pal_event = Pal_Protect u64 u64 u32 | Mem_Zero u64 u64

type_synonym pal_outcomes = "errno option list"

fun pal_call :: "pal_outcomes \<Rightarrow> errno option \<times> pal_outcomes" where
  "pal_call [] = (None, [])"
| "pal_call (r # rs) = (r, rs)"

record madvise_dontneed_ctx =
  ctx_begin :: u64
  ctx_end :: u64
  ctx_error :: "errno option"
  ctx_events :: "pal_event list"
  ctx_pal :: pal_outcomes
  ctx_bug :: bool

definition ctx_protect ::
    "u64 \<Rightarrow> u64 \<Rightarrow> u32 \<Rightarrow> madvise_dontneed_ctx \<Rightarrow> errno option \<times> madvise_dontneed_ctx" where
  "ctx_protect addr sz prot ctx =
     (let (r, rs) = pal_call (ctx_pal ctx)
      in (r, ctx\<lparr>ctx_pal := rs,
                 ctx_events := ctx_events ctx @ (if r = None then [Pal_Protect addr sz prot] else [])\<rparr>))"

definition ctx_zero :: "u64 \<Rightarrow> u64 \<Rightarrow> madvise_dontneed_ctx \<Rightarrow> madvise_dontneed_ctx" where
  "ctx_zero addr sz ctx = ctx\<lparr>ctx_events := ctx_events ctx @ [Mem_Zero addr sz]\<rparr>"

text \<open>\<open>ctx_bug\<close> stands for reaching \<open>BUG()\<close>, which ends the process.\<close>

definition madvise_dontneed_visitor ::
    "libos_vma \<Rightarrow> madvise_dontneed_ctx \<Rightarrow> madvise_dontneed_ctx \<times> bool" where
  "madvise_dontneed_visitor v ctx =
     (if has_flag (vflags v) (VMA_UNMAPPED OR VMA_INTERNAL) then (ctx\<lparr>ctx_error := Some EINVAL\<rparr>, False)
      else if vfile v \<noteq> None then
        (if has_flag (vflags v) VMA_TAINTED then (ctx\<lparr>ctx_error := Some ENOSYS\<rparr>, False) else (ctx, True))
      else
        (let zero_start = max (ctx_begin ctx) (begin_addr v);
             zero_end = min (ctx_end ctx) (end_addr v);
             pal_prot = linux_prot_to_pal (vprot v) (vflags v);
             pal_prot_writable = pal_prot OR PAL_PROT_WRITE
         in if pal_prot = pal_prot_writable then (ctx_zero zero_start (zero_end - zero_start) ctx, True)
            else
              (case ctx_protect zero_start (zero_end - zero_start) pal_prot_writable ctx of
                 (Some err, ctx1) \<Rightarrow> (ctx1\<lparr>ctx_error := Some err\<rparr>, False)
               | (None, ctx1) \<Rightarrow>
                   (case ctx_protect zero_start (zero_end - zero_start) pal_prot
                           (ctx_zero zero_start (zero_end - zero_start) ctx1) of
                      (Some _, ctx2) \<Rightarrow> (ctx2\<lparr>ctx_bug := True\<rparr>, False)
                    | (None, ctx2) \<Rightarrow> (ctx2, True)))))"

definition madvise_dontneed_range ::
    "u64 \<Rightarrow> u64 \<Rightarrow> pal_outcomes \<Rightarrow> libos_vma list \<Rightarrow> errno option \<times> madvise_dontneed_ctx" where
  "madvise_dontneed_range b e rs vs =
     (let (ctx, is_continuous) =
        traverse_vmas_in_range b e madvise_dontneed_visitor
          \<lparr>ctx_begin = b, ctx_end = e, ctx_error = None, ctx_events = [], ctx_pal = rs, ctx_bug = False\<rparr> vs
      in if \<not> is_continuous then (Some ENOMEM, ctx) else (ctx_error ctx, ctx))"

section \<open>What a traversal does\<close>

definition vmas_in :: "u64 \<Rightarrow> u64 \<Rightarrow> libos_vma list \<Rightarrow> libos_vma list" where
  "vmas_in b e vs = takeWhile (\<lambda>v. begin_addr v < e) (vmas_from b vs)"

fun visit_all :: "(libos_vma \<Rightarrow> 'c \<Rightarrow> 'c \<times> bool) \<Rightarrow> libos_vma list \<Rightarrow> 'c \<Rightarrow> 'c \<times> bool" where
  "visit_all visitor [] ctx = (ctx, True)"
| "visit_all visitor (v # vs) ctx =
     (case visitor v ctx of (ctx1, go) \<Rightarrow> if go then visit_all visitor vs ctx1 else (ctx1, False))"

lemma vmas_in_set:
  assumes "vmas_wf vs"
  shows "set (vmas_in b e vs) = {v \<in> set vs. b < end_addr v \<and> begin_addr v < e}"
proof -
  have wf: "vmas_wf (vmas_from b vs)" using vmas_wf_split(2) [OF assms] .
  have "set (takeWhile (\<lambda>v. begin_addr v < e) us) = {v \<in> set us. begin_addr v < e}" if "vmas_wf us" for us
    using that
  proof (induction us)
    case (Cons u us)
    then have "begin_addr u < begin_addr w" if "w \<in> set us" for w
      using vmas_wf_ends(3) [OF Cons.prems that] by simp
    with Cons show ?case by (force simp: vmas_wf_Cons)
  qed simp
  moreover have "set (vmas_from b vs) = {v \<in> set vs. b < end_addr v}"
  proof -
    have "set vs = set (vmas_below b vs) \<union> set (vmas_from b vs)" by (metis vmas_split set_append)
    with vmas_below_end [of _ b vs] vmas_from_end [OF assms] show ?thesis by fastforce
  qed
  ultimately show ?thesis using wf by (auto simp: vmas_in_def)
qed

lemma covered_in:
  assumes "vmas_wf vs" "b < e"
  shows "covered P b e vs \<longleftrightarrow> covered (\<lambda>_. True) b e vs \<and> (\<forall>v \<in> set (vmas_in b e vs). P v)"
proof
  assume cov: "covered P b e vs"
  have "P v" if v: "v \<in> set vs" "b < end_addr v" "begin_addr v < e" for v
  proof -
    have "is_addr_in_vma (max b (begin_addr v)) v" "b \<le> max b (begin_addr v)" "max b (begin_addr v) < e"
      using v assms(2) vmas_wf_area [OF assms(1) v(1)] by (auto simp: is_addr_in_vma_def)
    with cov obtain u where u: "u \<in> set vs" "is_addr_in_vma (max b (begin_addr v)) u" "P u"
      unfolding covered_def by blast
    have "u = v"
      using vma_at_unique [OF assms(1) u(1,2)] vma_at_unique [OF assms(1) v(1) \<open>is_addr_in_vma _ v\<close>] by simp
    with u show ?thesis by simp
  qed
  then show "covered (\<lambda>_. True) b e vs \<and> (\<forall>v \<in> set (vmas_in b e vs). P v)"
    using cov by (auto simp: vmas_in_set [OF assms(1)] covered_def)
next
  assume r: "covered (\<lambda>_. True) b e vs \<and> (\<forall>v \<in> set (vmas_in b e vs). P v)"
  show "covered P b e vs"
    unfolding covered_def
  proof (intro allI impI)
    fix a assume a: "b \<le> a \<and> a < e"
    with r obtain u where u: "u \<in> set vs" "is_addr_in_vma a u" unfolding covered_def by blast
    then have "u \<in> set (vmas_in b e vs)"
      using a by (auto simp: vmas_in_set [OF assms(1)] is_addr_in_vma_def)
    with r u show "\<exists>u \<in> set vs. is_addr_in_vma a u \<and> P u" by blast
  qed
qed

text \<open>A traversal visits the areas of the range until the visitor stops it; if it is not stopped it
  tells whether they leave no hole.\<close>

lemma traverse_loop_broken:
  "snd (visit_all visitor (takeWhile (\<lambda>v. begin_addr v < e) (v # vs)) ctx) \<Longrightarrow> begin_addr v < e \<Longrightarrow>
   \<not> snd (traverse_loop visitor e (v # vs) ctx False)"
proof (induction vs arbitrary: v ctx)
  case (Cons w ws)
  obtain ctx1 go where vis: "visitor v ctx = (ctx1, go)" by fastforce
  then show ?case
    using Cons.prems Cons.IH [of w ctx1] by (auto simp: not_le split: if_splits)
qed (auto split: prod.splits)

lemma traverse_loop_visits:
  "begin_addr v < e \<Longrightarrow> fst (traverse_loop visitor e (v # vs) ctx c) =
     fst (visit_all visitor (takeWhile (\<lambda>v. begin_addr v < e) (v # vs)) ctx)"
proof (induction vs arbitrary: v ctx c)
  case (Cons w ws)
  obtain ctx1 go where vis: "visitor v ctx = (ctx1, go)" by fastforce
  then show ?case
    using Cons.prems Cons.IH [of w] by (auto simp: not_le)
qed (auto split: prod.splits)

lemma traverse_loop_continuous:
  assumes "vmas_wf (v # vs)" "begin_addr v \<le> b" "b < end_addr v" "b < e"
    and "snd (visit_all visitor (takeWhile (\<lambda>v. begin_addr v < e) (v # vs)) ctx)"
  shows "snd (traverse_loop visitor e (v # vs) ctx True) \<longleftrightarrow> covered (\<lambda>_. True) b e (v # vs)"
  using assms
proof (induction vs arbitrary: v b ctx)
  case Nil
  then have "begin_addr v < e" by order
  then show ?case
    using Nil(5) covered_Cons [OF Nil(1-4)] by (auto simp: covered_Nil split: prod.splits if_splits)
next
  case (Cons w ws)
  let ?cov = "covered (\<lambda>_. True)"
  have lt: "begin_addr v < e" using Cons.prems(2,4) by order
  obtain ctx1 where vis: "visitor v ctx = (ctx1, True)"
    and all: "snd (visit_all visitor (takeWhile (\<lambda>v. begin_addr v < e) (w # ws)) ctx1)"
    using Cons.prems(5) lt by (auto split: prod.splits if_splits simp del: takeWhile.simps(2) simp: takeWhile.simps(2) [of _ v])
  have step: "?cov b e (v # w # ws) \<longleftrightarrow> e \<le> end_addr v \<or> ?cov (end_addr v) e (w # ws)"
    using covered_Cons [OF Cons.prems(1-4), of "\<lambda>_. True"] by simp
  have wf: "vmas_wf (w # ws)" "begin_addr w < end_addr w" "end_addr v \<le> begin_addr w"
    using Cons.prems(1) by (simp_all add: vmas_wf_Cons)
  have hole: "\<not> ?cov (end_addr v) e (w # ws)" if "end_addr v < e" "end_addr v \<noteq> begin_addr w"
    using that covered_next [OF Cons.prems(1) that(1)] by auto
  consider (last) "e \<le> begin_addr w" | (adjacent) "\<not> e \<le> begin_addr w" "end_addr v = begin_addr w"
    | (gap) "\<not> e \<le> begin_addr w" "end_addr v \<noteq> begin_addr w" by blast
  then show ?case
  proof cases
    case last
    then have "e \<le> end_addr v \<or> end_addr v < e \<and> end_addr v \<noteq> begin_addr w" by auto
    with last hole show ?thesis unfolding step by (auto simp: vis)
  next
    case adjacent
    have "snd (traverse_loop visitor e (w # ws) ctx1 True) \<longleftrightarrow> ?cov (end_addr v) e (w # ws)"
      using adjacent wf(2) by (intro Cons.IH [OF wf(1) _ _ _ all]) auto
    with adjacent show ?thesis unfolding step by (simp add: vis)
  next
    case gap
    then have "end_addr v < e" "begin_addr w < e" using wf(3) by auto
    with gap hole show ?thesis
      unfolding step using traverse_loop_broken [OF all] by (simp add: vis)
  qed
qed

lemma traverse_spec:
  assumes "vmas_wf vs" "b < e"
  shows "fst (traverse_vmas_in_range b e visitor ctx vs) = fst (visit_all visitor (vmas_in b e vs) ctx)"
    "snd (visit_all visitor (vmas_in b e vs) ctx) \<Longrightarrow>
       snd (traverse_vmas_in_range b e visitor ctx vs) \<longleftrightarrow> covered (\<lambda>_. True) b e vs"
proof -
  have ne: "b \<noteq> e" using assms(2) by simp
  have cov: "covered (\<lambda>_. True) b e vs \<longleftrightarrow> covered (\<lambda>_. True) b e (vmas_from b vs)"
    using covered_from [OF assms] .
  have "fst (traverse_vmas_in_range b e visitor ctx vs) = fst (visit_all visitor (vmas_in b e vs) ctx) \<and>
    (snd (visit_all visitor (vmas_in b e vs) ctx) \<longrightarrow>
       (snd (traverse_vmas_in_range b e visitor ctx vs) \<longleftrightarrow> covered (\<lambda>_. True) b e vs))"
  proof (cases "vmas_from b vs")
    case Nil
    then show ?thesis using assms(2) ne by (simp add: traverse_vmas_in_range_def vmas_in_def cov covered_Nil)
  next
    case (Cons v rest)
    have wf: "vmas_wf (v # rest)" "b < end_addr v"
      using vmas_wf_split(2) [OF assms(1), of b] vmas_from_end [OF assms(1), of v b] Cons by simp_all
    have hole: "\<not> covered (\<lambda>_. True) b e (v # rest)" if "b < begin_addr v"
      using mapped_above [of "v # rest" "begin_addr v" b] that assms(2) vmas_wf_ends(3) [OF wf(1)]
      by (fastforce simp: covered_def mapped_None)
    consider (after) "e \<le> begin_addr v" | (inside) "begin_addr v \<le> b" | (gap) "b < begin_addr v" "begin_addr v < e" by fastforce
    then show ?thesis
    proof cases
      case after
      then have "b < begin_addr v" using assms(2) by order
      with after hole show ?thesis using ne leD [OF after] by (simp add: traverse_vmas_in_range_def vmas_in_def cov Cons)
    next
      case inside
      then have "begin_addr v < e" using assms(2) by order
      with inside leD show ?thesis
        using traverse_loop_visits [of v e visitor rest ctx True]
          traverse_loop_continuous [OF wf(1) inside wf(2) assms(2), of visitor ctx]
        by (simp add: traverse_vmas_in_range_def vmas_in_def cov Cons ne less_le_not_le del: traverse_loop.simps takeWhile.simps)
    next
      case gap
      then show ?thesis
        using leD traverse_loop_visits [of v e visitor rest ctx False] hole
          traverse_loop_broken [of visitor e v rest ctx]
        by (simp add: traverse_vmas_in_range_def vmas_in_def cov Cons ne less_le_not_le del: traverse_loop.simps takeWhile.simps)
    qed
  qed
  then show "fst (traverse_vmas_in_range b e visitor ctx vs) = fst (visit_all visitor (vmas_in b e vs) ctx)"
    "snd (visit_all visitor (vmas_in b e vs) ctx) \<Longrightarrow>
       snd (traverse_vmas_in_range b e visitor ctx vs) \<longleftrightarrow> covered (\<lambda>_. True) b e vs" by blast+
qed

section \<open>The range check is exact\<close>

definition user_page :: "u32 \<Rightarrow> u32 \<times> u32 \<times> nat option \<times> u64 \<Rightarrow> bool" where
  "user_page prot x \<longleftrightarrow>
     (case x of (p, f, _, _) \<Rightarrow> \<not> has_flag f (VMA_INTERNAL OR VMA_UNMAPPED) \<and> p AND prot = prot)"

lemma visit_all_adj:
  "visit_all (adj_visitor prot) vs True =
     ((\<forall>v \<in> set vs. user_page prot (vma_view v a)), (\<forall>v \<in> set vs. user_page prot (vma_view v a)))"
  by (induction vs) (simp_all add: adj_visitor_def user_page_def vma_view_def Let_def)

lemma area_mapped:
  assumes "vmas_wf vs"
  shows "(\<exists>u \<in> set vs. is_addr_in_vma a u \<and> P (vma_view u a)) \<longleftrightarrow> (\<exists>x. mapped vs a = Some x \<and> P x)"
proof (cases "vma_at vs a")
  case None
  then have "mapped vs a = None" by (simp add: mapped_def)
  with None show ?thesis by (auto simp: vma_at_None)
next
  case (Some v)
  have "u = v" if "u \<in> set vs" "is_addr_in_vma a u" for u
    using vma_at_unique [OF assms that] Some by simp
  with Some vma_at_SomeD [OF Some] show ?thesis by (auto simp: mapped_def)
qed

lemma adjacent_empty: "is_in_adjacent_user_vmas addr 0 prot vs"
  by (simp add: is_in_adjacent_user_vmas_def traverse_vmas_in_range_def)

lemma adjacent_covered:
  assumes "vmas_wf vs" "addr \<le> addr + len"
  shows "is_in_adjacent_user_vmas addr len prot vs \<longleftrightarrow>
    (\<forall>a. addr \<le> a \<and> a < addr + len \<longrightarrow> (\<exists>x. mapped vs a = Some x \<and> user_page prot x))"
proof (cases "addr = addr + len")
  case True
  then have "len = 0" by simp
  then show ?thesis by (auto simp: adjacent_empty)
next
  case False
  with assms(2) have lt: "addr < addr + len" by (metis order_le_imp_less_or_eq)
  let ?ok = "\<forall>v \<in> set (vmas_in addr (addr + len) vs). user_page prot (vma_view v 0)"
  note spec = traverse_spec [OF assms(1) lt, where visitor = "adj_visitor prot" and ctx = True,
      unfolded visit_all_adj [where a = 0] fst_conv snd_conv]
  have "is_in_adjacent_user_vmas addr len prot vs \<longleftrightarrow> ?ok \<and> covered (\<lambda>_. True) addr (addr + len) vs"
    using spec by (auto simp: is_in_adjacent_user_vmas_def split: prod.split)
  also have "\<dots> \<longleftrightarrow> covered (\<lambda>v. user_page prot (vma_view v 0)) addr (addr + len) vs"
    unfolding covered_in [OF assms(1) lt, of "\<lambda>v. user_page prot (vma_view v 0)"] by blast
  also have "\<dots> \<longleftrightarrow> (\<forall>a. addr \<le> a \<and> a < addr + len \<longrightarrow>
      (\<exists>u \<in> set vs. is_addr_in_vma a u \<and> user_page prot (vma_view u a)))"
    by (simp add: covered_def user_page_def vma_view_def)
  also have "\<dots> \<longleftrightarrow> (\<forall>a. addr \<le> a \<and> a < addr + len \<longrightarrow> (\<exists>x. mapped vs a = Some x \<and> user_page prot x))"
    by (simp only: area_mapped [OF assms(1)])
  finally show ?thesis .
qed

section \<open>Lookup and dumps\<close>

lemma lookup_vma_spec:
  assumes "vmas_wf vs"
  shows "lookup_vma addr vs refs =
    (case vma_at vs addr of
       None \<Rightarrow> (Inl ENOENT, refs)
     | Some v \<Rightarrow> (Inr (dump_vma v), get_info_file (vfile v) refs))"
proof (cases "vmas_from addr vs")
  case Nil
  then have "vma_at vs addr = None"
    using vmas_from_Nil [of addr vs] by (fastforce simp: vma_at_None is_addr_in_vma_def)
  with Nil show ?thesis by (simp add: lookup_vma_def lookup_vma_node_def)
next
  case (Cons v rest)
  have wf: "vmas_wf (v # rest)" using vmas_wf_split(2) [OF assms, of addr] Cons by simp
  have "vma_at (vmas_below addr vs) addr = None"
    using vmas_below_end [of _ addr vs] by (fastforce simp: vma_at_None is_addr_in_vma_def)
  moreover have "vma_at (v # rest) addr = (if is_addr_in_vma addr v then Some v else None)"
  proof (cases "is_addr_in_vma addr v")
    case False
    have "addr < end_addr v" using vmas_from_end [OF assms, of v addr] Cons by simp
    with False have "addr < begin_addr v" by (auto simp: is_addr_in_vma_def)
    then have "vma_at rest addr = None"
      using vmas_wf_ends(3) [OF wf] by (fastforce simp: vma_at_None is_addr_in_vma_def)
    with False show ?thesis by (simp add: vma_at_Cons)
  qed (simp add: vma_at_Cons)
  moreover have "vma_at vs addr = vma_at (vmas_below addr vs @ v # rest) addr"
    using vmas_split [of addr vs] Cons by simp
  ultimately have "vma_at vs addr = (if is_addr_in_vma addr v then Some v else None)"
    by (simp add: vma_at_append)
  with Cons show ?thesis by (simp add: lookup_vma_def lookup_vma_node_def)
qed

text \<open>References taken for a list of areas, and put again.\<close>

definition files_in :: "nat \<Rightarrow> nat option list \<Rightarrow> nat" where
  "files_in h fs = length (filter (\<lambda>f. f = Some h) fs)"

lemma get_files: "fold (\<lambda>v. get_info_file (vfile v)) vs refs h = refs h + files_in h (map vfile vs)"
  by (induction vs arbitrary: refs) (auto simp: files_in_def get_info_file_def split: option.splits)

lemma put_files: "free_vma_info_array infos refs h = refs h - files_in h (map info_file infos)"
  unfolding free_vma_info_array_def
  by (induction infos arbitrary: refs) (auto simp: files_in_def put_info_file_def split: option.splits)

lemma dump_free:
  "free_vma_info_array (map dump_vma vs) (fold (\<lambda>v. get_info_file (vfile v)) vs refs) = refs"
proof
  fix h
  have "map info_file (map dump_vma vs) = map vfile vs" by (simp add: dump_vma_def)
  then show "free_vma_info_array (map dump_vma vs) (fold (\<lambda>v. get_info_file (vfile v)) vs refs) h = refs h"
    by (simp only: put_files get_files add_diff_cancel_right')
qed

lemma dump_loop:
  "dump_vmas_loop f n e vs (infos, sz, refs) =
     (let us = filter f (takeWhile (\<lambda>v. begin_addr v < e) vs); seen = take (n - sz) us
      in (infos @ map dump_vma seen, sz + length us, fold (\<lambda>v. get_info_file (vfile v)) seen refs))"
proof (induction vs arbitrary: infos sz refs)
  case (Cons v vs)
  have "n - sz = Suc (n - (sz + 1))" if "sz < n" using that by simp
  with Cons show ?case by (auto simp: Let_def less_le_not_le)
qed simp

lemma dump_with_buf:
  "dump_vmas_with_buf n b e f vs refs =
     (let us = filter f (vmas_in b e vs)
      in (map dump_vma (take n us), length us, fold (\<lambda>v. get_info_file (vfile v)) (take n us) refs))"
  by (simp add: dump_vmas_with_buf_def dump_loop vmas_in_def Let_def)

lemma dump_rounds_result:
  assumes "dump_vmas_rounds b e f count trees m refs = Some (m', r, refs')"
  shows "case r of
      Inl err \<Rightarrow> err = ENOMEM \<and> refs' = refs
    | Inr infos \<Rightarrow> (\<exists>vs \<in> set trees. infos = map dump_vma (filter f (vmas_in b e vs))) \<and>
        free_vma_info_array infos refs' = refs"
  using assms
proof (induction trees arbitrary: count m)
  case (Cons vs trees)
  let ?us = "filter f (vmas_in b e vs)"
  consider (oom) "\<not> fst (malloc m)" | (enough) "fst (malloc m)" "length ?us \<le> count"
    | (more) "fst (malloc m)" "\<not> length ?us \<le> count" by blast
  then show ?case
  proof cases
    case more
    have "dump_vmas_rounds b e f (length ?us) trees (snd (malloc m)) refs = Some (m', r, refs')"
      using Cons.prems more by (simp add: dump_with_buf Let_def dump_free case_prod_beta)
    from Cons.IH [OF this] show ?thesis by (auto split: sum.splits)
  qed (use Cons.prems in \<open>auto simp: dump_with_buf Let_def dump_free case_prod_beta\<close>)
qed simp

lemma dump_two_rounds:
  assumes "trees = vs # vs # trees0"
  shows "\<exists>res. dump_vmas b e f trees m refs = Some res"
  by (auto simp: assms dump_vmas_def dump_with_buf Let_def case_prod_beta)

section \<open>The effect of \<open>MADV_DONTNEED\<close>\<close>

text \<open>The machine the events act on: the bytes, and the protection the PAL has set. Writing to an
  address without write permission faults.\<close>

record machine =
  bytes :: "u64 \<Rightarrow> u8"
  perms :: "u64 \<Rightarrow> u32"

definition in_range :: "u64 \<Rightarrow> u64 \<Rightarrow> u64 \<Rightarrow> bool" where
  "in_range s n a \<longleftrightarrow> s \<le> a \<and> a < s + n"

fun apply_event :: "pal_event \<Rightarrow> machine \<Rightarrow> machine option" where
  "apply_event (Pal_Protect s n p) M = Some (M\<lparr>perms := (\<lambda>a. if in_range s n a then p else perms M a)\<rparr>)"
| "apply_event (Mem_Zero s n) M =
     (if \<forall>a. in_range s n a \<longrightarrow> has_flag (perms M a) PAL_PROT_WRITE
      then Some (M\<lparr>bytes := (\<lambda>a. if in_range s n a then 0 else bytes M a)\<rparr>) else None)"

fun run_events :: "pal_event list \<Rightarrow> machine \<Rightarrow> machine option" where
  "run_events [] M = Some M"
| "run_events (ev # evs) M = (case apply_event ev M of None \<Rightarrow> None | Some M1 \<Rightarrow> run_events evs M1)"

lemma run_events_append:
  "run_events (evs @ evs') M = (case run_events evs M of None \<Rightarrow> None | Some M1 \<Rightarrow> run_events evs' M1)"
  by (induction evs arbitrary: M) (auto split: option.split)

lemma writable_prot: "has_flag (p OR PAL_PROT_WRITE) PAL_PROT_WRITE"
  "p = p OR PAL_PROT_WRITE \<Longrightarrow> has_flag p PAL_PROT_WRITE"
proof -
  show r: "has_flag (p OR PAL_PROT_WRITE) PAL_PROT_WRITE" for p
  proof -
    have "bit ((p OR 2) AND 2) (1::nat)" by (simp add: bit_simps)
    then show ?thesis unfolding has_flag_def PAL_PROT_WRITE_def by auto
  qed
  show "has_flag p PAL_PROT_WRITE" if "p = p OR PAL_PROT_WRITE" using r [of p] that by simp
qed

text \<open>One visit of an anonymous area: its part of the range is zeroed, its protection is as before.\<close>

lemma visit_anonymous:
  assumes "madvise_dontneed_visitor v ctx = (ctx', True)" "vfile v = None" "b < end_addr v" "begin_addr v < e"
    and "begin_addr v < end_addr v" "b < e" "ctx_begin ctx = b" "ctx_end ctx = e"
    and "\<And>a. b \<le> a \<Longrightarrow> a < e \<Longrightarrow> is_addr_in_vma a v \<Longrightarrow> perms M a = linux_prot_to_pal (vprot v) (vflags v)"
  shows "\<exists>evs. ctx_events ctx' = ctx_events ctx @ evs \<and>
    run_events evs M = Some (M\<lparr>bytes := (\<lambda>a. if b \<le> a \<and> a < e \<and> is_addr_in_vma a v then 0 else bytes M a)\<rparr>)"
proof -
  let ?s = "max b (begin_addr v)" and ?t = "min e (end_addr v)"
  let ?p = "linux_prot_to_pal (vprot v) (vflags v)"
  have rng: "in_range ?s (?t - ?s) a \<longleftrightarrow> b \<le> a \<and> a < e \<and> is_addr_in_vma a v" for a
    by (auto simp: in_range_def is_addr_in_vma_def)
  show ?thesis
  proof (cases "?p = ?p OR PAL_PROT_WRITE")
    case True
    then have "ctx_events ctx' = ctx_events ctx @ [Mem_Zero ?s (?t - ?s)]"
      using assms(1,2,7,8) by (auto simp: madvise_dontneed_visitor_def Let_def ctx_zero_def split: if_splits)
    moreover have "has_flag ?p PAL_PROT_WRITE" using writable_prot(2) [OF True] .
    ultimately show ?thesis
      using assms(9) by (intro exI [of _ "[Mem_Zero ?s (?t - ?s)]"]) (auto simp: rng)
  next
    case False
    let ?evs = "[Pal_Protect ?s (?t - ?s) (?p OR PAL_PROT_WRITE), Mem_Zero ?s (?t - ?s), Pal_Protect ?s (?t - ?s) ?p]"
    have "ctx_events ctx' = ctx_events ctx @ ?evs"
      using assms(1,2,7,8) False
      by (auto simp: madvise_dontneed_visitor_def Let_def ctx_zero_def ctx_protect_def split: if_splits option.splits prod.splits)
    moreover have "run_events ?evs M =
        Some (M\<lparr>bytes := (\<lambda>a. if b \<le> a \<and> a < e \<and> is_addr_in_vma a v then 0 else bytes M a)\<rparr>)"
      using assms(9) by (auto simp: rng writable_prot(1) fun_eq_iff intro!: machine.equality)
    ultimately show ?thesis by blast
  qed
qed

definition zero_pages :: "(u64 \<Rightarrow> bool) \<Rightarrow> machine \<Rightarrow> machine" where
  "zero_pages P M = M\<lparr>bytes := (\<lambda>a. if P a then 0 else bytes M a)\<rparr>"

lemma zero_pages_simps [simp]:
  "perms (zero_pages P M) = perms M" "zero_pages Q (zero_pages P M) = zero_pages (\<lambda>a. P a \<or> Q a) M"
  "zero_pages (\<lambda>_. False) M = M"
  by (simp_all add: zero_pages_def fun_eq_iff)

definition dontneed_page :: "u32 \<times> u32 \<times> nat option \<times> u64 \<Rightarrow> bool" where
  "dontneed_page x \<longleftrightarrow>
     (case x of (p, f, file, off) \<Rightarrow>
        \<not> has_flag f (VMA_UNMAPPED OR VMA_INTERNAL) \<and> (file \<noteq> None \<longrightarrow> \<not> has_flag f VMA_TAINTED))"

lemma visitor_go:
  "madvise_dontneed_visitor v ctx = (ctx', True) \<Longrightarrow>
   dontneed_page (vma_view v a) \<and> ctx_begin ctx' = ctx_begin ctx \<and> ctx_end ctx' = ctx_end ctx \<and>
   ctx_error ctx' = ctx_error ctx \<and> ctx_bug ctx' = ctx_bug ctx \<and> (vfile v \<noteq> None \<longrightarrow> ctx' = ctx)"
  by (auto simp: madvise_dontneed_visitor_def dontneed_page_def vma_view_def ctx_protect_def ctx_zero_def Let_def
      split: if_splits option.splits prod.splits)

lemma visitor_stop: "madvise_dontneed_visitor v ctx = (ctx', False) \<Longrightarrow> ctx_error ctx' \<noteq> None \<or> ctx_bug ctx'"
  by (auto simp: madvise_dontneed_visitor_def Let_def split: if_splits option.splits prod.splits)

lemma visit_all_stop:
  "\<not> snd (visit_all madvise_dontneed_visitor us ctx) \<Longrightarrow>
   ctx_error (fst (visit_all madvise_dontneed_visitor us ctx)) \<noteq> None \<or>
   ctx_bug (fst (visit_all madvise_dontneed_visitor us ctx))"
  by (induction us arbitrary: ctx) (auto split: prod.splits if_splits dest: visitor_stop)

lemma visit_one:
  assumes "madvise_dontneed_visitor v ctx = (ctx', True)" "b < end_addr v" "begin_addr v < e"
    and "begin_addr v < end_addr v" "b < e" "ctx_begin ctx = b" "ctx_end ctx = e"
    and "\<And>a. b \<le> a \<Longrightarrow> a < e \<Longrightarrow> is_addr_in_vma a v \<Longrightarrow> perms M a = linux_prot_to_pal (vprot v) (vflags v)"
  shows "\<exists>evs. ctx_events ctx' = ctx_events ctx @ evs \<and>
    run_events evs M = Some (zero_pages (\<lambda>a. b \<le> a \<and> a < e \<and> is_addr_in_vma a v \<and> vfile v = None) M)"
proof (cases "vfile v")
  case None
  then show ?thesis using visit_anonymous [OF assms(1) None assms(2-8)] by (simp add: zero_pages_def)
next
  case (Some h)
  then show ?thesis using visitor_go [OF assms(1)] by (intro exI [of _ "[]"]) simp
qed

lemma visit_many:
  assumes "visit_all madvise_dontneed_visitor us ctx = (ctx', True)" "b < e" "ctx_begin ctx = b" "ctx_end ctx = e"
    and "\<And>u. u \<in> set us \<Longrightarrow> b < end_addr u \<and> begin_addr u < e \<and> begin_addr u < end_addr u"
    and "\<And>u a. u \<in> set us \<Longrightarrow> b \<le> a \<Longrightarrow> a < e \<Longrightarrow> is_addr_in_vma a u \<Longrightarrow>
           perms M a = linux_prot_to_pal (vprot u) (vflags u)"
  shows "ctx_error ctx' = ctx_error ctx \<and> ctx_bug ctx' = ctx_bug ctx \<and>
    (\<forall>u a. u \<in> set us \<longrightarrow> dontneed_page (vma_view u a)) \<and>
    (\<exists>evs. ctx_events ctx' = ctx_events ctx @ evs \<and>
      run_events evs M =
        Some (zero_pages (\<lambda>a. b \<le> a \<and> a < e \<and> (\<exists>u \<in> set us. is_addr_in_vma a u \<and> vfile u = None)) M))"
  using assms
proof (induction us arbitrary: ctx M)
  case (Cons v us)
  obtain ctx1 where vis: "madvise_dontneed_visitor v ctx = (ctx1, True)"
    and rest: "visit_all madvise_dontneed_visitor us ctx1 = (ctx', True)"
    using Cons.prems(1) by (auto split: prod.splits if_splits)
  note go = visitor_go [OF vis]
  obtain evs1 where evs1: "ctx_events ctx1 = ctx_events ctx @ evs1"
    "run_events evs1 M = Some (zero_pages (\<lambda>a. b \<le> a \<and> a < e \<and> is_addr_in_vma a v \<and> vfile v = None) M)"
    using visit_one [OF vis, of b e M] Cons.prems by auto
  let ?M = "zero_pages (\<lambda>a. b \<le> a \<and> a < e \<and> is_addr_in_vma a v \<and> vfile v = None) M"
  have "ctx_begin ctx1 = b" "ctx_end ctx1 = e" using go Cons.prems(3,4) by simp_all
  from Cons.IH [OF rest Cons.prems(2) this, of ?M] Cons.prems(5,6)
  have IH: "ctx_error ctx' = ctx_error ctx1" "ctx_bug ctx' = ctx_bug ctx1"
    "\<forall>u a. u \<in> set us \<longrightarrow> dontneed_page (vma_view u a)"
    and "\<exists>evs. ctx_events ctx' = ctx_events ctx1 @ evs \<and> run_events evs ?M =
      Some (zero_pages (\<lambda>a. b \<le> a \<and> a < e \<and> (\<exists>u \<in> set us. is_addr_in_vma a u \<and> vfile u = None)) ?M)"
    by auto
  then obtain evs2 where evs2: "ctx_events ctx' = ctx_events ctx1 @ evs2" "run_events evs2 ?M =
      Some (zero_pages (\<lambda>a. b \<le> a \<and> a < e \<and> (\<exists>u \<in> set us. is_addr_in_vma a u \<and> vfile u = None)) ?M)"
    by blast
  have "run_events (evs1 @ evs2) M =
      Some (zero_pages (\<lambda>a. b \<le> a \<and> a < e \<and> (\<exists>u \<in> set (v # us). is_addr_in_vma a u \<and> vfile u = None)) M)"
    unfolding run_events_append evs1(2) option.case evs2(2) zero_pages_simps
    by (rule arg_cong [of _ _ "\<lambda>P. Some (zero_pages P M)"]) auto
  with evs1(1) evs2(1) IH go visitor_go [OF vis] show ?case by auto
qed simp

lemma madvise_dontneed_effect:
  assumes "madvise_dontneed_range b e rs vs = (None, ctx)" "\<not> ctx_bug ctx" "vmas_wf vs" "b < e"
    and "\<And>a p f file off. b \<le> a \<Longrightarrow> a < e \<Longrightarrow> mapped vs a = Some (p, f, file, off) \<Longrightarrow>
           perms M a = linux_prot_to_pal p f"
  shows "(\<forall>a. b \<le> a \<and> a < e \<longrightarrow> (\<exists>x. mapped vs a = Some x \<and> dontneed_page x)) \<and>
    run_events (ctx_events ctx) M =
      Some (zero_pages (\<lambda>a. b \<le> a \<and> a < e \<and> (\<exists>p f off. mapped vs a = Some (p, f, None, off))) M)"
proof -
  define ctx0 where "ctx0 = \<lparr>ctx_begin = b, ctx_end = e, ctx_error = None, ctx_events = [], ctx_pal = rs, ctx_bug = False\<rparr>"
  let ?us = "vmas_in b e vs"
  note spec = traverse_spec [OF assms(3,4), where visitor = madvise_dontneed_visitor and ctx = ctx0]
  have res: "snd (traverse_vmas_in_range b e madvise_dontneed_visitor ctx0 vs)"
    "fst (visit_all madvise_dontneed_visitor ?us ctx0) = ctx" "ctx_error ctx = None"
    using assms(1) spec(1) by (auto simp: madvise_dontneed_range_def ctx0_def [symmetric] split: prod.splits if_splits)
  then have snd: "snd (visit_all madvise_dontneed_visitor ?us ctx0)"
    using visit_all_stop [of ?us ctx0] assms(2) by auto
  then have vis: "visit_all madvise_dontneed_visitor ?us ctx0 = (ctx, True)" using res(2) by (metis prod.collapse)
  have cov: "covered (\<lambda>_. True) b e vs" using spec(2) [OF snd] res(1) by blast
  have area: "mapped vs a = Some (vma_view u a)" if "u \<in> set ?us" "is_addr_in_vma a u" for u a
    using that vma_at_unique [OF assms(3), of u a] by (simp add: mapped_def vmas_in_set [OF assms(3)])
  have many: "(\<forall>u a. u \<in> set ?us \<longrightarrow> dontneed_page (vma_view u a)) \<and>
    (\<exists>evs. ctx_events ctx = ctx_events ctx0 @ evs \<and> run_events evs M =
        Some (zero_pages (\<lambda>a. b \<le> a \<and> a < e \<and> (\<exists>u \<in> set ?us. is_addr_in_vma a u \<and> vfile u = None)) M))"
  proof -
    have "perms M a = linux_prot_to_pal (vprot u) (vflags u)"
      if "u \<in> set ?us" "b \<le> a" "a < e" "is_addr_in_vma a u" for u a
      using assms(5) [OF that(2,3)] area [OF that(1,4)] by (simp add: vma_view_def)
    moreover have "b < end_addr u \<and> begin_addr u < e \<and> begin_addr u < end_addr u" if "u \<in> set ?us" for u
      using that vmas_wf_area [OF assms(3)] by (simp add: vmas_in_set [OF assms(3)])
    moreover have "ctx_begin ctx0 = b" "ctx_end ctx0 = e" by (simp_all add: ctx0_def)
    ultimately show ?thesis using visit_many [OF vis assms(4), of M] by blast
  qed
  have in_us: "u \<in> set ?us" if "b \<le> a" "a < e" "u \<in> set vs" "is_addr_in_vma a u" for a u
    using that by (auto simp: vmas_in_set [OF assms(3)] is_addr_in_vma_def)
  have at: "\<exists>u \<in> set ?us. is_addr_in_vma a u \<and> mapped vs a = Some (vma_view u a)" if "b \<le> a" "a < e" for a
    using cov that in_us [OF that] area unfolding covered_def by blast
  have anon: "(\<exists>u \<in> set ?us. is_addr_in_vma a u \<and> vfile u = None) \<longleftrightarrow> (\<exists>p f off. mapped vs a = Some (p, f, None, off))"
    if "b \<le> a" "a < e" for a
  proof
    assume "\<exists>u \<in> set ?us. is_addr_in_vma a u \<and> vfile u = None"
    then show "\<exists>p f off. mapped vs a = Some (p, f, None, off)" using area by (fastforce simp: vma_view_def)
  next
    assume "\<exists>p f off. mapped vs a = Some (p, f, None, off)"
    then show "\<exists>u \<in> set ?us. is_addr_in_vma a u \<and> vfile u = None" using at [OF that] by (auto simp: vma_view_def)
  qed
  have page: "\<exists>x. mapped vs a = Some x \<and> dontneed_page x" if "b \<le> a" "a < e" for a
    using at [OF that] many by blast
  have "(\<lambda>a. b \<le> a \<and> a < e \<and> (\<exists>u \<in> set ?us. is_addr_in_vma a u \<and> vfile u = None)) =
     (\<lambda>a. b \<le> a \<and> a < e \<and> (\<exists>p f off. mapped vs a = Some (p, f, None, off)))"
    using anon by (simp only: fun_eq_iff) blast
  moreover have "ctx_events ctx0 = []" by (simp add: ctx0_def)
  ultimately show ?thesis using many page by (simp only: append_Nil) blast
qed

end
