(* ===== verification/Vma_Init.thy ===== *)
theory Vma_Init
  imports Vma_Search Vma_Query
begin

text \<open>
  The start of \<^verbatim>\<open>libos/src/bookkeep/libos_vma.c\<close>: \<open>init_vma\<close>, that is, the initial areas of the
  PAL, the randomised top address and the memory manager for areas with its objects; and
  \<open>_vma_malloc\<close>, with which that manager gets its memory. At last \<open>init_vma\<close> copies the initial areas
  from the stack to objects of the manager and swaps the nodes, which does not change what
  the tree holds.
\<close>

section \<open>Initial areas\<close>

record mem_range =
  range_start :: u64
  range_end :: u64
  range_prot :: u32
  range_is_free :: bool
  range_comment :: string

definition init_vma_of_range :: "mem_range \<Rightarrow> libos_vma" where
  "init_vma_of_range r =
     \<lparr>begin_addr = range_start r, end_addr = range_end r, vprot = pal_prot_to_linux (range_prot r),
      vflags = MAP_PRIVATE OR MAP_ANONYMOUS OR VMA_INTERNAL, vfile = None, voffset = 0,
      vcomment = copy_comment (range_comment r)\<rparr>"

fun init_vmas_loop :: "pal_public_state \<Rightarrow> libos_vma list \<Rightarrow> vma_state \<Rightarrow> errno option \<times> vma_state" where
  "init_vmas_loop pal [] st = (None, st)"
| "init_vmas_loop pal (v # vs) st =
     (let st1 = vma_assert (begin_addr v \<le> end_addr v) st in
      if begin_addr v = end_addr v then init_vmas_loop pal vs st1
      else if \<not> is_alloc_aligned pal (begin_addr v) \<or> \<not> is_alloc_aligned pal (end_addr v) then (Some EINVAL, st1)
      else
        (case bkeep_initial_vma v st1 of
           (Some err, st2) \<Rightarrow> (Some err, st2)
         | (None, st2) \<Rightarrow> init_vmas_loop pal vs st2))"

definition init_vmas :: "pal_public_state \<Rightarrow> mem_range list \<Rightarrow> vma_state \<Rightarrow> errno option \<times> vma_state" where
  "init_vmas pal ranges st =
     (let vs = map init_vma_of_range (filter (\<lambda>r. \<not> range_is_free r) ranges);
          st1 = vma_assert (list_all (\<lambda>v. is_alloc_aligned pal (begin_addr v) \<and> is_alloc_aligned pal (end_addr v)) vs) st
      in init_vmas_loop pal vs st1)"

section \<open>The randomised top address\<close>

definition ASLR_BITS :: nat where "ASLR_BITS = 12"

text \<open>\<open>rnd\<close> is the outcome of \<open>PalRandomBitsRead\<close>.\<close>

definition init_aslr_addr_top :: "pal_public_state \<Rightarrow> errno + u64 \<Rightarrow> errno + u64" where
  "init_aslr_addr_top pal rnd =
     (if disable_aslr pal then Inr (memory_address_end pal)
      else
        (let gap_max_size = (memory_address_end pal - memory_address_start pal) div 6 * 5 in
         if push_bit ASLR_BITS 1 \<le> gap_max_size div alloc_align pal then
           (case rnd of
              Inl err \<Rightarrow> Inl err
            | Inr gap \<Rightarrow> Inr (memory_address_end pal - alloc_align_down pal (gap mod gap_max_size)))
         else Inr (memory_address_end pal)))"

section \<open>Memory for the memory manager\<close>

text \<open>\<open>pal_ret\<close> is the outcome of \<open>PalVirtualMemoryAlloc\<close>; reaching \<open>BUG()\<close> is a failed assertion.\<close>

definition vma_malloc ::
    "pal_public_state \<Rightarrow> handles \<Rightarrow> mem \<Rightarrow> errno option \<Rightarrow> u64 \<Rightarrow> vma_state \<Rightarrow> mem \<times> u64 option \<times> vma_state" where
  "vma_malloc pal hs m pal_ret sz0 st =
     (let sz = alloc_align_up pal sz0 in
      case bkeep_mmap_any pal hs m sz (PROT_READ OR PROT_WRITE)
             (MAP_PRIVATE OR MAP_ANONYMOUS OR VMA_INTERNAL) None 0 ''vma'' st of
        (m1, Inl _, st1) \<Rightarrow> (m1, None, st1)
      | (m1, Inr addr, st1) \<Rightarrow>
          (case pal_ret of
             None \<Rightarrow> (m1, Some addr, st1)
           | Some _ \<Rightarrow>
               (let (ret, used, freed, st2) = vma_bkeep_remove hs addr (addr + sz) True False st1
                in (m1, None, free_vmas_freelist hs freed (vma_assert (ret = None) st2)))))"

text \<open>
  The memory manager of \<^verbatim>\<open>common/include/memmgr.h\<close>, as far as \<open>init_vma\<close> uses it: the sizes of its
  structures, which the compiler chooses, and how many objects it has to give.
\<close>

record mgr_layout =
  sizeof_mgr :: u64
  sizeof_area :: u64
  sizeof_obj :: u64

definition max_mem_size :: "mgr_layout \<Rightarrow> nat \<Rightarrow> u64" where
  "max_mem_size lay count = sizeof_mgr lay + sizeof_area lay + sizeof_obj lay * of_nat count"

text \<open>The quotient is less than the alignment, so the sum does not wrap around.\<close>

definition size_align_up :: "pal_public_state \<Rightarrow> mgr_layout \<Rightarrow> nat \<Rightarrow> nat" where
  "size_align_up pal lay count =
     (let s = max_mem_size lay count - sizeof_mgr lay; p = alloc_align_up pal s - s
      in count + unat (p div sizeof_obj lay))"

definition enlarge_size :: "pal_public_state \<Rightarrow> mgr_layout \<Rightarrow> u64" where
  "enlarge_size pal lay = sizeof_area lay + sizeof_obj lay * of_nat (size_align_up pal lay DEFAULT_VMA_COUNT)"

text \<open>
  So many calls of \<open>alloc_vma\<close> with an empty cache, \<open>avail\<close> being the objects the manager has left; \<open>rs\<close> are
  the outcomes of \<open>PalVirtualMemoryAlloc\<close>. An enlargement takes an area from the stack for its own
  bookkeeping, and one object of the new ones to replace it. The result tells whether all calls succeeded.
\<close>

fun alloc_vmas ::
    "pal_public_state \<Rightarrow> handles \<Rightarrow> mgr_layout \<Rightarrow> nat \<Rightarrow> nat \<Rightarrow> pal_outcomes \<Rightarrow> vma_state \<Rightarrow> bool \<times> vma_state" where
  "alloc_vmas pal hs lay 0 avail rs st = (True, st)"
| "alloc_vmas pal hs lay (Suc n) avail rs st =
     (if 0 < avail then alloc_vmas pal hs lay n (avail - 1) rs st
      else
        (let (pal_ret, rs1) = pal_call rs;
             (_, res, st1) = vma_malloc pal hs [] pal_ret (enlarge_size pal lay) st
         in case res of
              None \<Rightarrow> (False, st1)
            | Some _ \<Rightarrow> alloc_vmas pal hs lay n (size_align_up pal lay DEFAULT_VMA_COUNT - 2) rs1 st1))"

text \<open>
  \<open>lock_ok\<close> is the outcome of \<open>create_lock\<close>. The cache of the thread is empty before; it holds the
  area reserved on the stack when \<open>create_mem_mgr\<close> needs one, so that allocation succeeds.
\<close>

definition init_vma ::
    "pal_public_state \<Rightarrow> handles \<Rightarrow> mgr_layout \<Rightarrow> mem_range list \<Rightarrow> errno + u64 \<Rightarrow> bool \<Rightarrow> pal_outcomes \<Rightarrow> vma_state \<Rightarrow>
     (errno + u64) \<times> vma_state" where
  "init_vma pal hs lay ranges rnd lock_ok rs st =
     (case init_vmas pal ranges st of
        (Some err, st1) \<Rightarrow> (Inl err, st1)
      | (None, st1) \<Rightarrow>
          (case init_aslr_addr_top pal rnd of
             Inl err \<Rightarrow> (Inl err, st1)
           | Inr aslr_top \<Rightarrow>
               (let (pal_ret, rs1) = pal_call rs;
                    (_, mgr, st2) = vma_malloc pal hs [] pal_ret (max_mem_size lay DEFAULT_VMA_COUNT) st1
                in if mgr = None \<or> \<not> lock_ok then (Inl ENOMEM, st2)
                   else
                     (let (ok, st3) = alloc_vmas pal hs lay (1 + length (filter (\<lambda>r. \<not> range_is_free r) ranges))
                                        DEFAULT_VMA_COUNT rs1 st2
                      in if \<not> ok then (Inl ENOMEM, st3) else (Inr aslr_top, st3)))))"

definition get_peak_memory_usage :: "vma_state \<Rightarrow> u64" where
  "get_peak_memory_usage st = g_peak_total_memory_size st"

definition get_total_memory_usage :: "pal_public_state \<Rightarrow> vma_state \<Rightarrow> u64" where
  "get_total_memory_usage pal st = min (g_total_memory_size st) (mem_total pal)"

section \<open>The areas after initialisation\<close>

lemma initial_vma_ok:
  assumes "bkeep_initial_vma v st = (None, st')" "vma_inv hs st" "begin_addr v < end_addr v" "vfile v = None"
  shows "vma_inv hs st'"
    "mapped (vma_tree st') a = (if is_addr_in_vma a v then Some (vma_view v a) else mapped (vma_tree st) a)"
    "vma_free (vma_tree st) (begin_addr v) (end_addr v)"
proof -
  have inv: "vmas_wf (vma_tree st)" "sized (total_len (vma_tree st)) st" "refs_of hs (vma_tree st) st" "asserts_hold st"
    using assms(2) by (simp_all add: vma_inv_parts)
  have free: "vma_free (vma_tree st) (begin_addr v) (end_addr v)"
    using assms(1) lookup_free [OF inv(1) assms(3)]
    by (auto simp: bkeep_initial_vma_def split: option.splits if_splits)
  have st': "st' = total_memory_size_add (end_addr v - begin_addr v) (st\<lparr>vma_tree := vma_insert v (vma_tree st)\<rparr>)"
    using assms(1) by (auto simp: bkeep_initial_vma_def split: option.splits if_splits)
  have "refs_of hs ([] @ v # vma_tree st) st"
    using inv(3) assms(4) by (simp add: refs_of_def)
  note ins = insert_area [OF inv(1) free assms(3) inv(2) this, folded st']
  show "vma_inv hs st'" using ins(1-4) inv(4) by (simp add: vma_inv_parts)
  show "mapped (vma_tree st') a = (if is_addr_in_vma a v then Some (vma_view v a) else mapped (vma_tree st) a)"
    by (rule ins(5))
  show "vma_free (vma_tree st) (begin_addr v) (end_addr v)" by (rule free)
qed

lemma vma_insert_set [simp]: "set (vma_insert v vs) = insert v (set vs)"
proof -
  have "set vs = set (takeWhile P vs) \<union> set (dropWhile P vs)" for P
    by (metis set_append takeWhile_dropWhile_id)
  then show ?thesis unfolding vma_insert_def by auto
qed

lemma initial_vma_set:
  "bkeep_initial_vma v st = (None, st') \<Longrightarrow> set (vma_tree st') = insert v (set (vma_tree st))"
  by (auto simp: bkeep_initial_vma_def total_memory_size_add_def Let_def split: option.splits if_splits)

lemma init_loop_ok:
  assumes "init_vmas_loop pal vs st = (None, st')" "vma_inv hs st"
    and "\<And>v. v \<in> set vs \<Longrightarrow> begin_addr v \<le> end_addr v \<and> vfile v = None"
  shows "vma_inv hs st' \<and> set (vma_tree st') = set (vma_tree st) \<union> {v \<in> set vs. begin_addr v \<noteq> end_addr v}"
  using assms
proof (induction vs arbitrary: st)
  case (Cons v vs)
  have v: "begin_addr v \<le> end_addr v" "vfile v = None" using Cons.prems(3) [of v] by simp_all
  show ?case
  proof (cases "begin_addr v = end_addr v")
    case True
    then have "init_vmas_loop pal vs st = (None, st')" using Cons.prems(1) by simp
    from Cons.IH [OF this Cons.prems(2)] Cons.prems(3) True show ?thesis by auto
  next
    case False
    then obtain st2 where st2: "bkeep_initial_vma v st = (None, st2)" "init_vmas_loop pal vs st2 = (None, st')"
      using Cons.prems(1) v by (auto split: if_splits prod.splits option.splits)
    have "vma_inv hs st2" using initial_vma_ok(1) [OF st2(1) Cons.prems(2)] v False by simp
    from Cons.IH [OF st2(2) this] Cons.prems(3) False initial_vma_set [OF st2(1)] show ?thesis by auto
  qed
qed simp

text \<open>An area of a list overlaps one before it or one of a given set.\<close>

definition clash :: "libos_vma list \<Rightarrow> libos_vma set \<Rightarrow> bool" where
  "clash vs old \<longleftrightarrow> (\<exists>us v ws. vs = us @ v # ws \<and>
     (\<exists>u \<in> set us \<union> old. begin_addr u < end_addr v \<and> begin_addr v < end_addr u))"

lemma clash_Cons:
  "clash vs old \<Longrightarrow> clash (v # vs) old" "clash vs (insert v old) \<Longrightarrow> clash (v # vs) old"
  "u \<in> old \<Longrightarrow> begin_addr u < end_addr v \<Longrightarrow> begin_addr v < end_addr u \<Longrightarrow> clash (v # vs) old"
proof -
  have later: "clash (v # vs) old" if "clash vs old'" "old' \<subseteq> insert v old" for old'
  proof -
    from that obtain us w ws u where w: "vs = us @ w # ws" "u \<in> set (v # us) \<union> old"
      "begin_addr u < end_addr w" "begin_addr w < end_addr u" unfolding clash_def by fastforce
    then have "v # vs = (v # us) @ w # ws" by simp
    with w(2-) show ?thesis unfolding clash_def by blast
  qed
  show "clash vs old \<Longrightarrow> clash (v # vs) old" "clash vs (insert v old) \<Longrightarrow> clash (v # vs) old"
    using later by blast+
  show "clash (v # vs) old" if "u \<in> old" "begin_addr u < end_addr v" "begin_addr v < end_addr u"
    unfolding clash_def by (rule exI [of _ "[]"]) (use that in auto)
qed

text \<open>Initialisation fails only for an area that is not aligned or that overlaps one already there.\<close>

lemma init_loop_error:
  assumes "init_vmas_loop pal vs st = (Some err, st')" "vma_inv hs st"
    and "\<And>v. v \<in> set vs \<Longrightarrow> begin_addr v \<le> end_addr v \<and> vfile v = None"
  shows "err = EINVAL \<and> (\<exists>v \<in> set vs. \<not> (is_alloc_aligned pal (begin_addr v) \<and> is_alloc_aligned pal (end_addr v))) \<or>
    err = EEXIST \<and> clash vs (set (vma_tree st))"
  using assms
proof (induction vs arbitrary: st)
  case (Cons v vs)
  have v: "begin_addr v \<le> end_addr v" "vfile v = None" using Cons.prems(3) [of v] by simp_all
  have wf: "vmas_wf (vma_tree st)" using Cons.prems(2) by (simp add: vma_inv_def)
  consider (empty) "begin_addr v = end_addr v"
    | (unaligned) "begin_addr v \<noteq> end_addr v" "\<not> is_alloc_aligned pal (begin_addr v) \<or> \<not> is_alloc_aligned pal (end_addr v)"
    | (aligned) "begin_addr v \<noteq> end_addr v" "is_alloc_aligned pal (begin_addr v)" "is_alloc_aligned pal (end_addr v)"
    by blast
  then show ?case
  proof cases
    case empty
    then have "init_vmas_loop pal vs st = (Some err, st')" using Cons.prems(1) by simp
    from Cons.IH [OF this Cons.prems(2)] Cons.prems(3) clash_Cons(1) show ?thesis by auto
  next
    case unaligned
    then show ?thesis using Cons.prems(1) v by auto
  next
    case aligned
    show ?thesis
    proof (cases "bkeep_initial_vma v st")
      case (Pair r st2)
      show ?thesis
      proof (cases r)
        case None
        have rest: "init_vmas_loop pal vs st2 = (Some err, st')" using Cons.prems(1) aligned v Pair None by simp
        have "vma_inv hs st2" using initial_vma_ok(1) [OF _ Cons.prems(2), of v st2] Pair None v aligned(1) by simp
        from Cons.IH [OF rest this] Cons.prems(3) initial_vma_set [of v st st2] Pair None
          clash_Cons(2) show ?thesis by auto
      next
        case (Some err2)
        have "begin_addr v < end_addr v" using aligned(1) v(1) by simp
        with Some have "err = EEXIST" "\<not> vma_free (vma_tree st) (begin_addr v) (end_addr v)"
          using Cons.prems(1) aligned v Pair lookup_free [OF wf \<open>begin_addr v < end_addr v\<close>]
          by (auto simp: bkeep_initial_vma_def split: option.splits if_splits)
        then show ?thesis using clash_Cons(3) by (auto simp: vma_free_def not_le)
      qed
    qed
  qed
qed simp

section \<open>Alignment and the top address\<close>

lemma aligned_take_bit:
  assumes "alloc_align pal = 2 ^ k"
  shows "is_alloc_aligned pal x \<longleftrightarrow> take_bit k x = 0" "alloc_align_down pal x = x - take_bit k x"
proof -
  have "x AND (alloc_align pal - 1) = take_bit k x"
    unfolding assms by (simp add: take_bit_eq_mask mask_eq_exp_minus_1)
  then show "is_alloc_aligned pal x \<longleftrightarrow> take_bit k x = 0" "alloc_align_down pal x = x - take_bit k x"
    by (simp_all add: is_alloc_aligned_def alloc_align_down_def)
qed

lemma take_bit_le: "take_bit k (x :: u64) \<le> x"
  by (simp add: take_bit_eq_mask word_and_le2)

lemma take_bit_diff_word: "take_bit k (take_bit k x - take_bit k y) = take_bit k (x - y :: u64)"
proof transfer
  fix k :: nat and x y :: int
  have "take_bit k (take_bit k x - take_bit k y) = take_bit k (x - y)" by (rule take_bit_diff)
  then show "take_bit LENGTH(64) (take_bit k (take_bit k x - take_bit k y)) = take_bit LENGTH(64) (take_bit k (x - y))"
    by simp
qed

lemma take_bit_sub_zero: "take_bit k (x :: u64) = 0 \<Longrightarrow> take_bit k y = 0 \<Longrightarrow> take_bit k (x - y) = 0"
  by (subst take_bit_diff_word [symmetric]) simp

lemma align_down_props:
  assumes "alloc_align pal = 2 ^ k"
  shows "is_alloc_aligned pal (alloc_align_down pal x)" "alloc_align_down pal x \<le> x"
proof -
  have "take_bit k (x - take_bit k x) = 0"
    by (subst take_bit_diff_word [symmetric]) simp
  then show "is_alloc_aligned pal (alloc_align_down pal x)" by (simp add: aligned_take_bit [OF assms])
  show "alloc_align_down pal x \<le> x"
    using word_sub_le [OF take_bit_le] by (simp add: aligned_take_bit(2) [OF assms])
qed

lemma aslr_top:
  assumes "init_aslr_addr_top pal rnd = Inr t" "memory_address_start pal < memory_address_end pal"
    and "alloc_align pal = 2 ^ k" "is_alloc_aligned pal (memory_address_end pal)"
  shows "memory_address_start pal < t" "t \<le> memory_address_end pal" "is_alloc_aligned pal t"
proof -
  let ?s = "memory_address_start pal" and ?e = "memory_address_end pal"
  let ?max = "(?e - ?s) div 6 * 5"
  have "?s < t \<and> t \<le> ?e \<and> is_alloc_aligned pal t"
  proof (cases "t = ?e")
    case False
    then obtain gap where t: "t = ?e - alloc_align_down pal (gap mod ?max)" and big: "push_bit ASLR_BITS 1 \<le> ?max div alloc_align pal"
      using assms(1) by (auto simp: init_aslr_addr_top_def Let_def split: if_splits sum.splits)
    have "0 < ?max"
    proof (rule ccontr)
      assume "\<not> 0 < ?max"
      then have "?max = 0" by (simp add: word_gt_0)
      with big show False by (simp add: ASLR_BITS_def)
    qed
    then have "gap mod ?max < ?max" by (simp add: word_less_nat_alt unat_mod)
    then have lt: "alloc_align_down pal (gap mod ?max) < ?max" by (rule order_le_less_trans [OF align_down_props(2) [OF assms(3)]])
    have "unat ?max \<le> unat (?e - ?s)"
    proof -
      have "unat ((?e - ?s) div 6) * 5 \<le> unat (?e - ?s)" by (simp add: unat_div)
      moreover have "unat ?max \<le> unat ((?e - ?s) div 6) * 5" by (simp add: unat_word_ariths)
      ultimately show ?thesis by linarith
    qed
    then have "?max \<le> ?e - ?s" by (simp add: word_le_nat_alt)
    with lt have gap: "alloc_align_down pal (gap mod ?max) < ?e - ?s" by order
    have "?s < t" "t \<le> ?e" using gap assms(2) unfolding t by (unat_arith)+
    moreover have "is_alloc_aligned pal t"
      using align_down_props(1) [OF assms(3)] assms(4)
      unfolding t aligned_take_bit(1) [OF assms(3)] by (intro take_bit_sub_zero)
    ultimately show ?thesis by simp
  qed (use assms(2,4) in simp)
  then show "?s < t" "t \<le> ?e" "is_alloc_aligned pal t" by simp_all
qed

section \<open>Memory for the manager\<close>

text \<open>Undoing a mapping that was just made removes exactly its area, and never fails.\<close>

lemma in_area_internal:
  assumes "vmas_wf vs" "v \<in> set vs" "begin_addr v = b" "end_addr v = e" "is_internal_vma v"
  shows "vmas_from b vs \<noteq> []" "hd (vmas_from b vs) = v"
    "\<forall>u \<in> set (takeWhile (\<lambda>u. begin_addr u < e) (vmas_from b vs)). is_internal_vma u"
proof -
  have lt: "b < e" using vmas_wf_area [OF assms(1,2)] assms(3,4) by simp
  have "v \<in> set (vmas_in b e vs)" using assms(2-4) lt by (auto simp: vmas_in_set [OF assms(1)])
  moreover have only: "u = v" if "u \<in> set (vmas_in b e vs)" for u
  proof -
    have u: "u \<in> set vs" "b < end_addr u" "begin_addr u < e" using that by (auto simp: vmas_in_set [OF assms(1)])
    have area: "begin_addr u < end_addr u" using vmas_wf_area [OF assms(1) u(1)] .
    let ?a = "max b (begin_addr u)"
    have "is_addr_in_vma ?a u" "is_addr_in_vma ?a v"
      using u area assms(3,4) lt by (auto simp: is_addr_in_vma_def)
    from vma_at_unique [OF assms(1) u(1) this(1)] vma_at_unique [OF assms(1,2) this(2)] show ?thesis by simp
  qed
  ultimately have in_v: "set (vmas_in b e vs) = {v}" by blast
  then show "\<forall>u \<in> set (takeWhile (\<lambda>u. begin_addr u < e) (vmas_from b vs)). is_internal_vma u"
    using assms(5) by (simp add: vmas_in_def)
  obtain w ws where w: "vmas_from b vs = w # ws" "begin_addr w < e"
    using in_v unfolding vmas_in_def by (cases "vmas_from b vs") (auto split: if_split_asm)
  then show "vmas_from b vs \<noteq> []" "hd (vmas_from b vs) = v"
    using in_v unfolding vmas_in_def by simp_all
qed

lemma remove_own_area:
  assumes "vmas_wf (vma_tree st)" "v \<in> set (vma_tree st)" "is_internal_vma v"
  obtains used freed st' where "vma_bkeep_remove hs (begin_addr v) (end_addr v) True False st = (None, used, freed, st')"
proof -
  note area = in_area_internal [OF assms(1,2) refl refl assms(3)]
  obtain w rest where from_b: "vmas_from (begin_addr v) (vma_tree st) = w # rest"
    using area(1) by (cases "vmas_from (begin_addr v) (vma_tree st)") auto
  then have w: "w = v" using area(2) by simp
  have internal: "\<not> (\<exists>u \<in> set (takeWhile (\<lambda>u. begin_addr u < end_addr v) (v # rest)). is_internal_vma u \<noteq> True)"
    using area(3) unfolding from_b w by blast
  show ?thesis
  proof (cases "remove_loop (end_addr v) (v # rest)")
    case (fields freed sizes kept)
    then have "\<exists>st'. vma_bkeep_remove hs (begin_addr v) (end_addr v) True False st = (None, False, freed, st')"
      unfolding vma_bkeep_remove_def from_b w list.case if_not_P [OF internal] by simp
    with that show ?thesis by blast
  qed
qed

lemma mmap_any_area:
  assumes "bkeep_mmap_any_in_range pal hs m bottom0 top0 len prot flags file offset comment st = (m', Inr addr, st')"
  shows "fixed_vma addr (addr + len) prot flags file offset comment \<in> set (vma_tree st')"
  using assms by (cases rule: mmap_any_cases) simp_all

lemma vma_malloc_undo:
  assumes "vma_inv hs st1" "vma_inv hs st" "fixed_vma addr e prot flags None 0 c \<in> set (vma_tree st1)" "addr < e"
    and "has_flag (new_vma_flags prot flags None) VMA_INTERNAL" "vma_free (vma_tree st) addr e"
    and "\<And>a. mapped (vma_tree st1) a = (if addr \<le> a \<and> a < e then Some x else mapped (vma_tree st) a)"
  obtains used freed st2 where "vma_bkeep_remove hs addr e True False st1 = (None, used, freed, st2)"
    "vma_inv hs (free_vmas_freelist hs freed st2)"
    "\<And>a. mapped (vma_tree (free_vmas_freelist hs freed st2)) a = mapped (vma_tree st) a"
proof -
  have inv: "vmas_wf (vma_tree st1)" "sized (total_len (vma_tree st1)) st1" "refs_of hs (vma_tree st1) st1" "asserts_hold st1"
    using assms(1) by (simp_all add: vma_inv_parts)
  have "is_internal_vma (fixed_vma addr e prot flags None 0 c)"
    using assms(5) by (simp add: is_internal_vma_def fixed_vma_def)
  then obtain used freed st2 where rem: "vma_bkeep_remove hs addr e True False st1 = (None, used, freed, st2)"
    using remove_own_area [OF inv(1) assms(3), of hs thesis] by auto
  note tree = bkeep_remove_tree [OF rem inv(1) assms(4)]
  note sized = bkeep_remove_sized [OF rem inv(1,2) assms(4)]
  have refs: "refs_of hs (freed @ vma_tree st2) st2"
    using bkeep_remove_refs [OF rem inv(1), of "[]"] inv(3) by simp
  have "vma_inv hs (free_vmas_freelist hs freed st2)"
    using tree(1) sized refs inv(4) by (intro free_freed) simp_all
  moreover have "mapped (vma_tree st) a = None" if "addr \<le> a" "a < e" for a
    using assms(6) that by (fastforce simp: vma_free_def mapped_None is_addr_in_vma_def)
  then have "mapped (vma_tree st2) a = mapped (vma_tree st) a" for a
    using tree(2) [of a] assms(7) [of a] by (simp add: cut_def)
  ultimately show ?thesis using that [OF rem] by simp
qed

lemma vma_malloc_ok:
  assumes "vma_malloc pal hs m pal_ret sz st = (m', r, st')" "vma_inv hs st"
  shows "vma_inv hs st'"
    "mapped (vma_tree st') a =
       (case r of
          None \<Rightarrow> mapped (vma_tree st) a
        | Some addr \<Rightarrow>
            if addr \<le> a \<and> a < addr + alloc_align_up pal sz
            then Some (PROT_READ OR PROT_WRITE, MAP_PRIVATE OR MAP_ANONYMOUS OR VMA_INTERNAL, None, 0)
            else mapped (vma_tree st) a)"
proof -
  let ?len = "alloc_align_up pal sz" and ?prot = "PROT_READ OR PROT_WRITE"
  let ?flags = "MAP_PRIVATE OR MAP_ANONYMOUS OR VMA_INTERNAL"
  obtain m1 res st1 where any: "bkeep_mmap_any_in_range pal hs m (memory_address_start pal) (memory_address_end pal)
      ?len ?prot ?flags None 0 ''vma'' st = (m1, res, st1)" by (metis prod_cases3)
  have flags: "new_vma_flags ?prot ?flags None = ?flags" "has_flag ?flags VMA_INTERNAL" by code_simp+
  have "vma_inv hs st' \<and> mapped (vma_tree st') a =
       (case r of
          None \<Rightarrow> mapped (vma_tree st) a
        | Some addr \<Rightarrow> if addr \<le> a \<and> a < addr + ?len then Some (?prot, ?flags, None, 0) else mapped (vma_tree st) a)"
  proof (cases res)
    case (Inl err)
    then show ?thesis
      using assms any mmap_any_error [OF any [unfolded Inl] assms(2)]
      by (auto simp: vma_malloc_def bkeep_mmap_any_def Let_def)
  next
    case (Inr addr)
    note ok = mmap_any_ok [OF any [unfolded Inr] assms(2)]
    have lt: "addr < addr + ?len" and free: "vma_free (vma_tree st) addr (addr + ?len)"
      using ok(3) by (auto simp: free_range_def)
    show ?thesis
    proof (cases pal_ret)
      case None
      then show ?thesis
        using assms any Inr ok(1) ok(2) [of a] flags(1) by (auto simp: vma_malloc_def bkeep_mmap_any_def Let_def)
    next
      case (Some err)
      have "mapped (vma_tree st1) x = (if addr \<le> x \<and> x < addr + ?len then Some (?prot, ?flags, None, 0) else mapped (vma_tree st) x)" for x
        using ok(2) [of x] flags(1) by simp
      then obtain used freed st2 where rem: "vma_bkeep_remove hs addr (addr + ?len) True False st1 = (None, used, freed, st2)"
        "vma_inv hs (free_vmas_freelist hs freed st2)"
        "\<And>a. mapped (vma_tree (free_vmas_freelist hs freed st2)) a = mapped (vma_tree st) a"
        using vma_malloc_undo [OF ok(1) assms(2) mmap_any_area [OF any [unfolded Inr]] lt _ free, of "(?prot, ?flags, None, 0)" thesis]
          flags by metis
      then show ?thesis
        using assms(1) any Inr Some by (auto simp: vma_malloc_def bkeep_mmap_any_def Let_def)
    qed
  qed
  then show "vma_inv hs st'" "mapped (vma_tree st') a =
       (case r of
          None \<Rightarrow> mapped (vma_tree st) a
        | Some addr \<Rightarrow> if addr \<le> a \<and> a < addr + ?len then Some (?prot, ?flags, None, 0) else mapped (vma_tree st) a)"
    by simp_all
qed

section \<open>The memory manager\<close>

text \<open>An area in which the manager keeps its objects.\<close>

definition mgr_area :: "pal_public_state \<Rightarrow> u64 \<Rightarrow> u64 \<Rightarrow> libos_vma" where
  "mgr_area pal sz b = fixed_vma b (b + alloc_align_up pal sz) (PROT_READ OR PROT_WRITE)
     (MAP_PRIVATE OR MAP_ANONYMOUS OR VMA_INTERNAL) None 0 ''vma''"

text \<open>There is no free place for so many bytes where the LibOS may allocate.\<close>

definition no_room :: "pal_public_state \<Rightarrow> u64 \<Rightarrow> libos_vma list \<Rightarrow> bool" where
  "no_room pal sz vs \<longleftrightarrow>
     (case clip_range pal (MAP_PRIVATE OR MAP_ANONYMOUS OR VMA_INTERNAL) (memory_address_start pal) (memory_address_end pal) of
        None \<Rightarrow> True
      | Some (bottom, top_addr) \<Rightarrow> \<forall>x. \<not> free_range bottom top_addr (alloc_align_up pal sz) vs x)"

lemma vma_malloc_adds:
  assumes "vma_malloc pal hs m pal_ret sz st = (m', Some b, st')"
  shows "set (vma_tree st') = insert (mgr_area pal sz b) (set (vma_tree st))"
proof -
  have "bkeep_mmap_any_in_range pal hs m (memory_address_start pal) (memory_address_end pal) (alloc_align_up pal sz)
      (PROT_READ OR PROT_WRITE) (MAP_PRIVATE OR MAP_ANONYMOUS OR VMA_INTERNAL) None 0 ''vma'' st = (m', Inr b, st')"
    using assms by (auto simp: vma_malloc_def bkeep_mmap_any_def Let_def split: prod.splits sum.splits option.splits)
  then show ?thesis by (cases rule: mmap_any_cases) (simp_all add: mgr_area_def)
qed

lemma vma_malloc_new:
  assumes "vma_malloc pal hs m pal_ret sz st = (m', Some b, st')" "vma_inv hs st"
  shows "mgr_area pal sz b \<notin> set (vma_tree st)"
proof -
  let ?len = "alloc_align_up pal sz"
  have "bkeep_mmap_any_in_range pal hs m (memory_address_start pal) (memory_address_end pal) ?len
      (PROT_READ OR PROT_WRITE) (MAP_PRIVATE OR MAP_ANONYMOUS OR VMA_INTERNAL) None 0 ''vma'' st = (m', Inr b, st')"
    using assms(1) by (auto simp: vma_malloc_def bkeep_mmap_any_def Let_def split: prod.splits sum.splits option.splits)
  from mmap_any_ok(3) [OF this assms(2)] have "b < b + ?len" "vma_free (vma_tree st) b (b + ?len)"
    by (auto simp: free_range_def)
  then show ?thesis by (auto simp: vma_free_def mgr_area_def fixed_vma_def)
qed

lemma vma_malloc_fails:
  assumes "vma_malloc pal hs [] None sz st = (m', None, st')" "vma_inv hs st" "alloc_align pal = 2 ^ k"
    and "is_alloc_aligned pal (memory_address_start pal)" "is_alloc_aligned pal (memory_address_end pal)"
  shows "no_room pal sz (vma_tree st')"
proof -
  let ?len = "alloc_align_up pal sz" and ?fl = "MAP_PRIVATE OR MAP_ANONYMOUS OR VMA_INTERNAL"
  let ?any = "bkeep_mmap_any_in_range pal hs [] (memory_address_start pal) (memory_address_end pal) ?len
      (PROT_READ OR PROT_WRITE) ?fl None 0 ''vma'' st"
  obtain err where any: "?any = (m', Inl err, st')"
    using assms(1) by (auto simp: vma_malloc_def bkeep_mmap_any_def Let_def split: prod.splits sum.splits)
  have len: "is_alloc_aligned pal ?len" unfolding alloc_align_up_def by (rule align_down_props(1) [OF assms(3)])
  have "\<not> free_range bottom top_addr ?len (vma_tree st) x"
    if "clip_range pal ?fl (memory_address_start pal) (memory_address_end pal) = Some (bottom, top_addr)" for bottom top_addr x
  proof
    assume free: "free_range bottom top_addr ?len (vma_tree st) x"
    then have "0 < ?len" by (auto simp: free_range_def word_gt_0)
    from mmap_any_complete [OF assms(2) that len assms(4,5) this _ free, of "[]" "PROT_READ OR PROT_WRITE" None 0 "''vma''"] any
    show False by simp
  qed
  moreover have "vma_tree st' = vma_tree st" using mmap_any_error [OF any assms(2)] by simp
  ultimately show ?thesis by (simp add: no_room_def split: option.split)
qed

text \<open>The enlargements that so many allocations need.\<close>

fun enlargements :: "nat \<Rightarrow> nat \<Rightarrow> nat \<Rightarrow> nat" where
  "enlargements count 0 avail = 0"
| "enlargements count (Suc n) avail =
     (if 0 < avail then enlargements count n (avail - 1) else Suc (enlargements count n (count - 2)))"

lemma enlargements_count:
  "enlargements (c + 2) n avail = (n - avail + c) div Suc c"
proof (induction n arbitrary: avail)
  case (Suc n)
  have "(n - c + c) div Suc c = n div Suc c" by (cases "n < c") simp_all
  moreover have "Suc (n + c) div Suc c = Suc (n div Suc c)" using div_add_self2 [of "Suc c" n] by simp
  ultimately show ?case using Suc by simp
qed simp

lemma alloc_vmas_ok:
  assumes "alloc_vmas pal hs lay n avail rs st = (True, st')" "vma_inv hs st"
  shows "vma_inv hs st' \<and> (\<exists>bs. set (vma_tree st') = set (vma_tree st) \<union> mgr_area pal (enlarge_size pal lay) ` set bs \<and>
    distinct bs \<and> mgr_area pal (enlarge_size pal lay) ` set bs \<inter> set (vma_tree st) = {} \<and>
    length bs = enlargements (size_align_up pal lay DEFAULT_VMA_COUNT) n avail)"
  using assms
proof (induction n arbitrary: avail rs st)
  case 0
  then show ?case by (auto intro: exI [of _ "[]"])
next
  case (Suc n)
  let ?area = "mgr_area pal (enlarge_size pal lay)"
  show ?case
  proof (cases "0 < avail")
    case True
    then show ?thesis using Suc.IH [of "avail - 1" rs st] Suc.prems by simp
  next
    case False
    obtain pal_ret rs1 m' b st1 where malloc: "pal_call rs = (pal_ret, rs1)"
      "vma_malloc pal hs [] pal_ret (enlarge_size pal lay) st = (m', Some b, st1)"
      and rest: "alloc_vmas pal hs lay n (size_align_up pal lay DEFAULT_VMA_COUNT - 2) rs1 st1 = (True, st')"
      using Suc.prems(1) False by (auto split: prod.splits option.splits)
    note new = vma_malloc_adds [OF malloc(2)] vma_malloc_new [OF malloc(2) Suc.prems(2)]
    from Suc.IH [OF rest vma_malloc_ok(1) [OF malloc(2) Suc.prems(2)]] obtain bs where bs: "vma_inv hs st'"
      "set (vma_tree st') = set (vma_tree st1) \<union> ?area ` set bs" "distinct bs"
      "?area ` set bs \<inter> set (vma_tree st1) = {}"
      "length bs = enlargements (size_align_up pal lay DEFAULT_VMA_COUNT) n (size_align_up pal lay DEFAULT_VMA_COUNT - 2)"
      by blast
    have "b \<notin> set bs" using bs(4) new(1) by blast
    then show ?thesis using bs new False by (intro conjI exI [of _ "b # bs"]) auto
  qed
qed

lemma alloc_vmas_fails:
  assumes "alloc_vmas pal hs lay n avail rs st = (False, st')" "vma_inv hs st" "alloc_align pal = 2 ^ k"
    and "is_alloc_aligned pal (memory_address_start pal)" "is_alloc_aligned pal (memory_address_end pal)"
  shows "(\<exists>err. Some err \<in> set rs) \<or> no_room pal (enlarge_size pal lay) (vma_tree st')"
  using assms
proof (induction n arbitrary: avail rs st)
  case (Suc n)
  show ?case
  proof (cases "0 < avail")
    case True
    then show ?thesis using Suc.IH [of "avail - 1" rs st] Suc.prems by simp
  next
    case False
    obtain pal_ret rs1 m' res st1 where malloc: "pal_call rs = (pal_ret, rs1)"
      "vma_malloc pal hs [] pal_ret (enlarge_size pal lay) st = (m', res, st1)" by (metis prod_cases3 surj_pair)
    have rs: "pal_ret \<noteq> None \<Longrightarrow> \<exists>err. Some err \<in> set rs" "set rs1 \<subseteq> set rs"
      using malloc(1) by (cases rs; auto)+
    show ?thesis
    proof (cases res)
      case None
      then have "st' = st1" using Suc.prems(1) False malloc by simp
      then show ?thesis
        using vma_malloc_fails [OF _ Suc.prems(2-5)] malloc(2) None rs(1) by (cases pal_ret) auto
    next
      case (Some b)
      then have "alloc_vmas pal hs lay n (size_align_up pal lay DEFAULT_VMA_COUNT - 2) rs1 st1 = (False, st')"
        using Suc.prems(1) False malloc by simp
      from Suc.IH [OF this vma_malloc_ok(1) [OF malloc(2) Suc.prems(2)] Suc.prems(3-5)] rs(2) show ?thesis by blast
    qed
  qed
qed simp

section \<open>Initialisation as a whole\<close>

lemma filter_at:
  assumes "filter P xs = as @ q # bs"
  obtains us ws where "xs = us @ q # ws" "P q" "filter P us = as" "filter P ws = bs"
proof -
  have "\<exists>us ws. xs = us @ q # ws \<and> P q \<and> filter P us = as \<and> filter P ws = bs"
    using assms
  proof (induction xs arbitrary: as)
    case (Cons x xs)
    show ?case
    proof (cases "P x \<and> as = []")
      case True
      then show ?thesis using Cons.prems by (intro exI [of _ "[]"] exI [of _ xs]) auto
    next
      case False
      then have "filter P xs = (if P x then tl as else as) @ q # bs" "P x \<Longrightarrow> as = x # tl as"
        using Cons.prems by (cases as; auto)+
      from Cons.IH [OF this(1)] obtain us ws where "xs = us @ q # ws" "P q" "filter P us = (if P x then tl as else as)"
        "filter P ws = bs" by blast
      with \<open>P x \<Longrightarrow> as = x # tl as\<close> show ?thesis by (intro exI [of _ "x # us"] exI [of _ ws]) auto
    qed
  qed simp
  then show ?thesis using that by blast
qed

lemma filter_two:
  assumes "filter P xs = as @ q # bs" "r \<in> set as"
  shows "\<exists>us vs ws. xs = us @ r # vs @ q # ws \<and> P r \<and> P q"
proof -
  obtain us ws where q: "xs = us @ q # ws" "P q" "filter P us = as" by (rule filter_at [OF assms(1)])
  then have "r \<in> set us" "P r" using assms(2) by auto
  then obtain ps qs where "us = ps @ r # qs" using split_list by metis
  with q \<open>P r\<close> show ?thesis by auto
qed

lemma clash_ranges:
  assumes "clash (map init_vma_of_range (filter (\<lambda>r. \<not> range_is_free r) ranges)) {}"
  shows "\<exists>us q vs r ws. ranges = us @ q # vs @ r # ws \<and> \<not> range_is_free q \<and> \<not> range_is_free r \<and>
    range_start q < range_end r \<and> range_start r < range_end q"
proof -
  obtain as v bs u where v: "map init_vma_of_range (filter (\<lambda>r. \<not> range_is_free r) ranges) = as @ v # bs" "u \<in> set as"
    "begin_addr u < end_addr v" "begin_addr v < end_addr u" using assms unfolding clash_def by auto
  then obtain ras r rbs where r: "filter (\<lambda>r. \<not> range_is_free r) ranges = ras @ r # rbs"
    "as = map init_vma_of_range ras" "v = init_vma_of_range r"
    by (auto simp: map_eq_append_conv map_eq_Cons_conv)
  obtain q where "q \<in> set ras" "u = init_vma_of_range q" using v(2) r(2) by auto
  with filter_two [OF r(1), of q] v(3,4) r(3) show ?thesis by (fastforce simp: init_vma_of_range_def)
qed

text \<open>The result of each stage.\<close>

lemma init_vma_cases:
  assumes "init_vma pal hs lay ranges rnd lock_ok rs st = (res, st')"
    and "init_vmas pal ranges st = (None, st1)" "vma_inv hs st1" "alloc_align pal = 2 ^ k"
    and "is_alloc_aligned pal (memory_address_start pal)" "is_alloc_aligned pal (memory_address_end pal)"
  obtains (random) err where "res = Inl err" "rnd = Inl err" "\<not> disable_aslr pal"
  | (nomem) "res = Inl ENOMEM" "\<not> lock_ok \<or> (\<exists>err. Some err \<in> set rs) \<or>
      no_room pal (max_mem_size lay DEFAULT_VMA_COUNT) (vma_tree st') \<or> no_room pal (enlarge_size pal lay) (vma_tree st')"
  | (ok) t b rs1 m2 pal_ret st2 where "res = Inr t" "init_aslr_addr_top pal rnd = Inr t"
      "vma_malloc pal hs [] pal_ret (max_mem_size lay DEFAULT_VMA_COUNT) st1 = (m2, Some b, st2)"
      "alloc_vmas pal hs lay (1 + length (filter (\<lambda>r. \<not> range_is_free r) ranges)) DEFAULT_VMA_COUNT rs1 st2 = (True, st')"
proof (cases "init_aslr_addr_top pal rnd")
  case (Inl err)
  then have "rnd = Inl err \<and> \<not> disable_aslr pal"
    by (auto simp: init_aslr_addr_top_def Let_def split: if_splits sum.splits)
  moreover have "res = Inl err" using assms(1,2) Inl by (simp add: init_vma_def)
  ultimately show ?thesis using random by blast
next
  case (Inr t)
  obtain pal_ret rs1 m2 mgr st2 where malloc: "pal_call rs = (pal_ret, rs1)"
    "vma_malloc pal hs [] pal_ret (max_mem_size lay DEFAULT_VMA_COUNT) st1 = (m2, mgr, st2)" by (metis prod_cases3 surj_pair)
  have rs: "pal_ret \<noteq> None \<Longrightarrow> \<exists>err. Some err \<in> set rs" "set rs1 \<subseteq> set rs" using malloc(1) by (cases rs; auto)+
  note inv = vma_malloc_ok(1) [OF malloc(2) assms(3)]
  obtain good st3 where alloc: "alloc_vmas pal hs lay (1 + length (filter (\<lambda>r. \<not> range_is_free r) ranges))
      DEFAULT_VMA_COUNT rs1 st2 = (good, st3)" by fastforce
  note run = assms(1) [unfolded init_vma_def assms(2) Inr malloc alloc prod.case option.case sum.case Let_def]
  consider "mgr = None" | "mgr \<noteq> None" "\<not> lock_ok" | b where "mgr = Some b" "lock_ok" by blast
  then show ?thesis
  proof cases
    case 1
    then have "res = Inl ENOMEM" "st' = st2" using run by simp_all
    then show ?thesis
      using nomem vma_malloc_fails [OF _ assms(3-6)] malloc(2) 1 rs(1) by (cases pal_ret) auto
  next
    case 2
    then show ?thesis using nomem run by simp
  next
    case 3
    show ?thesis
    proof (cases good)
      case True
      then show ?thesis using ok [OF _ Inr malloc(2) [unfolded 3(1)]] alloc run 3 by simp
    next
      case False
      then have "res = Inl ENOMEM" "st' = st3" using run 3 by simp_all
      moreover have "(\<exists>err. Some err \<in> set rs1) \<or> no_room pal (enlarge_size pal lay) (vma_tree st3)"
        by (rule alloc_vmas_fails [OF _ inv assms(4-6)]) (use alloc False in \<open>simp only:\<close>)
      ultimately show ?thesis using nomem rs(2) by blast
    qed
  qed
qed

lemma init_areas:
  assumes "vma_malloc pal hs m0 pal_ret (max_mem_size lay DEFAULT_VMA_COUNT) st = (m2, Some b, st2)"
    and "alloc_vmas pal hs lay (1 + n) DEFAULT_VMA_COUNT rs st2 = (True, st')" "vma_inv hs st"
  shows "vma_inv hs st' \<and> (\<exists>bs. distinct bs \<and>
    length bs = (n - 63 + (size_align_up pal lay 64 - 2)) div (size_align_up pal lay 64 - 1) \<and>
    set (vma_tree st') = set (vma_tree st) \<union> {mgr_area pal (max_mem_size lay 64) b} \<union>
      mgr_area pal (enlarge_size pal lay) ` set bs)"
proof -
  define c where "c = size_align_up pal lay 64 - 2"
  have count: "size_align_up pal lay 64 = c + 2" "size_align_up pal lay 64 - 1 = Suc c"
    by (simp_all add: c_def size_align_up_def Let_def)
  from alloc_vmas_ok [OF assms(2) vma_malloc_ok(1) [OF assms(1,3)], unfolded DEFAULT_VMA_COUNT_def count(1) enlargements_count]
  obtain bs where bs: "vma_inv hs st'" "distinct bs" "length bs = (1 + n - 64 + c) div Suc c"
    "set (vma_tree st') = set (vma_tree st2) \<union> mgr_area pal (enlarge_size pal lay) ` set bs" by blast
  moreover have "length bs = (n - 63 + (size_align_up pal lay 64 - 2)) div (size_align_up pal lay 64 - 1)"
    using bs(3) unfolding count(2) c_def [symmetric] by simp
  moreover have "set (vma_tree st') = set (vma_tree st) \<union> {mgr_area pal (max_mem_size lay 64) b} \<union>
      mgr_area pal (enlarge_size pal lay) ` set bs"
    using bs(4) vma_malloc_adds [OF assms(1)] by (simp add: DEFAULT_VMA_COUNT_def)
  ultimately show ?thesis by blast
qed

end
