(* ===== verification/Vma_Files.thy ===== *)
theory Vma_Files
  imports Vma_Query
begin

text \<open>
  What \<^verbatim>\<open>libos/src/bookkeep/libos_vma.c\<close> does with file mappings: writing them back
  (\<open>msync_all\<close>) and reading them again after a write to the file (\<open>reload_vma\<close>). The callbacks of
  the file system are parameters: \<open>fs_msync\<close> gives the outcome of one call, the calls of \<open>read\<close>
  take their outcomes from a list. The assertions that the callbacks exist are checked by the
  filters, which the model applies to the same tree. The filters themselves assert that an
  area that is neither private nor anonymous has a file: \<open>vma_filter_asserts\<close>.
\<close>

section \<open>Filters\<close>

definition vma_filter_asserts :: "libos_vma \<Rightarrow> bool" where
  "vma_filter_asserts v \<longleftrightarrow>
     has_flag (vflags v) (VMA_UNMAPPED OR VMA_INTERNAL OR MAP_ANONYMOUS OR MAP_PRIVATE) \<or> vfile v \<noteq> None"

definition vma_filter_needs_msync :: "handles \<Rightarrow> nat option \<Rightarrow> libos_vma \<Rightarrow> bool" where
  "vma_filter_needs_msync hs hdl v \<longleftrightarrow>
     \<not> has_flag (vflags v) (VMA_UNMAPPED OR VMA_INTERNAL OR MAP_ANONYMOUS OR MAP_PRIVATE) \<and>
     (case vfile v of
        None \<Rightarrow> False
      | Some f \<Rightarrow>
          (hdl = None \<or> hdl = Some f) \<and> hdl_has_msync (hs f) \<and> has_flag (hdl_acc_mode (hs f)) MAY_WRITE)"

definition vma_filter_needs_reload :: "handles \<Rightarrow> nat \<Rightarrow> libos_vma \<Rightarrow> bool" where
  "vma_filter_needs_reload hs hdl v \<longleftrightarrow>
     \<not> has_flag (vflags v) (VMA_UNMAPPED OR VMA_INTERNAL OR MAP_ANONYMOUS OR MAP_PRIVATE) \<and>
     (case vfile v of
        None \<Rightarrow> False
      | Some f \<Rightarrow>
          hdl_inode (hs f) \<noteq> None \<and> hdl_inode (hs f) = hdl_inode (hs hdl) \<and>
          hdl_has_read (hs f) \<and> has_flag (hdl_acc_mode (hs f)) MAY_READ)"

section \<open>Writing back\<close>

record msync_call =
  call_file :: nat
  call_addr :: u64
  call_size :: u64
  call_prot :: u32
  call_flags :: u32
  call_offset :: u64

definition msync_call_of :: "u64 \<Rightarrow> u64 \<Rightarrow> libos_vma_info \<Rightarrow> msync_call" where
  "msync_call_of b e info =
     (let msync_begin = max b (info_addr info); msync_end = min e (info_addr info + info_length info)
      in \<lparr>call_file = (case info_file info of None \<Rightarrow> 0 | Some f \<Rightarrow> f), call_addr = msync_begin,
          call_size = msync_end - msync_begin, call_prot = info_prot info, call_flags = info_flags info,
          call_offset = info_file_offset info\<rparr>)"

text \<open>The loop over the dumped areas: the calls made, and the first error.\<close>

fun msync_loop ::
    "(msync_call \<Rightarrow> errno option) \<Rightarrow> u64 \<Rightarrow> u64 \<Rightarrow> libos_vma_info list \<Rightarrow> errno option \<times> msync_call list" where
  "msync_loop fs_msync b e [] = (None, [])"
| "msync_loop fs_msync b e (info # infos) =
     (let call = msync_call_of b e info in
      case fs_msync call of
        Some err \<Rightarrow> (Some err, [call])
      | None \<Rightarrow> (let (ret, calls) = msync_loop fs_msync b e infos in (ret, call # calls)))"

definition msync_all ::
    "handles \<Rightarrow> (msync_call \<Rightarrow> errno option) \<Rightarrow> u64 \<Rightarrow> u64 \<Rightarrow> nat option \<Rightarrow> libos_vma list list \<Rightarrow> mem \<Rightarrow> refs \<Rightarrow>
     (mem \<times> errno option \<times> msync_call list \<times> refs) option" where
  "msync_all hs fs_msync b e hdl trees m refs =
     (case dump_vmas b e (vma_filter_needs_msync hs hdl) trees m refs of
        None \<Rightarrow> None
      | Some (m1, Inl err, refs1) \<Rightarrow> Some (m1, Some err, [], refs1)
      | Some (m1, Inr infos, refs1) \<Rightarrow>
          (let (ret, calls) = msync_loop fs_msync b e infos
           in Some (m1, ret, calls, free_vma_info_array infos refs1)))"

definition msync_range ::
    "handles \<Rightarrow> (msync_call \<Rightarrow> errno option) \<Rightarrow> u64 \<Rightarrow> u64 \<Rightarrow> libos_vma list list \<Rightarrow> mem \<Rightarrow> refs \<Rightarrow>
     (mem \<times> errno option \<times> msync_call list \<times> refs) option" where
  "msync_range hs fs_msync b e trees m refs = msync_all hs fs_msync b e None trees m refs"

definition msync_handle ::
    "handles \<Rightarrow> (msync_call \<Rightarrow> errno option) \<Rightarrow> nat \<Rightarrow> libos_vma list list \<Rightarrow> mem \<Rightarrow> refs \<Rightarrow>
     (mem \<times> errno option \<times> msync_call list \<times> refs) option" where
  "msync_handle hs fs_msync hdl trees m refs = msync_all hs fs_msync 0 (- 1) (Some hdl) trees m refs"

section \<open>Reading again\<close>

datatype read_event = Reload_Protect u64 u64 u32 | Reload_Read nat u64 u64 u64

text \<open>
  One call of \<open>read\<close>: an error or the number of bytes read, and by how much the callback has moved
  the position.
\<close>

type_synonym read_outcome = "(errno + u64) \<times> u64"

text \<open>
  The loop of \<open>reload_vma\<close>. Every call of \<open>read\<close> takes one outcome. \<open>None\<close> means that the
  outcomes did not end the loop; \<open>nread\<close> is the variable \<open>read\<close>. The last component tells whether
  \<open>assert(count <= to_read)\<close> held.
\<close>

fun reload_loop ::
    "nat \<Rightarrow> u64 \<Rightarrow> u64 \<Rightarrow> read_outcome list \<Rightarrow> u64 \<Rightarrow> u64 \<Rightarrow>
     (errno option \<times> u64 \<times> read_event list \<times> bool) option" where
  "reload_loop file read_begin sz outcomes nread pos =
     (if nread < sz then
        (case outcomes of
           [] \<Rightarrow> None
         | (r, moved) # rest \<Rightarrow>
             (let to_read = sz - nread; ev = Reload_Read file (read_begin + nread) to_read pos in
              case r of
                Inl err \<Rightarrow>
                  if err = EINTR \<or> err = EAGAIN then
                    map_option (\<lambda>(ret, n, evs, ok). (ret, n, ev # evs, ok))
                      (reload_loop file read_begin sz rest nread (pos + moved))
                  else Some (Some err, nread, [ev], True)
              | Inr count \<Rightarrow>
                  if count = 0 then Some (None, nread, [ev], True)
                  else if \<not> count \<le> to_read then Some (None, nread, [ev], False)
                  else
                    map_option (\<lambda>(ret, n, evs, ok). (ret, n, ev # evs, ok))
                      (reload_loop file read_begin sz rest (nread + count) (pos + moved))))
      else Some (None, nread, [], True))"

definition reload_vma ::
    "libos_vma_info \<Rightarrow> pal_outcomes \<Rightarrow> read_outcome list \<Rightarrow>
     (errno option \<times> read_event list \<times> bool) option" where
  "reload_vma info rs outcomes =
     (let read_begin = info_addr info;
          sz = info_addr info + info_length info - read_begin;
          file = (case info_file info of None \<Rightarrow> 0 | Some f \<Rightarrow> f);
          pal_prot = linux_prot_to_pal (info_prot info) (info_flags info);
          pal_prot_writable = pal_prot OR PAL_PROT_WRITE
      in if pal_prot = pal_prot_writable then
           map_option (\<lambda>(ret, n, evs, ok). (ret, evs, ok))
             (reload_loop file read_begin sz outcomes 0 (info_file_offset info))
         else
           (let (r1, rs1) = pal_call rs in
            case r1 of
              Some err \<Rightarrow> Some (Some err, [], True)
            | None \<Rightarrow>
                map_option
                  (\<lambda>(ret, n, evs, ok).
                     (ret,
                      Reload_Protect read_begin sz pal_prot_writable # evs @
                        (if fst (pal_call rs1) = None then [Reload_Protect read_begin sz pal_prot] else []),
                      ok \<and> fst (pal_call rs1) = None))
                  (reload_loop file read_begin sz outcomes 0 (info_file_offset info))))"

text \<open>The areas are reloaded in order, each with its own outcomes, until one fails.\<close>

fun reload_all ::
    "(libos_vma_info \<times> pal_outcomes \<times> read_outcome list) list \<Rightarrow>
     (errno option \<times> read_event list \<times> bool) option" where
  "reload_all [] = Some (None, [], True)"
| "reload_all ((info, rs, outcomes) # more_infos) =
     (case reload_vma info rs outcomes of
        None \<Rightarrow> None
      | Some (Some err, evs, ok) \<Rightarrow> Some (Some err, evs, ok)
      | Some (None, evs, ok) \<Rightarrow>
          if \<not> ok then Some (None, evs, False)
          else map_option (\<lambda>(ret, evs2, ok2). (ret, evs @ evs2, ok2)) (reload_all more_infos))"

definition reload_mmaped_from_file_handle ::
    "handles \<Rightarrow> nat \<Rightarrow> (nat \<Rightarrow> pal_outcomes \<times> read_outcome list) \<Rightarrow> libos_vma list list \<Rightarrow> mem \<Rightarrow> refs \<Rightarrow>
     (mem \<times> errno option \<times> read_event list \<times> bool \<times> refs) option" where
  "reload_mmaped_from_file_handle hs hdl outcomes trees m refs =
     (case dump_vmas 0 (- 1) (vma_filter_needs_reload hs hdl) trees m refs of
        None \<Rightarrow> None
      | Some (m1, Inl err, refs1) \<Rightarrow> Some (m1, Some err, [], True, refs1)
      | Some (m1, Inr infos, refs1) \<Rightarrow>
          map_option (\<lambda>(ret, evs, ok). (m1, ret, evs, ok, free_vma_info_array infos refs1))
            (reload_all (zip infos (map outcomes [0..<length infos]))))"

declare reload_loop.simps [simp del]

section \<open>What is written back\<close>

definition msync_page :: "handles \<Rightarrow> nat option \<Rightarrow> u32 \<times> u32 \<times> nat option \<times> u64 \<Rightarrow> bool" where
  "msync_page hs hdl x \<longleftrightarrow>
     (case x of
        (p, f, file, off) \<Rightarrow>
          \<not> has_flag f (VMA_UNMAPPED OR VMA_INTERNAL OR MAP_ANONYMOUS OR MAP_PRIVATE) \<and>
          (case file of
             None \<Rightarrow> False
           | Some h \<Rightarrow>
               (hdl = None \<or> hdl = Some h) \<and> hdl_has_msync (hs h) \<and> has_flag (hdl_acc_mode (hs h)) MAY_WRITE))"

lemma filter_msync_view: "vma_filter_needs_msync hs hdl v \<longleftrightarrow> msync_page hs hdl (vma_view v a)"
  by (simp add: vma_filter_needs_msync_def msync_page_def vma_view_def)

lemma msync_loop_ok:
  "msync_loop fs b e infos = (None, calls) \<Longrightarrow> calls = map (msync_call_of b e) infos"
  by (induction infos arbitrary: calls) (auto simp: Let_def split: option.splits prod.splits)

lemma msync_loop_prefix:
  "msync_loop fs b e infos = (ret, calls) \<Longrightarrow> \<exists>n. calls = map (msync_call_of b e) (take n infos)"
proof (induction infos arbitrary: calls)
  case (Cons i infos)
  show ?case
  proof (cases "fs (msync_call_of b e i)")
    case None
    then obtain rest where "msync_loop fs b e infos = (ret, rest)" "calls = msync_call_of b e i # rest"
      using Cons.prems by (auto simp: Let_def split: prod.splits)
    with Cons.IH obtain n where "calls = map (msync_call_of b e) (take (Suc n) (i # infos))" by auto
    then show ?thesis ..
  next
    case (Some err)
    then have "calls = map (msync_call_of b e) (take 1 (i # infos))" using Cons.prems by (simp add: Let_def)
    then show ?thesis ..
  qed
qed simp

lemma call_of_dump [simp]:
  "call_addr (msync_call_of b e (dump_vma v)) = max b (begin_addr v)"
  "call_size (msync_call_of b e (dump_vma v)) = min e (end_addr v) - max b (begin_addr v)"
  "call_offset (msync_call_of b e (dump_vma v)) = voffset v"
  by (simp_all add: msync_call_of_def dump_vma_def Let_def)

definition in_call :: "u64 \<Rightarrow> msync_call \<Rightarrow> bool" where
  "in_call a c \<longleftrightarrow> call_addr c \<le> a \<and> a < call_addr c + call_size c"

lemma in_call_dump: "in_call a (msync_call_of b e (dump_vma v)) \<longleftrightarrow> b \<le> a \<and> a < e \<and> is_addr_in_vma a v"
  by (auto simp: in_call_def is_addr_in_vma_def)

lemma msync_result:
  assumes "msync_all hs fs b e hdl trees m refs = Some (m', None, calls, refs')"
  shows "refs' = refs \<and>
    (\<exists>vs \<in> set trees. calls = map (\<lambda>v. msync_call_of b e (dump_vma v))
       (filter (vma_filter_needs_msync hs hdl) (vmas_in b e vs)))"
proof -
  obtain m1 r refs1 where dump: "dump_vmas b e (vma_filter_needs_msync hs hdl) trees m refs = Some (m1, r, refs1)"
    using assms by (cases "dump_vmas b e (vma_filter_needs_msync hs hdl) trees m refs") (auto simp: msync_all_def)
  note result = dump_rounds_result [OF dump [unfolded dump_vmas_def]]
  obtain infos where r: "r = Inr infos" using assms dump by (cases r) (auto simp: msync_all_def)
  then have "msync_loop fs b e infos = (None, calls)" "refs' = free_vma_info_array infos refs1"
    using assms dump by (auto simp: msync_all_def split: prod.splits)
  with msync_loop_ok result r show ?thesis by (fastforce simp: comp_def)
qed

lemma msync_pages:
  assumes "vmas_wf vs"
  shows "(\<exists>c \<in> set (map (\<lambda>v. msync_call_of b e (dump_vma v)) (filter (vma_filter_needs_msync hs hdl) (vmas_in b e vs))). in_call a c)
    \<longleftrightarrow> b \<le> a \<and> a < e \<and> (\<exists>x. mapped vs a = Some x \<and> msync_page hs hdl x)" (is "?l \<longleftrightarrow> ?r")
proof -
  have "?l \<longleftrightarrow> b \<le> a \<and> a < e \<and> (\<exists>u \<in> set vs. is_addr_in_vma a u \<and> msync_page hs hdl (vma_view u a))"
    by (auto simp: in_call_dump vmas_in_set [OF assms] filter_msync_view [where a = a] is_addr_in_vma_def)
  then show ?thesis by (simp only: area_mapped [OF assms, of a "msync_page hs hdl"])
qed

lemma msync_offsets:
  assumes "vmas_wf vs" "v \<in> set (vmas_in b e vs)" "in_call a (msync_call_of b e (dump_vma v))" "vfile v \<noteq> None"
    and "mapped vs a = Some (p, f, file, off)"
  shows "off = call_offset (msync_call_of b e (dump_vma v)) + (a - call_addr (msync_call_of b e (dump_vma v))) +
    (max b (begin_addr v) - begin_addr v)"
proof -
  have "is_addr_in_vma a v" "v \<in> set vs" using assms(2,3) by (auto simp: in_call_dump vmas_in_set [OF assms(1)])
  then have "mapped vs a = Some (vma_view v a)" using vma_at_unique [OF assms(1)] by (simp add: mapped_def)
  then have "off = voffset v + (a - begin_addr v)" using assms(4,5) by (simp add: vma_view_def)
  then show ?thesis by simp
qed

section \<open>What is read again\<close>

text \<open>
  What the loop relies on of \<open>read\<close>: it moves the position by the number of bytes read, and not if
  it fails.
\<close>

definition read_count :: "read_outcome \<Rightarrow> u64" where
  "read_count r = (case fst r of Inl err \<Rightarrow> 0 | Inr count \<Rightarrow> count)"

definition position_follows :: "read_outcome list \<Rightarrow> bool" where
  "position_follows outcomes \<longleftrightarrow> list_all (\<lambda>r. snd r = read_count r) outcomes"

text \<open>The bytes read by the first calls.\<close>

definition bytes_read :: "nat \<Rightarrow> read_outcome list \<Rightarrow> u64" where
  "bytes_read i outcomes = sum_list (map read_count (take i outcomes))"

lemma bytes_read_simps [simp]:
  "bytes_read 0 outcomes = 0"
  "bytes_read (Suc i) (r # rest) = read_count r + bytes_read i rest"
  by (simp_all add: bytes_read_def)

text \<open>The outcomes after which the loop goes on, with so many bytes left, and what it returns after one of the others,
  with the assertion.\<close>

definition goes_on :: "u64 \<Rightarrow> read_outcome \<Rightarrow> bool" where
  "goes_on to_read r =
     (case fst r of Inl err \<Rightarrow> err = EINTR \<or> err = EAGAIN | Inr count \<Rightarrow> 0 < count \<and> count \<le> to_read)"

definition stops_with :: "read_outcome \<Rightarrow> errno option \<times> bool" where
  "stops_with r = (case fst r of Inl err \<Rightarrow> (Some err, True) | Inr count \<Rightarrow> (None, count = 0))"

lemma reload_loop_on:
  assumes "n < sz" "goes_on (sz - n) r" "snd r = read_count r"
  shows "reload_loop fd s sz (r # rest) n pos =
    map_option (\<lambda>(ret, k, evs, ok). (ret, k, Reload_Read fd (s + n) (sz - n) pos # evs, ok))
      (reload_loop fd s sz rest (n + read_count r) (pos + read_count r))"
  using assms
  by (subst reload_loop.simps) (auto simp: goes_on_def read_count_def Let_def split: prod.splits sum.splits)

lemma reload_loop_stop:
  assumes "n < sz" "\<not> goes_on (sz - n) r"
  shows "reload_loop fd s sz (r # rest) n pos =
    Some (fst (stops_with r), n, [Reload_Read fd (s + n) (sz - n) pos], snd (stops_with r))"
  using assms by (subst reload_loop.simps)
    (auto simp: goes_on_def stops_with_def Let_def word_gt_0 split: prod.splits sum.splits)

lemma add_le_limit: "(n :: u64) \<le> sz \<Longrightarrow> k \<le> sz - n \<Longrightarrow> n + k \<le> sz \<and> n \<le> n + k \<and> unat (n + k) = unat n + unat k"
  by unat_arith

lemma sub_step:
  assumes "(n :: u64) \<le> sz" "0 < k" "k \<le> sz - n"
  shows "unat (sz - (n + k)) < unat (sz - n)"
proof -
  note lim = add_le_limit [OF assms(1,3)]
  have "unat (sz - (n + k)) = unat sz - (unat n + unat k)" "unat (sz - n) = unat sz - unat n"
    using lim assms(1) by (simp_all add: unat_sub)
  moreover have "0 < unat k" "unat k \<le> unat (sz - n)"
    using assms(2,3) by (simp_all add: word_less_nat_alt word_le_nat_alt)
  ultimately show ?thesis by linarith
qed

text \<open>The outcomes that bring the loop forward: all but the requests to retry.\<close>

definition progress :: "read_outcome list \<Rightarrow> nat" where
  "progress outcomes = length (filter (\<lambda>r. fst r \<noteq> Inl EINTR \<and> fst r \<noteq> Inl EAGAIN) outcomes)"

lemma progress_Cons:
  assumes "goes_on (sz - n) r" "n \<le> sz" "unat (sz - n) \<le> progress (r # rest)"
  shows "n + read_count r \<le> sz" "unat (sz - (n + read_count r)) \<le> progress rest"
proof -
  have "n + read_count r \<le> sz \<and> unat (sz - (n + read_count r)) \<le> progress rest"
  proof (cases "fst r")
    case (Inl err)
    then show ?thesis using assms by (auto simp: goes_on_def read_count_def progress_def)
  next
    case (Inr k)
    then have k: "read_count r = k" "0 < k" "k \<le> sz - n" using assms(1) by (simp_all add: goes_on_def read_count_def)
    then show ?thesis using Inr add_le_limit [OF assms(2) k(3)] sub_step [OF assms(2) k(2,3)] assms(3)
      by (simp add: progress_def)
  qed
  then show "n + read_count r \<le> sz" "unat (sz - (n + read_count r)) \<le> progress rest" by simp_all
qed

text \<open>
  The run of the loop: it takes the outcomes one by one as long as it goes on and bytes are left;
  each call reads what is left from where the last one stopped.
\<close>

definition reads :: "nat \<Rightarrow> u64 \<Rightarrow> u64 \<Rightarrow> u64 \<Rightarrow> u64 \<Rightarrow> read_outcome list \<Rightarrow> nat \<Rightarrow> read_event list" where
  "reads fd s sz off n outcomes k =
     map (\<lambda>i. Reload_Read fd (s + (n + bytes_read i outcomes)) (sz - (n + bytes_read i outcomes))
               (off + (n + bytes_read i outcomes))) [0..<k]"

lemma reads_Suc:
  "reads fd s sz off n (r # rest) (Suc k) =
     Reload_Read fd (s + n) (sz - n) (off + n) # reads fd s sz off (n + read_count r) rest k"
  by (simp add: reads_def map_upt_Suc add.assoc del: upt_Suc)

definition reload_run :: "nat \<Rightarrow> u64 \<Rightarrow> u64 \<Rightarrow> u64 \<Rightarrow> u64 \<Rightarrow> read_outcome list \<Rightarrow> nat \<Rightarrow> bool" where
  "reload_run fd s sz off n outcomes k \<longleftrightarrow> k \<le> length outcomes \<and>
     (\<forall>i<k. n + bytes_read i outcomes < sz \<and> goes_on (sz - (n + bytes_read i outcomes)) (outcomes ! i)) \<and>
     (if n + bytes_read k outcomes = sz
      then reload_loop fd s sz outcomes n (off + n) = Some (None, sz, reads fd s sz off n outcomes k, True)
      else n + bytes_read k outcomes < sz \<and> k < length outcomes \<and>
        \<not> goes_on (sz - (n + bytes_read k outcomes)) (outcomes ! k) \<and>
        reload_loop fd s sz outcomes n (off + n) =
          Some (fst (stops_with (outcomes ! k)), n + bytes_read k outcomes, reads fd s sz off n outcomes (Suc k),
                snd (stops_with (outcomes ! k))))"

lemma reload_run_Suc:
  assumes "reload_run fd s sz off (n + read_count r) rest k" "n < sz" "goes_on (sz - n) r" "snd r = read_count r"
  shows "reload_run fd s sz off n (r # rest) (Suc k)"
proof -
  have "n + bytes_read i (r # rest) < sz \<and> goes_on (sz - (n + bytes_read i (r # rest))) ((r # rest) ! i)"
    if "i < Suc k" for i
    using that assms(1-3) by (cases i) (auto simp: reload_run_def add.assoc)
  then show ?thesis
    using assms(1) reload_loop_on [OF assms(2-4), of fd s rest "off + n"]
    by (auto simp: reload_run_def reads_Suc add.assoc split: if_splits)
qed

lemma reload_loop_run:
  assumes "position_follows outcomes" "n \<le> sz" "unat (sz - n) \<le> progress outcomes"
  shows "\<exists>k. reload_run fd s sz off n outcomes k"
  using assms
proof (induction outcomes arbitrary: n)
  case Nil
  then have "n = sz" by (simp add: progress_def unat_eq_0)
  then have "reload_run fd s sz off n [] 0" by (simp add: reload_run_def reads_def reload_loop.simps)
  then show ?case by blast
next
  case (Cons r rest)
  consider (full) "n = sz" | (stop) "n < sz" "\<not> goes_on (sz - n) r" | (on) "n < sz" "goes_on (sz - n) r"
    using Cons.prems(2) by fastforce
  then show ?case
  proof cases
    case full
    then have "reload_run fd s sz off n (r # rest) 0" by (simp add: reload_run_def reads_def reload_loop.simps)
    then show ?thesis by blast
  next
    case stop
    then have "reload_run fd s sz off n (r # rest) 0"
      by (simp add: reload_run_def reads_def reload_loop_stop)
    then show ?thesis by blast
  next
    case on
    have r: "snd r = read_count r" "position_follows rest" using Cons.prems(1) by (simp_all add: position_follows_def)
    from Cons.IH [OF r(2) progress_Cons [OF on(2) Cons.prems(2,3)]] reload_run_Suc on r(1) show ?thesis by blast
  qed
qed

end
