(* ===== verification/Vma_Cache.thy ===== *)
theory Vma_Cache
  imports Prelude
begin

text \<open>
  The per-thread cache of free areas of \<^verbatim>\<open>libos/src/bookkeep/libos_vma.c\<close>. The cache is a linked
  list through \<open>next_free\<close>; the two low bits of every pointer hold the length of the list it
  points to. Addresses are words, \<open>next_free\<close> is the store of that field. \<open>cache_ok\<close> becomes false when
  an assertion fails. The loops of \<open>remove_from_thread_vma_cache\<close> have a bound on the number of
  steps, \<open>None\<close> means that it was reached.
\<close>

record thread_cache =
  vma_cache :: u64
  next_free :: "u64 \<Rightarrow> u64"
  cache_ok :: bool

definition VMA_CACHE_SIZE :: u64 where "VMA_CACHE_SIZE = 3"

definition cache2ptr :: "u64 \<Rightarrow> u64" where
  "cache2ptr p = p AND NOT VMA_CACHE_SIZE"

definition create_cache_ptr :: "u64 \<Rightarrow> u64 \<Rightarrow> u64" where
  "create_cache_ptr v sz = v OR sz"

definition cache2size :: "u64 \<Rightarrow> u64" where
  "cache2size p = p AND VMA_CACHE_SIZE"

definition set_cache :: "u64 \<Rightarrow> u64 \<Rightarrow> thread_cache \<Rightarrow> thread_cache" where
  "set_cache v sz c =
     c\<lparr>vma_cache := create_cache_ptr v sz, cache_ok := cache_ok c \<and> sz \<le> VMA_CACHE_SIZE\<rparr>"

definition set_next :: "u64 \<Rightarrow> u64 \<Rightarrow> u64 \<Rightarrow> thread_cache \<Rightarrow> thread_cache" where
  "set_next u v sz c =
     c\<lparr>next_free := (next_free c)(u := create_cache_ptr v sz), cache_ok := cache_ok c \<and> sz \<le> VMA_CACHE_SIZE\<rparr>"

definition get_from_thread_vma_cache :: "thread_cache \<Rightarrow> u64 option \<times> thread_cache" where
  "get_from_thread_vma_cache c =
     (let v = cache2ptr (vma_cache c) in
      if v = 0 then (None, c) else (Some v, c\<lparr>vma_cache := next_free c v\<rparr>))"

definition add_to_thread_vma_cache :: "u64 \<Rightarrow> thread_cache \<Rightarrow> bool \<times> thread_cache" where
  "add_to_thread_vma_cache v c0 =
     (let c = c0\<lparr>cache_ok := cache_ok c0 \<and> cache2size v = 0\<rparr>;
          ptr = vma_cache c;
          sz = cache2size ptr
      in if VMA_CACHE_SIZE \<le> sz then (False, c)
         else (True, set_cache v (sz + 1) (c\<lparr>next_free := (next_free c)(v := ptr)\<rparr>)))"

fun cache_search :: "nat \<Rightarrow> u64 \<Rightarrow> u64 \<Rightarrow> thread_cache \<Rightarrow> bool option" where
  "cache_search 0 v to_remove c = None"
| "cache_search (Suc n) v to_remove c =
     (if v = 0 then Some False
      else
        (let nxt = cache2ptr (next_free c v) in
         if nxt = to_remove then Some True else cache_search n nxt to_remove c))"

fun cache_unlink :: "nat \<Rightarrow> u64 \<Rightarrow> u64 \<Rightarrow> thread_cache \<Rightarrow> thread_cache option" where
  "cache_unlink 0 v to_remove c = None"
| "cache_unlink (Suc n) v to_remove c =
     (if v = 0 then Some c
      else
        (let nxt = cache2ptr (next_free c v) in
         if nxt = to_remove then Some (c\<lparr>next_free := (next_free c)(v := next_free c nxt)\<rparr>)
         else cache_unlink n nxt to_remove (set_next v nxt (cache2size (next_free c v) - 1) c)))"

definition remove_from_thread_vma_cache :: "nat \<Rightarrow> u64 \<Rightarrow> thread_cache \<Rightarrow> thread_cache option" where
  "remove_from_thread_vma_cache n to_remove c0 =
     (let c = c0\<lparr>cache_ok := cache_ok c0 \<and> to_remove \<noteq> 0\<rparr>;
          first_vma = cache2ptr (vma_cache c)
      in if first_vma = to_remove then Some (c\<lparr>vma_cache := next_free c first_vma\<rparr>)
         else
           (case cache_search n first_vma to_remove c of
              None \<Rightarrow> None
            | Some False \<Rightarrow> Some c
            | Some True \<Rightarrow>
                cache_unlink n first_vma to_remove (set_cache first_vma (cache2size first_vma - 1) c)))"

section \<open>The cache as a list\<close>

fun chain :: "(u64 \<Rightarrow> u64) \<Rightarrow> u64 \<Rightarrow> u64 list \<Rightarrow> bool" where
  "chain nf p [] \<longleftrightarrow> p = 0"
| "chain nf p (x # xs) \<longleftrightarrow>
     x \<noteq> 0 \<and> cache2size x = 0 \<and> p = create_cache_ptr x (of_nat (length (x # xs))) \<and> chain nf (nf x) xs"

definition caches :: "thread_cache \<Rightarrow> u64 list \<Rightarrow> bool" where
  "caches c xs \<longleftrightarrow> chain (next_free c) (vma_cache c) xs \<and> length xs \<le> 3 \<and> distinct xs \<and> cache_ok c"

lemma low_bits:
  assumes "cache2size x = 0" "n \<le> VMA_CACHE_SIZE"
  shows "cache2ptr (create_cache_ptr x n) = x" "cache2size (create_cache_ptr x n) = n"
proof -
  have "unat n \<le> 3" using assms(2) by (simp add: VMA_CACHE_SIZE_def word_le_nat_alt)
  then have "unat n = 0 \<or> unat n = 1 \<or> unat n = 2 \<or> unat n = 3" by linarith
  then have "n = 0 \<or> n = 1 \<or> n = 2 \<or> n = 3" by (simp add: word_unat_eq_iff)
  then have low: "n AND 3 = n" "n AND NOT 3 = 0" by auto
  have x: "x AND 3 = 0" using assms(1) by (simp add: cache2size_def VMA_CACHE_SIZE_def)
  have "(x AND k) OR (x AND NOT k) = x" for k by (rule bit_eqI) (auto simp: bit_and_iff bit_or_iff bit_not_iff)
  from this [of 3] have "(x AND 3) OR (x AND NOT 3) = x" .
  then have "x AND NOT 3 = x" using x by simp
  then show "cache2ptr (create_cache_ptr x n) = x" "cache2size (create_cache_ptr x n) = n"
    using x low by (simp_all add: cache2ptr_def cache2size_def create_cache_ptr_def VMA_CACHE_SIZE_def bit.conj_disj_distrib2)
qed

lemma size_of_nat: "k \<le> 3 \<Longrightarrow> (of_nat k :: u64) \<le> VMA_CACHE_SIZE"
proof -
  assume "k \<le> 3"
  then have "k = 0 \<or> k = 1 \<or> k = 2 \<or> k = 3" by linarith
  then show ?thesis by (auto simp: VMA_CACHE_SIZE_def)
qed

lemma chain_ptr:
  assumes "chain nf p xs" "length xs \<le> 3"
  shows "cache2ptr p = (case xs of [] \<Rightarrow> 0 | x # _ \<Rightarrow> x)" "cache2size p = of_nat (length xs)"
proof -
  show "cache2ptr p = (case xs of [] \<Rightarrow> 0 | x # _ \<Rightarrow> x)"
    using assms low_bits(1) [OF _ size_of_nat] by (cases xs) (auto simp: cache2ptr_def simp del: of_nat_Suc)
  show "cache2size p = of_nat (length xs)"
    using assms low_bits(2) [OF _ size_of_nat] by (cases xs) (auto simp: cache2size_def simp del: of_nat_Suc)
qed

lemma chain_upd [simp]: "v \<notin> set xs \<Longrightarrow> chain (nf(v := q)) p xs = chain nf p xs"
  by (induction xs arbitrary: p) auto

lemma chain_nonzero: "chain nf p xs \<Longrightarrow> x \<in> set xs \<Longrightarrow> x \<noteq> 0"
  by (induction xs arbitrary: p) auto

lemma get_cache:
  assumes "caches c xs"
  shows "case get_from_thread_vma_cache c of
      (None, c') \<Rightarrow> xs = [] \<and> c' = c
    | (Some v, c') \<Rightarrow> xs = v # tl xs \<and> caches c' (tl xs)"
proof -
  have ch: "chain (next_free c) (vma_cache c) xs" "length xs \<le> 3" using assms by (auto simp: caches_def)
  show ?thesis
    using assms chain_ptr(1) [OF ch] by (cases xs) (auto simp: get_from_thread_vma_cache_def Let_def caches_def)
qed

lemma add_cache:
  assumes "caches c xs" "v \<noteq> 0" "cache2size v = 0" "v \<notin> set xs"
  shows "add_to_thread_vma_cache v c = (True, c') \<Longrightarrow> caches c' (v # xs)"
    "add_to_thread_vma_cache v c = (False, c') \<Longrightarrow> length xs = 3 \<and> c' = c"
    "fst (add_to_thread_vma_cache v c) \<longleftrightarrow> length xs < 3"
proof -
  have ch: "chain (next_free c) (vma_cache c) xs" "length xs \<le> 3" "distinct xs" "cache_ok c"
    using assms(1) by (auto simp: caches_def)
  have sz: "cache2size (vma_cache c) = of_nat (length xs)" using chain_ptr(2) [OF ch(1,2)] .
  have ok: "c\<lparr>cache_ok := cache_ok c \<and> cache2size v = 0\<rparr> = c" using assms(3) ch(4) by simp
  have full: "VMA_CACHE_SIZE \<le> of_nat (length xs) \<longleftrightarrow> length xs = 3"
  proof -
    have "length xs = 0 \<or> length xs = 1 \<or> length xs = 2 \<or> length xs = 3" using ch(2) by linarith
    then show ?thesis by (auto simp: VMA_CACHE_SIZE_def word_le_nat_alt)
  qed
  show "add_to_thread_vma_cache v c = (False, c') \<Longrightarrow> length xs = 3 \<and> c' = c"
    "fst (add_to_thread_vma_cache v c) \<longleftrightarrow> length xs < 3"
    using ch(2) unfolding add_to_thread_vma_cache_def ok Let_def sz full by (auto split: if_splits)
  assume add: "add_to_thread_vma_cache v c = (True, c')"
  then have len: "length xs < 3"
    and c': "c' = set_cache v (of_nat (length xs) + 1) (c\<lparr>next_free := (next_free c)(v := vma_cache c)\<rparr>)"
    using ch(2) unfolding add_to_thread_vma_cache_def ok Let_def sz full by (auto split: if_splits)
  have "of_nat (length xs) + 1 = (of_nat (length (v # xs)) :: u64)" by simp
  moreover have "(of_nat (length (v # xs)) :: u64) \<le> VMA_CACHE_SIZE" using len by (intro size_of_nat) simp
  moreover have "chain ((next_free c)(v := vma_cache c)) (vma_cache c) xs"
    using ch(1) assms(4) by simp
  ultimately show "caches c' (v # xs)"
    using assms(2-4) ch(3,4) len unfolding c' caches_def set_cache_def by (simp del: of_nat_Suc)
qed

section \<open>Removal\<close>

lemma cache_first:
  assumes "caches c (x # xs)"
  shows "cache2ptr (vma_cache c) = x" "cache2size x = 0" "x \<noteq> 0" "next_free c x = next_free c x"
  using assms chain_ptr(1) [of "next_free c" "vma_cache c" "x # xs"] by (auto simp: caches_def)

lemma remove_first:
  assumes "caches c (x # xs)"
  obtains c' where "remove_from_thread_vma_cache n x c = Some c'" "caches c' xs"
proof
  show "remove_from_thread_vma_cache n x c = Some (c\<lparr>vma_cache := next_free c x\<rparr>)"
    using cache_first [OF assms] assms by (simp add: remove_from_thread_vma_cache_def caches_def)
  show "caches (c\<lparr>vma_cache := next_free c x\<rparr>) xs"
    using assms by (simp add: caches_def)
qed

text \<open>The search finds exactly the nodes after the first one, within as many steps as there are nodes.\<close>

lemma cache_search_chain:
  assumes "chain (next_free c) p xs" "length xs \<le> 3" "length xs < n" "v \<noteq> 0"
  shows "cache_search n (cache2ptr p) v c = Some (v \<in> set (tl xs))"
  using assms
proof (induction xs arbitrary: p n)
  case Nil
  then obtain n' where "n = Suc n'" by (cases n) auto
  then show ?case using chain_ptr(1) [OF Nil(1)] by simp
next
  case (Cons x xs)
  then obtain n' where n: "n = Suc n'" by (cases n) auto
  have x: "cache2ptr p = x" "x \<noteq> 0" and rest: "chain (next_free c) (next_free c x) xs" "length xs \<le> 3"
    using Cons.prems(1,2) chain_ptr(1) [OF Cons.prems(1,2)] by auto
  note nxt = chain_ptr(1) [OF rest]
  note IH = Cons.IH [OF rest, of n']
  show ?case
  proof (cases xs)
    case Nil
    then show ?thesis using n x nxt Cons.prems(3,4) IH by (simp add: Let_def)
  next
    case (Cons y ys)
    have "v \<in> set xs \<longleftrightarrow> v = y \<or> v \<in> set (tl xs)" using Cons by auto
    then show ?thesis using n x nxt Cons IH \<open>length (x # xs) < n\<close> \<open>v \<noteq> 0\<close> by (auto simp: Let_def)
  qed
qed

lemma remove_absent:
  assumes "caches c xs" "v \<notin> set xs" "v \<noteq> 0" "3 < n"
  shows "remove_from_thread_vma_cache n v c = Some c"
proof -
  have ch: "chain (next_free c) (vma_cache c) xs" "length xs \<le> 3" "cache_ok c" using assms(1) by (auto simp: caches_def)
  have "cache2ptr (vma_cache c) \<noteq> v" using chain_ptr(1) [OF ch(1,2)] assms(2,3) by (cases xs) auto
  moreover have "cache_search n (cache2ptr (vma_cache c)) v c = Some False"
    using cache_search_chain [OF ch(1,2), of n v] assms(2-4) ch(2) by (cases xs) auto
  moreover have "c\<lparr>cache_ok := cache_ok c \<and> v \<noteq> 0\<rparr> = c" using ch(3) assms(3) by simp
  ultimately show ?thesis by (simp add: remove_from_thread_vma_cache_def)
qed

text \<open>
  Any other node cannot be removed: the size of the list is taken from the first pointer after its
  low bits have been cleared, so the new size is the largest word.
\<close>

lemma unlink_keeps:
  "cache_unlink n v w c = Some c' \<Longrightarrow> vma_cache c' = vma_cache c \<and> (\<not> cache_ok c \<longrightarrow> \<not> cache_ok c')"
proof (induction n v w c rule: cache_unlink.induct)
  case (2 n v w c)
  then show ?case by (auto simp: Let_def set_next_def split: if_splits)
qed simp

lemma unlink_ends:
  assumes "chain (next_free c) p xs" "length xs \<le> 3" "length xs < n" "distinct xs"
  shows "\<exists>c'. cache_unlink n (cache2ptr p) v c = Some c'"
  using assms
proof (induction xs arbitrary: p n c)
  case Nil
  then obtain n' where "n = Suc n'" by (cases n) auto
  then show ?case using chain_ptr(1) [OF Nil(1)] by simp
next
  case (Cons x xs)
  then obtain n' where n: "n = Suc n'" by (cases n) auto
  have x: "cache2ptr p = x" "x \<noteq> 0" and rest: "chain (next_free c) (next_free c x) xs" "length xs \<le> 3"
    using Cons.prems(1,2) chain_ptr(1) [OF Cons.prems(1,2)] by auto
  let ?c = "set_next x (cache2ptr (next_free c x)) (cache2size (next_free c x) - 1) c"
  have "chain (next_free ?c) (next_free c x) xs"
    using rest(1) Cons.prems(4) by (simp add: set_next_def)
  from Cons.IH [OF this rest(2), of n'] Cons.prems(3,4) n
  show ?case using x by (auto simp: Let_def)
qed

lemma remove_later:
  assumes "caches c (x # xs)" "v \<in> set xs" "3 < n"
  obtains c' where "remove_from_thread_vma_cache n v c = Some c'" "\<not> cache_ok c'" "vma_cache c' = - 1"
proof -
  have ch: "chain (next_free c) (vma_cache c) (x # xs)" "length (x # xs) \<le> 3" "cache_ok c" "distinct (x # xs)"
    using assms(1) by (auto simp: caches_def)
  note first = cache_first [OF assms(1)]
  have v: "v \<noteq> x" "v \<noteq> 0"
    using assms(2) ch(4) chain_nonzero [OF ch(1), of v] by auto
  let ?c = "set_cache x (cache2size x - 1) c"
  have "cache_search n x v c = Some True"
    using cache_search_chain [OF ch(1,2), of n v] assms(2,3) ch(2) v first(1) by simp
  moreover have "c\<lparr>cache_ok := cache_ok c \<and> v \<noteq> 0\<rparr> = c" using ch(3) v by simp
  ultimately have res: "remove_from_thread_vma_cache n v c = cache_unlink n x v ?c"
    using v(1) by (simp add: remove_from_thread_vma_cache_def first(1) Let_def)
  have "chain (next_free ?c) (vma_cache c) (x # xs)" using ch(1) by (simp add: set_cache_def)
  then obtain c' where c': "cache_unlink n x v ?c = Some c'"
    using unlink_ends [of ?c "vma_cache c" "x # xs" n v] ch(2,4) assms(3) first(1) by auto
  have "\<not> (- 1 :: u64) \<le> 3" by code_simp
  then have "\<not> cache_ok ?c" "vma_cache ?c = - 1"
    by (simp_all add: set_cache_def first(2) create_cache_ptr_def VMA_CACHE_SIZE_def)
  with unlink_keeps [OF c'] res c' that show ?thesis by simp
qed

section \<open>The cache is a bounded stack\<close>

datatype 'a stack_op = Pop | Push 'a

datatype 'a stack_result = Popped "'a option" | Pushed bool

fun stack_run :: "nat \<Rightarrow> 'a stack_op list \<Rightarrow> 'a list \<Rightarrow> 'a stack_result list \<times> 'a list" where
  "stack_run cap [] xs = ([], xs)"
| "stack_run cap (Pop # ops) xs =
     (let (rs, ys) = stack_run cap ops (tl xs)
      in (Popped (case xs of [] \<Rightarrow> None | x # _ \<Rightarrow> Some x) # rs, ys))"
| "stack_run cap (Push x # ops) xs =
     (let (rs, ys) = stack_run cap ops (if length xs < cap then x # xs else xs)
      in (Pushed (length xs < cap) # rs, ys))"

text \<open>Only objects that are not in the stack are pushed.\<close>

fun stack_legal :: "('a \<Rightarrow> bool) \<Rightarrow> nat \<Rightarrow> 'a stack_op list \<Rightarrow> 'a list \<Rightarrow> bool" where
  "stack_legal valid cap [] xs \<longleftrightarrow> True"
| "stack_legal valid cap (Pop # ops) xs \<longleftrightarrow> stack_legal valid cap ops (tl xs)"
| "stack_legal valid cap (Push x # ops) xs \<longleftrightarrow>
     valid x \<and> x \<notin> set xs \<and> stack_legal valid cap ops (if length xs < cap then x # xs else xs)"

fun impl_run ::
    "('c \<Rightarrow> 'a option \<times> 'c) \<Rightarrow> ('a \<Rightarrow> 'c \<Rightarrow> bool \<times> 'c) \<Rightarrow> 'a stack_op list \<Rightarrow> 'c \<Rightarrow> 'a stack_result list \<times> 'c" where
  "impl_run pop push [] c = ([], c)"
| "impl_run pop push (Pop # ops) c =
     (let (x, c1) = pop c; (rs, c2) = impl_run pop push ops c1 in (Popped x # rs, c2))"
| "impl_run pop push (Push x # ops) c =
     (let (ok, c1) = push x c; (rs, c2) = impl_run pop push ops c1 in (Pushed ok # rs, c2))"

locale bounded_stack =
  fixes rep :: "'c \<Rightarrow> 'a list \<Rightarrow> bool"
    and pop :: "'c \<Rightarrow> 'a option \<times> 'c"
    and push :: "'a \<Rightarrow> 'c \<Rightarrow> bool \<times> 'c"
    and valid :: "'a \<Rightarrow> bool"
    and cap :: nat
  assumes pop_Nil: "rep c [] \<Longrightarrow> pop c = (None, c)"
    and pop_Cons: "rep c (x # xs) \<Longrightarrow> \<exists>c'. pop c = (Some x, c') \<and> rep c' xs"
    and push_room: "rep c xs \<Longrightarrow> valid x \<Longrightarrow> x \<notin> set xs \<Longrightarrow> length xs < cap \<Longrightarrow>
          \<exists>c'. push x c = (True, c') \<and> rep c' (x # xs)"
    and push_full: "rep c xs \<Longrightarrow> valid x \<Longrightarrow> x \<notin> set xs \<Longrightarrow> \<not> length xs < cap \<Longrightarrow> push x c = (False, c)"
begin

lemma simulates:
  assumes "rep c xs" "stack_legal valid cap ops xs"
  shows "fst (impl_run pop push ops c) = fst (stack_run cap ops xs)"
    "rep (snd (impl_run pop push ops c)) (snd (stack_run cap ops xs))"
proof -
  have "fst (impl_run pop push ops c) = fst (stack_run cap ops xs) \<and>
    rep (snd (impl_run pop push ops c)) (snd (stack_run cap ops xs))"
    using assms
  proof (induction ops arbitrary: c xs)
    case (Cons op ops)
    show ?case
    proof (cases op)
      case Pop
      show ?thesis
      proof (cases xs)
        case Nil
        then show ?thesis using Cons Pop pop_Nil [of c] by (auto simp: case_prod_beta Let_def)
      next
        case (Cons x ys)
        then obtain c' where "pop c = (Some x, c')" "rep c' ys" using pop_Cons Cons.prems(1) by blast
        then show ?thesis using Cons.IH [of c' ys] Cons.prems(2) Pop Cons by (auto simp: case_prod_beta Let_def)
      qed
    next
      case (Push x)
      then have legal: "valid x" "x \<notin> set xs" using Cons.prems(2) by auto
      show ?thesis
      proof (cases "length xs < cap")
        case True
        then obtain c' where "push x c = (True, c')" "rep c' (x # xs)" using push_room Cons.prems(1) legal by blast
        then show ?thesis using Cons.IH [of c' "x # xs"] Cons.prems(2) Push True by (auto simp: case_prod_beta Let_def)
      next
        case False
        then have "push x c = (False, c)" using push_full Cons.prems(1) legal by blast
        then show ?thesis using Cons.IH [of c xs] Cons.prems Push False by (auto simp: case_prod_beta Let_def)
      qed
    qed
  qed simp
  then show "fst (impl_run pop push ops c) = fst (stack_run cap ops xs)"
    "rep (snd (impl_run pop push ops c)) (snd (stack_run cap ops xs))" by simp_all
qed

end

interpretation tcache: bounded_stack caches get_from_thread_vma_cache add_to_thread_vma_cache
  "\<lambda>v. v \<noteq> 0 \<and> cache2size v = 0" 3
proof unfold_locales
  show "get_from_thread_vma_cache c = (None, c)" if "caches c []" for c
    using get_cache [OF that] by (auto split: prod.splits option.splits)
  show "\<exists>c'. get_from_thread_vma_cache c = (Some x, c') \<and> caches c' xs" if "caches c (x # xs)" for c x xs
    using get_cache [OF that] by (auto split: prod.splits option.splits)
  show "\<exists>c'. add_to_thread_vma_cache x c = (True, c') \<and> caches c' (x # xs)"
    if "caches c xs" "x \<noteq> 0 \<and> cache2size x = 0" "x \<notin> set xs" "length xs < 3" for c xs x
    using add_cache [OF that(1) _ _ that(3)] that(2,4) by (metis prod.collapse)
  show "add_to_thread_vma_cache x c = (False, c)"
    if "caches c xs" "x \<noteq> 0 \<and> cache2size x = 0" "x \<notin> set xs" "\<not> length xs < 3" for c xs x
    using add_cache [OF that(1) _ _ that(3)] that(2,4) by (metis prod.collapse)
qed

text \<open>
  C29: The per-thread cache refines a stack of at most three objects: for every sequence of allocations and frees in
  which no object is freed twice, it answers what the stack answers and ends in a state that
  represents the stack, with no assertion failed.
\<close>

theorem vma_cache_refines_stack:
  assumes "caches c xs" "stack_legal (\<lambda>v. v \<noteq> 0 \<and> cache2size v = 0) 3 ops xs"
  shows "fst (impl_run get_from_thread_vma_cache add_to_thread_vma_cache ops c) = fst (stack_run 3 ops xs) \<and>
    caches (snd (impl_run get_from_thread_vma_cache add_to_thread_vma_cache ops c)) (snd (stack_run 3 ops xs))"
  using tcache.simulates [OF assms] by simp

definition empty_cache :: thread_cache where
  "empty_cache = \<lparr>vma_cache = 0, next_free = (\<lambda>_. 0), cache_ok = True\<rparr>"

lemma empty_caches: "caches empty_cache []"
  by (simp add: caches_def empty_cache_def)

theorem vma_cache_refines_stack_witness:
  "fst (impl_run get_from_thread_vma_cache add_to_thread_vma_cache
      [Push 0x1000, Push 0x2000, Pop, Push 0x3000, Push 0x4000, Push 0x5000, Pop, Pop, Pop, Pop] empty_cache) =
   [Pushed True, Pushed True, Popped (Some 0x2000), Pushed True, Pushed True, Pushed False,
    Popped (Some 0x4000), Popped (Some 0x3000), Popped (Some 0x1000), Popped None]"
proof -
  let ?ops = "[Push 0x1000, Push 0x2000, Pop, Push 0x3000, Push 0x4000, Push 0x5000, Pop, Pop, Pop, Pop] :: u64 stack_op list"
  have "stack_legal (\<lambda>v. v \<noteq> 0 \<and> cache2size v = 0) 3 ?ops []" by code_simp
  from vma_cache_refines_stack [OF empty_caches this] show ?thesis by simp
qed

text \<open>
  C30: Removal from the cache works for the first object and leaves the cache alone when the object is not
  in it; removing any later object fails the assertion of \<open>create_cache_ptr\<close> and leaves the
  pointer with all bits set as the cache.
\<close>

theorem remove_from_cache:
  assumes "caches c (x # xs)" "3 < n"
  shows "(\<exists>c'. remove_from_thread_vma_cache n x c = Some c' \<and> caches c' xs) \<and>
    (\<forall>v. v \<noteq> 0 \<and> v \<notin> set (x # xs) \<longrightarrow> remove_from_thread_vma_cache n v c = Some c) \<and>
    (\<forall>v \<in> set xs. \<exists>c'. remove_from_thread_vma_cache n v c = Some c' \<and> \<not> cache_ok c' \<and> vma_cache c' = - 1)"
proof (intro conjI allI ballI impI)
  show "\<exists>c'. remove_from_thread_vma_cache n x c = Some c' \<and> caches c' xs"
    using remove_first [OF assms(1)] by metis
  show "remove_from_thread_vma_cache n v c = Some c" if "v \<noteq> 0 \<and> v \<notin> set (x # xs)" for v
    using remove_absent [OF assms(1) _ _ assms(2)] that by blast
  show "\<exists>c'. remove_from_thread_vma_cache n v c = Some c' \<and> \<not> cache_ok c' \<and> vma_cache c' = - 1" if "v \<in> set xs" for v
    using remove_later [OF assms(1) that assms(2)] by metis
qed

theorem remove_from_cache_witness:
  "\<exists>c. caches c [0x2000, 0x1000] \<and>
    (\<exists>c'. remove_from_thread_vma_cache 4 0x2000 c = Some c' \<and> caches c' [0x1000]) \<and>
    (\<exists>c'. remove_from_thread_vma_cache 4 0x1000 c = Some c' \<and> \<not> cache_ok c')"
proof -
  let ?c = "snd (impl_run get_from_thread_vma_cache add_to_thread_vma_cache [Push 0x1000, Push 0x2000] empty_cache)"
  have "stack_legal (\<lambda>v. v \<noteq> 0 \<and> cache2size v = 0) 3 [Push 0x1000, Push 0x2000] []" by code_simp
  from tcache.simulates(2) [OF empty_caches this] have c: "caches ?c [0x2000, 0x1000]" by simp
  from remove_from_cache [OF c, of 4] c show ?thesis by auto
qed

end
