(* ===== verification/Vma_State.thy ===== *)
theory Vma_State
  imports Vma_Init Vma_Files Vma_Cache
begin

text \<open>
  The bookkeeping of the address space as a whole: the list of areas is the AVL tree of the code,
  every sequence of operations keeps the invariant, and the effect of each operation on what is
  mapped where.
\<close>

section \<open>The list of areas is the AVL tree\<close>

lemma vma_cmp_upward: "vmas_wf vs \<Longrightarrow> sorted_wrt (\<lambda>a b. vma_tree_cmp v a \<longrightarrow> vma_tree_cmp v b) vs"
  using vmas_wf_sorted_ends [of vs] by (rule sorted_wrt_mono_rel [rotated]) (auto simp: vma_tree_cmp_def)

lemma addr_cmp_upward: "vmas_wf vs \<Longrightarrow> sorted_wrt (\<lambda>a b. cmp_addr_to_vma addr a \<longrightarrow> cmp_addr_to_vma addr b) vs"
  using vmas_wf_sorted_ends [of vs] by (rule sorted_wrt_mono_rel [rotated]) (auto simp: cmp_addr_to_vma_def)

lemma avl_vma_insert:
  assumes "avl t" "vmas_wf (inorder t)"
  obtains t' where "avl_tree_insert vma_tree_cmp v t = Some t'" "avl t'" "inorder t' = vma_insert v (inorder t)"
proof -
  obtain t' where t': "avl_tree_insert vma_tree_cmp v t = Some t'" "avl t'"
    using avl_seq.ins_wf [OF assms(1), of vma_tree_cmp v] by blast
  have "inorder t' = vma_insert v (inorder t)"
    unfolding vma_insert_def by (rule avl_seq.ins_seq [OF t'(1) vma_cmp_upward [OF assms(2)]])
  with t' that show ?thesis by blast
qed

lemma avl_vma_lookup:
  assumes "vmas_wf (inorder t)"
  shows "walk avl_tree_next node_of (length (inorder t)) (avl_tree_lower_bound_fn cmp_addr_to_vma addr t) =
      vmas_from addr (inorder t)"
    "map_option node_of (avl_tree_lower_bound_fn cmp_addr_to_vma addr t) = lookup_vma_node addr (inorder t)"
proof -
  let ?p = "avl_tree_lower_bound_fn cmp_addr_to_vma addr t"
  note up = addr_cmp_upward [OF assms, of addr]
  show "walk avl_tree_next node_of (length (inorder t)) ?p = vmas_from addr (inorder t)"
    unfolding vmas_from_def by (rule avl_seq.walk_lower [where c = cmp_addr_to_vma and k = addr, OF up])
  note at = avl_seq.lower_at [where c = cmp_addr_to_vma and k = addr, OF up]
  show "map_option node_of ?p = lookup_vma_node addr (inorder t)"
  proof (cases ?p)
    case None
    then have "vmas_from addr (inorder t) = []" using at unfolding vmas_from_def by (simp only: option.case)
    with None show ?thesis by (simp add: lookup_vma_node_def)
  next
    case (Some q)
    then have "points_at t q (length (vmas_below addr (inorder t)))" using at by (simp add: vmas_below_def)
    from avl_seq.at_item [OF this]
    have q: "length (vmas_below addr (inorder t)) < length (inorder t)"
      "node_of q = inorder t ! length (vmas_below addr (inorder t))" by auto
    have split: "inorder t = vmas_below addr (inorder t) @ vmas_from addr (inorder t)" by (simp add: vmas_split)
    obtain v rest where "vmas_from addr (inorder t) = v # rest"
      using q(1) split by (cases "vmas_from addr (inorder t)") (metis append_Nil2 less_irrefl, blast)
    moreover from this have "node_of q = v" using q(2) split by (metis nth_append_length)
    ultimately show ?thesis using Some by (simp add: lookup_vma_node_def)
  qed
qed

lemma avl_vma_delete:
  assumes "avl t" "vmas_wf (inorder t)" "points_at t ptr i"
  obtains t' where "avl_tree_delete ptr = Some t'" "avl t'" "inorder t' = remove1 (node_of ptr) (inorder t)"
proof -
  obtain t' where t': "avl_tree_delete ptr = Some t'" "avl t'"
    using avl_seq.del_wf [OF assms(1,3)] by blast
  have i: "i < length (inorder t)" "node_of ptr = inorder t ! i" using avl_seq.at_item [OF assms(3)] by auto
  have "inorder t' = take i (inorder t) @ drop (Suc i) (inorder t)"
    by (rule avl_seq.del_seq [OF assms(1,3) t'(1)])
  moreover have "inorder t = take i (inorder t) @ node_of ptr # drop (Suc i) (inorder t)"
    using i by (simp add: id_take_nth_drop)
  ultimately have "inorder t' = remove1 (node_of ptr) (inorder t)"
    using remove_area(1) assms(2) by metis
  with t' that show ?thesis by blast
qed

section \<open>Every operation keeps the invariant\<close>

text \<open>A change of protections: everything but the assertion of \<open>_vma_bkeep_change\<close>.\<close>

lemma change_error:
  assumes "vma_bkeep_change hs b e prot intl st = (Some err, st')"
  shows "st' = st"
proof (cases "vmas_from b (vma_tree st)")
  case Nil
  then show ?thesis using assms by (simp add: vma_bkeep_change_def)
next
  case (Cons v rest)
  obtain l1 n1 l2 n2 where loops: "change_loop prot e rest = (l1, n1)" "change_loop prot e (v # rest) = (l2, n2)"
    by fastforce
  show ?thesis
    using assms unfolding vma_bkeep_change_def Cons list.case loops Let_def prod.case
    by (simp only: prod.inject option.distinct option.inject simp_thms split: if_split_asm option.split_asm)
qed

text \<open>A change succeeds exactly when the whole range lies in areas that may be changed.\<close>

lemma change_succeeds:
  assumes "vmas_wf (vma_tree st)" "b < e"
  shows "fst (vma_bkeep_change hs b e prot intl st) = None \<longleftrightarrow>
    covered (\<lambda>v. change_denied hs prot intl v = None) b e (vma_tree st)"
proof (cases "vmas_from b (vma_tree st)")
  case Nil
  then show ?thesis
    using covered_from [OF assms, of "\<lambda>v. change_denied hs prot intl v = None"] assms(2)
    by (simp add: vma_bkeep_change_def covered_Nil)
next
  case (Cons v rest)
  let ?P = "\<lambda>v. change_denied hs prot intl v = None"
  have wf: "vmas_wf (v # rest)" "b < end_addr v"
    using vmas_wf_split(2) [OF assms(1), of b] vmas_from_end [OF assms(1), of v b] Cons by simp_all
  have cov: "covered ?P b e (vma_tree st) \<longleftrightarrow> covered ?P b e (v # rest)"
    using covered_from [OF assms, of ?P] Cons by simp
  show ?thesis
  proof (cases "b < begin_addr v")
    case True
    have "\<not> is_addr_in_vma b u" if "u \<in> set (v # rest)" for u
      using that True vmas_wf_ends(3) [OF wf(1), of u] by (auto simp: is_addr_in_vma_def)
    then have "\<not> covered ?P b e (v # rest)" using assms(2) unfolding covered_def by blast
    with True cov Cons show ?thesis by (simp add: vma_bkeep_change_def)
  next
    case False
    then have le: "begin_addr v \<le> b" by simp
    obtain l1 n1 l2 n2 where loops: "change_loop prot e rest = (l1, n1)" "change_loop prot e (v # rest) = (l2, n2)"
      by fastforce
    have "fst (vma_bkeep_change hs b e prot intl st) = None \<longleftrightarrow> change_check hs prot intl e (v # rest) True = None"
      unfolding vma_bkeep_change_def Cons list.case if_not_P [OF False] loops Let_def prod.case
      by (simp only: fst_conv option.distinct simp_thms split: option.split if_split) fastforce
    then show ?thesis using change_check_covered [OF wf(1) le wf(2) assms(2)] cov by simp
  qed
qed

lemma change_tree:
  assumes "vma_bkeep_change hs b e prot intl st = (None, st')" "vmas_wf (vma_tree st)" "b < e"
  shows "vmas_wf (vma_tree st') \<and> total_len (vma_tree st') = total_len (vma_tree st)"
proof (cases "has_flag prot PROT_GROWSDOWN")
  case False
  then show ?thesis using changedD(1,2) [OF change_effect(1) [OF assms False]] by simp
next
  case True
  show ?thesis
    using assms
  proof (cases rule: change_ok_cases)
    case (whole us v rest)
    have wf: "vmas_wf us" "vmas_wf (v # rest)" "\<And>u w. u \<in> set us \<Longrightarrow> w \<in> set (v # rest) \<Longrightarrow> end_addr u \<le> begin_addr w"
      using assms(2) unfolding whole(1) vmas_wf_append by blast+
    note spec = change_list_spec [OF wf(2), where prot = prot and e = e]
    have "end_addr u \<le> begin_addr w" if "u \<in> set us" "w \<in> set (change_list prot e (v # rest))" for u w
      using spec(4) [OF _ that(2), of "end_addr u"] wf(3) [OF that(1)] by blast
    then show ?thesis using spec(1,2) wf(1) unfolding whole(1,6) vmas_wf_append total_len_simps by auto
  qed (use True in simp_all)
qed

lemma change_inv:
  assumes "vma_bkeep_change hs b e prot intl st = (ret, st')" "vma_inv hs st" "b < e"
  shows "asserts_hold st' \<Longrightarrow> vma_inv hs st'"
    "\<not> asserts_hold st' \<Longrightarrow> ret = None \<and> \<not> has_flag prot PROT_GROWSDOWN \<and>
       (\<exists>us v. vma_tree st = us @ [v] \<and> begin_addr v < b \<and> end_addr v \<le> e)"
proof -
  have inv: "vmas_wf (vma_tree st)" "sized (total_len (vma_tree st)) st" "counted hs st" "asserts_hold st"
    using assms(2) by (simp_all add: vma_inv_parts counted_def)
  note counted = change_counted [OF assms(1) inv(3)]
  show "vma_inv hs st'" if "asserts_hold st'"
  proof (cases ret)
    case None
    then show ?thesis
      using change_tree [of hs b e prot intl st st'] assms inv counted that by (simp add: vma_inv_parts counted_def)
  next
    case (Some err)
    then show ?thesis using change_error assms by blast
  qed
  assume failed: "\<not> asserts_hold st'"
  then have ret: "ret = None" using change_error assms inv(4) by (cases ret) blast+
  have "vma_bkeep_change hs b e prot intl st = (None, st')" using assms(1) ret by simp
  then show "ret = None \<and> \<not> has_flag prot PROT_GROWSDOWN \<and>
       (\<exists>us v. vma_tree st = us @ [v] \<and> begin_addr v < b \<and> end_addr v \<le> e)"
    using inv(1) assms(3)
  proof (cases rule: change_ok_cases)
    case (tail us v rest)
    then show ?thesis using failed inv(4) ret by auto
  qed (use failed inv(4) in simp_all)
qed

text \<open>
  The operations as steps. A failed assertion ends the process, so a step starts in a state in which
  none has failed. The callers make sure that a range does not wrap around, and hand
  \<open>bkeep_remove_tmp_vma\<close> and \<open>bkeep_convert_tmp_vma_to_user\<close> the temporary area they got.
\<close>

inductive vma_step :: "pal_public_state \<Rightarrow> handles \<Rightarrow> vma_state \<Rightarrow> vma_state \<Rightarrow> bool" for pal hs where
  initial: "asserts_hold st \<Longrightarrow> begin_addr v < end_addr v \<Longrightarrow> vfile v = None \<Longrightarrow>
    bkeep_initial_vma v st = (r, st') \<Longrightarrow> vma_step pal hs st st'"
| munmap: "asserts_hold st \<Longrightarrow> addr < addr + len \<Longrightarrow>
    bkeep_munmap pal hs m addr len intl st = (m', r, st') \<Longrightarrow> vma_step pal hs st st'"
| remove_tmp: "asserts_hold st \<Longrightarrow> v \<in> set (vma_tree st) \<Longrightarrow> vflags v = (VMA_INTERNAL OR VMA_UNMAPPED) \<Longrightarrow>
    bkeep_remove_tmp_vma hs (begin_addr v) st = st' \<Longrightarrow> vma_step pal hs st st'"
| convert_tmp: "asserts_hold st \<Longrightarrow> v \<in> set (vma_tree st) \<Longrightarrow> vflags v = (VMA_INTERNAL OR VMA_UNMAPPED) \<Longrightarrow>
    bkeep_convert_tmp_vma_to_user (begin_addr v) st = st' \<Longrightarrow> vma_step pal hs st st'"
| mmap_fixed: "asserts_hold st \<Longrightarrow> addr < addr + len \<Longrightarrow>
    bkeep_mmap_fixed pal hs m addr len prot flags f offset comment st = (m', r, st') \<Longrightarrow> vma_step pal hs st st'"
| mmap_any: "asserts_hold st \<Longrightarrow>
    bkeep_mmap_any_in_range pal hs m bottom0 top0 len prot flags f offset comment st = (m', res, st') \<Longrightarrow>
    vma_step pal hs st st'"
| mprotect: "asserts_hold st \<Longrightarrow> addr < addr + len \<Longrightarrow>
    bkeep_mprotect pal hs m addr len prot intl st = (m', r, st') \<Longrightarrow> vma_step pal hs st st'"
| malloc: "asserts_hold st \<Longrightarrow> vma_malloc pal hs m pal_ret sz st = (m', res, st') \<Longrightarrow> vma_step pal hs st st'"

inductive vma_reachable :: "pal_public_state \<Rightarrow> handles \<Rightarrow> vma_state \<Rightarrow> bool" for pal hs where
  start: "vma_tree st = [] \<Longrightarrow> g_total_memory_size st = 0 \<Longrightarrow> (\<And>h. handle_refs st h = 0) \<Longrightarrow>
    (\<And>i. num_mmapped st i = 0) \<Longrightarrow> asserts_hold st \<Longrightarrow> vma_reachable pal hs st"
| step: "vma_reachable pal hs st \<Longrightarrow> vma_step pal hs st st' \<Longrightarrow> vma_reachable pal hs st'"

lemma mprotect_change:
  assumes "bkeep_mprotect pal hs m addr len prot intl st = (m', r, st')"
  obtains (early) err where "r = Some err" "st' = st"
  | (change) "vma_bkeep_change hs addr (addr + len) prot intl st = (r, st')"
  using assms by (auto simp: bkeep_mprotect_def split: if_splits prod.splits)

lemma initial_error: "bkeep_initial_vma v st = (Some err, st') \<Longrightarrow> st' = st"
  by (auto simp: bkeep_initial_vma_def split: option.splits if_splits)

lemma vma_step_inv:
  assumes "vma_step pal hs st st'" "asserts_hold st \<Longrightarrow> vma_inv hs st"
  shows "asserts_hold st' \<Longrightarrow> vma_inv hs st'"
  using assms
proof (induction rule: vma_step.induct)
  case (initial st v r st')
  then show ?case using initial_vma_ok(1) initial_error by (cases r) blast+
next
  case (munmap st addr len m intl m' r st')
  then show ?case using munmap_ok(1) munmap_error by (cases r) blast+
next
  case (remove_tmp st v st')
  then show ?case using remove_tmp_ok(1) by blast
next
  case (convert_tmp st v st')
  then show ?case using convert_tmp_ok by blast
next
  case (mmap_fixed st addr len m prot flags f offset comment m' r st')
  show ?case
  proof (cases r)
    case None
    then show ?thesis using mmap_fixed mmap_fixed_ok(1) by blast
  next
    case (Some err)
    show ?thesis using mmap_fixed_error [OF mmap_fixed.hyps(3) [unfolded Some]] mmap_fixed by blast
  qed
next
  case (mmap_any st m bottom0 top0 len prot flags f offset comment m' res st')
  show ?case
  proof (cases res)
    case (Inl err)
    show ?thesis using mmap_any_error [OF mmap_any.hyps(2) [unfolded Inl]] mmap_any by blast
  next
    case (Inr addr)
    then show ?thesis using mmap_any mmap_any_ok(1) by blast
  qed
next
  case (mprotect st addr len m prot intl m' r st')
  from mprotect.hyps(3) show ?case
    by (cases rule: mprotect_change) (use mprotect change_inv(1) in blast)+
next
  case (malloc st m pal_ret sz m' res st')
  then show ?case using vma_malloc_ok(1) by blast
qed

lemma vma_reachable_inv:
  "vma_reachable pal hs st \<Longrightarrow> asserts_hold st \<Longrightarrow> vma_inv hs st"
proof (induction rule: vma_reachable.induct)
  case (start st)
  then show ?case by (simp add: vma_inv_def file_count_def inode_count_def total_len_def)
next
  case (step st st')
  then show ?case using vma_step_inv by blast
qed

end
