(* ===== verification/Vma_Asserts.thy ===== *)
theory Vma_Asserts
  imports Vma_State
begin

text \<open>
  The assertions of the operations of \<^verbatim>\<open>libos/src/bookkeep/libos_vma.c\<close> that change the tree.
  \<open>Vma\<close> records in \<open>asserts_hold\<close> those on the reference counts and sizes, on temporary areas and
  \<open>assert(next)\<close>; here are, for each operation, the ones on its arguments and along its
  way through the areas, as a predicate on the arguments and the areas before the call.
  That a spinlock is held and that an out parameter is given are not modelled.
\<close>

section \<open>Removing a range\<close>

definition split_vma_asserts :: "libos_vma \<Rightarrow> u64 \<Rightarrow> bool" where
  "split_vma_asserts old addr \<longleftrightarrow> begin_addr old < addr \<and> addr < end_addr old"

definition vma_bkeep_remove_asserts ::
    "pal_public_state \<Rightarrow> u64 \<Rightarrow> u64 \<Rightarrow> bool \<Rightarrow> bool \<Rightarrow> libos_vma list \<Rightarrow> bool" where
  "vma_bkeep_remove_asserts pal b e is_internal new_vma vs \<longleftrightarrow>
     is_alloc_aligned pal b \<and> is_alloc_aligned pal e \<and>
     (case vmas_from b vs of
        [] \<Rightarrow> True
      | v # rest \<Rightarrow>
          if \<exists>u \<in> set (takeWhile (\<lambda>u. begin_addr u < e) (v # rest)). is_internal_vma u \<noteq> is_internal
          then True
          else if begin_addr v < b \<and> e < end_addr v then (if \<not> new_vma then True else split_vma_asserts v e)
          else True)"

definition bkeep_munmap_asserts ::
    "pal_public_state \<Rightarrow> mem \<Rightarrow> u64 \<Rightarrow> u64 \<Rightarrow> bool \<Rightarrow> libos_vma list \<Rightarrow> bool" where
  "bkeep_munmap_asserts pal m addr len is_internal vs \<longleftrightarrow>
     (if len = 0 \<or> \<not> is_alloc_aligned pal len \<or> \<not> is_alloc_aligned pal addr then True
      else
        (let (vma1, m1) = malloc m in
         if \<not> vma1 then True
         else
           (let (vma2, m2) = malloc m1
            in vma_bkeep_remove_asserts pal addr (addr + len) is_internal vma2 vs)))"

definition bkeep_mmap_fixed_asserts ::
    "pal_public_state \<Rightarrow> mem \<Rightarrow> u64 \<Rightarrow> u64 \<Rightarrow> u32 \<Rightarrow> libos_vma list \<Rightarrow> bool" where
  "bkeep_mmap_fixed_asserts pal m addr len flags vs \<longleftrightarrow>
     has_flag flags (MAP_FIXED OR MAP_FIXED_NOREPLACE) \<and>
     (if len = 0 \<or> \<not> is_alloc_aligned pal len \<or> \<not> is_alloc_aligned pal addr then True
      else
        (let (new_ok, m1) = malloc m in
         if \<not> new_ok then True
         else
           (let (vma1, m2) = malloc m1 in
            if has_flag flags MAP_FIXED_NOREPLACE then True
            else vma_bkeep_remove_asserts pal addr (addr + len) (has_flag flags VMA_INTERNAL) vma1 vs)))"

section \<open>Changing the protection\<close>

text \<open>The loop over the areas in the range, and the split of the last one.\<close>

fun change_loop_asserts :: "u64 \<Rightarrow> libos_vma list \<Rightarrow> bool" where
  "change_loop_asserts e [] = True"
| "change_loop_asserts e (v # vs) =
     (if end_addr v \<le> e then (if vs = [] then end_addr v = e else change_loop_asserts e vs)
      else if e \<le> begin_addr v then True
      else split_vma_asserts v e)"

definition vma_bkeep_change_asserts ::
    "pal_public_state \<Rightarrow> handles \<Rightarrow> u64 \<Rightarrow> u64 \<Rightarrow> u32 \<Rightarrow> bool \<Rightarrow> libos_vma list \<Rightarrow> bool" where
  "vma_bkeep_change_asserts pal hs b e prot is_internal vs \<longleftrightarrow>
     is_alloc_aligned pal b \<and> is_alloc_aligned pal e \<and> b < e \<and>
     (case vmas_from b vs of
        [] \<Rightarrow> True
      | v # rest \<Rightarrow>
          if b < begin_addr v then True
          else
            (case change_check hs prot is_internal e (v # rest) True of
               Some err \<Rightarrow> True
             | None \<Rightarrow>
                 if begin_addr v < b \<and> \<not> has_flag prot PROT_GROWSDOWN then
                   split_vma_asserts v b \<and>
                   (let new1 = vma_update_prot (split_vma v b) prot in
                    if e < end_addr new1 then split_vma_asserts new1 e
                    else rest \<noteq> [] \<and> change_loop_asserts e rest)
                 else change_loop_asserts e (v # rest)))"

definition bkeep_mprotect_asserts ::
    "pal_public_state \<Rightarrow> handles \<Rightarrow> mem \<Rightarrow> u64 \<Rightarrow> u64 \<Rightarrow> u32 \<Rightarrow> bool \<Rightarrow> libos_vma list \<Rightarrow> bool" where
  "bkeep_mprotect_asserts pal hs m addr len prot is_internal vs \<longleftrightarrow>
     (if len = 0 \<or> \<not> is_alloc_aligned pal len \<or> \<not> is_alloc_aligned pal addr then True
      else
        (let (vma1, m1) = malloc m in
         if \<not> vma1 then True
         else
           (let (vma2, m2) = malloc m1 in
            if \<not> vma2 then True
            else vma_bkeep_change_asserts pal hs addr (addr + len) prot is_internal vs)))"

section \<open>Mapping anywhere in a range\<close>

text \<open>The loop of the search: an area that is looked at ends below the limit reached so far.\<close>

fun find_gap_asserts :: "u64 \<Rightarrow> u64 \<Rightarrow> u64 \<Rightarrow> libos_vma list \<Rightarrow> bool" where
  "find_gap_asserts bottom len max_addr [] = True"
| "find_gap_asserts bottom len max_addr (v # vs) =
     (if bottom \<le> end_addr v then
        end_addr v \<le> max_addr \<and>
        (if len \<le> max_addr - end_addr v then True else find_gap_asserts bottom len (begin_addr v) vs)
      else True)"

text \<open>The range given lies in one of the two ranges of the PAL.\<close>

definition in_pal_range :: "pal_public_state \<Rightarrow> u64 \<Rightarrow> u64 \<Rightarrow> bool" where
  "in_pal_range pal bottom0 top0 \<longleftrightarrow>
     memory_address_start pal \<le> bottom0 \<and> top0 \<le> memory_address_end pal \<or>
     shared_address_start pal \<le> bottom0 \<and> top0 \<le> shared_address_end pal"

text \<open>The range left for an early internal allocation is not empty.\<close>

definition clip_range_asserts :: "pal_public_state \<Rightarrow> u32 \<Rightarrow> u64 \<Rightarrow> u64 \<Rightarrow> bool" where
  "clip_range_asserts pal flags bottom top_addr \<longleftrightarrow>
     (if \<not> received_user_memory pal \<and> has_flag flags VMA_INTERNAL then
        (if top_addr \<le> early_libos_mem_range_start pal \<or> early_libos_mem_range_end pal \<le> bottom then True
         else max bottom (early_libos_mem_range_start pal) < min top_addr (early_libos_mem_range_end pal))
      else True)"

definition mmap_any_in_range_asserts ::
    "pal_public_state \<Rightarrow> mem \<Rightarrow> u64 \<Rightarrow> u64 \<Rightarrow> u64 \<Rightarrow> u32 \<Rightarrow> libos_vma list \<Rightarrow> bool" where
  "mmap_any_in_range_asserts pal m bottom0 top0 len flags vs \<longleftrightarrow>
     bottom0 < top0 \<and> in_pal_range pal bottom0 top0 \<and>
     (if len = 0 \<or> \<not> is_alloc_aligned pal len then True
      else if \<not> is_alloc_aligned pal bottom0 \<or> \<not> is_alloc_aligned pal top0 then True
      else
        clip_range_asserts pal flags bottom0 top0 \<and>
        (case clip_range pal flags bottom0 top0 of
           None \<Rightarrow> True
         | Some (bottom, top_addr) \<Rightarrow>
             (let (ok, m1) = malloc m in
              if \<not> ok then True
              else
                (let max_addr = (case lookup_vma_node top_addr vs of
                                   None \<Rightarrow> top_addr
                                 | Some v \<Rightarrow> min top_addr (begin_addr v));
                     below = rev (vmas_below top_addr vs)
                 in (case below of [] \<Rightarrow> True | v # _ \<Rightarrow> end_addr v \<le> max_addr) \<and>
                    find_gap_asserts bottom len max_addr below))))"

definition vma_malloc_asserts ::
    "pal_public_state \<Rightarrow> handles \<Rightarrow> mem \<Rightarrow> errno option \<Rightarrow> u64 \<Rightarrow> vma_state \<Rightarrow> bool" where
  "vma_malloc_asserts pal hs m pal_ret sz0 st \<longleftrightarrow>
     (let sz = alloc_align_up pal sz0; flags = MAP_PRIVATE OR MAP_ANONYMOUS OR VMA_INTERNAL in
      mmap_any_in_range_asserts pal m (memory_address_start pal) (memory_address_end pal) sz flags (vma_tree st) \<and>
      (case bkeep_mmap_any pal hs m sz (PROT_READ OR PROT_WRITE) flags None 0 ''vma'' st of
         (m1, Inl _, st1) \<Rightarrow> True
       | (m1, Inr addr, st1) \<Rightarrow>
           pal_ret = None \<or> vma_bkeep_remove_asserts pal addr (addr + sz) True False (vma_tree st1)))"

section \<open>Calls\<close>

text \<open>
  A call of an operation with its arguments; what its callers promise; the state after it;
  and all its assertions.
\<close>

datatype vma_call =
    Initial_Vma libos_vma
  | Munmap mem u64 u64 bool
  | Remove_Tmp_Vma u64
  | Convert_Tmp_Vma u64
  | Mmap_Fixed mem u64 u64 u32 u32 "nat option" u64 string
  | Mmap_Any_In_Range mem u64 u64 u64 u32 u32 "nat option" u64 string
  | Mprotect mem u64 u64 u32 bool
  | Vma_Malloc mem "errno option" u64

definition file_given :: "u32 \<Rightarrow> nat option \<Rightarrow> bool" where
  "file_given flags f \<longleftrightarrow>
     has_flag flags (VMA_UNMAPPED OR VMA_INTERNAL OR MAP_ANONYMOUS OR MAP_PRIVATE) \<or> f \<noteq> None"

fun call_contract :: "pal_public_state \<Rightarrow> vma_call \<Rightarrow> vma_state \<Rightarrow> bool" where
  "call_contract pal (Initial_Vma v) st \<longleftrightarrow> begin_addr v < end_addr v \<and> vfile v = None \<and> is_internal_vma v \<and>
     is_alloc_aligned pal (begin_addr v) \<and> is_alloc_aligned pal (end_addr v)"
| "call_contract pal (Munmap m addr len intl) st \<longleftrightarrow> addr < addr + len"
| "call_contract pal (Remove_Tmp_Vma ptr) st \<longleftrightarrow>
     (\<exists>v \<in> set (vma_tree st). begin_addr v = ptr \<and> vflags v = (VMA_INTERNAL OR VMA_UNMAPPED))"
| "call_contract pal (Convert_Tmp_Vma ptr) st \<longleftrightarrow>
     (\<exists>v \<in> set (vma_tree st). begin_addr v = ptr \<and> vflags v = (VMA_INTERNAL OR VMA_UNMAPPED))"
| "call_contract pal (Mmap_Fixed m addr len prot flags f offset comment) st \<longleftrightarrow>
     addr < addr + len \<and> has_flag flags (MAP_FIXED OR MAP_FIXED_NOREPLACE) \<and> file_given flags f"
| "call_contract pal (Mmap_Any_In_Range m bottom0 top0 len prot flags f offset comment) st \<longleftrightarrow>
     bottom0 < top0 \<and> in_pal_range pal bottom0 top0 \<and> file_given flags f"
| "call_contract pal (Mprotect m addr len prot intl) st \<longleftrightarrow> addr < addr + len"
| "call_contract pal (Vma_Malloc m pal_ret sz) st \<longleftrightarrow> True"

fun run_call :: "pal_public_state \<Rightarrow> handles \<Rightarrow> vma_call \<Rightarrow> vma_state \<Rightarrow> vma_state" where
  "run_call pal hs (Initial_Vma v) st = snd (bkeep_initial_vma v st)"
| "run_call pal hs (Munmap m addr len intl) st = snd (snd (bkeep_munmap pal hs m addr len intl st))"
| "run_call pal hs (Remove_Tmp_Vma ptr) st = bkeep_remove_tmp_vma hs ptr st"
| "run_call pal hs (Convert_Tmp_Vma ptr) st = bkeep_convert_tmp_vma_to_user ptr st"
| "run_call pal hs (Mmap_Fixed m addr len prot flags f offset comment) st =
     snd (snd (bkeep_mmap_fixed pal hs m addr len prot flags f offset comment st))"
| "run_call pal hs (Mmap_Any_In_Range m bottom0 top0 len prot flags f offset comment) st =
     snd (snd (bkeep_mmap_any_in_range pal hs m bottom0 top0 len prot flags f offset comment st))"
| "run_call pal hs (Mprotect m addr len prot intl) st = snd (snd (bkeep_mprotect pal hs m addr len prot intl st))"
| "run_call pal hs (Vma_Malloc m pal_ret sz) st = snd (snd (vma_malloc pal hs m pal_ret sz st))"

fun way_asserts :: "pal_public_state \<Rightarrow> handles \<Rightarrow> vma_call \<Rightarrow> vma_state \<Rightarrow> bool" where
  "way_asserts pal hs (Initial_Vma v) st = True"
| "way_asserts pal hs (Munmap m addr len intl) st = bkeep_munmap_asserts pal m addr len intl (vma_tree st)"
| "way_asserts pal hs (Remove_Tmp_Vma ptr) st = True"
| "way_asserts pal hs (Convert_Tmp_Vma ptr) st = True"
| "way_asserts pal hs (Mmap_Fixed m addr len prot flags f offset comment) st =
     bkeep_mmap_fixed_asserts pal m addr len flags (vma_tree st)"
| "way_asserts pal hs (Mmap_Any_In_Range m bottom0 top0 len prot flags f offset comment) st =
     mmap_any_in_range_asserts pal m bottom0 top0 len flags (vma_tree st)"
| "way_asserts pal hs (Mprotect m addr len prot intl) st =
     bkeep_mprotect_asserts pal hs m addr len prot intl (vma_tree st)"
| "way_asserts pal hs (Vma_Malloc m pal_ret sz) st = vma_malloc_asserts pal hs m pal_ret sz st"

definition call_asserts :: "pal_public_state \<Rightarrow> handles \<Rightarrow> vma_call \<Rightarrow> vma_state \<Rightarrow> bool" where
  "call_asserts pal hs c st \<longleftrightarrow> way_asserts pal hs c st \<and> asserts_hold (run_call pal hs c st)"

text \<open>Any number of calls that keep their contracts, from an empty tree on, none of which fails an assertion.\<close>

inductive vma_history :: "pal_public_state \<Rightarrow> handles \<Rightarrow> vma_state \<Rightarrow> bool" for pal hs where
  empty: "vma_tree st = [] \<Longrightarrow> g_total_memory_size st = 0 \<Longrightarrow> (\<And>h. handle_refs st h = 0) \<Longrightarrow>
    (\<And>i. num_mmapped st i = 0) \<Longrightarrow> asserts_hold st \<Longrightarrow> vma_history pal hs st"
| call: "vma_history pal hs st \<Longrightarrow> call_contract pal c st \<Longrightarrow> call_asserts pal hs c st \<Longrightarrow>
    vma_history pal hs (run_call pal hs c st)"

text \<open>What the code relies on of the PAL: the allocation alignment is a power of two and at most 2 GB,
  and the ranges it announces are not empty, the early one aligned.\<close>

definition pal_sane :: "pal_public_state \<Rightarrow> bool" where
  "pal_sane pal \<longleftrightarrow> alloc_align pal \<in> (\<lambda>k. 2 ^ k) ` {..31} \<and>
     memory_address_start pal < memory_address_end pal \<and>
     early_libos_mem_range_start pal < early_libos_mem_range_end pal \<and>
     is_alloc_aligned pal (early_libos_mem_range_start pal) \<and> is_alloc_aligned pal (early_libos_mem_range_end pal)"

text \<open>The one assertion that can fail: the range lies in the highest area, does not begin at
  its beginning and ends at its end.\<close>

definition ends_at_top :: "u64 \<Rightarrow> u64 \<Rightarrow> u32 \<Rightarrow> libos_vma list \<Rightarrow> bool" where
  "ends_at_top b e prot vs \<longleftrightarrow> vs \<noteq> [] \<and> \<not> has_flag prot PROT_GROWSDOWN \<and>
     begin_addr (last vs) < b \<and> end_addr (last vs) = e"

section \<open>What the assertions rely on\<close>

lemma sane_aligned:
  assumes "pal_sane pal"
  shows "is_alloc_aligned pal x \<Longrightarrow> is_alloc_aligned pal y \<Longrightarrow> is_alloc_aligned pal (x - y)"
    "is_alloc_aligned pal x \<Longrightarrow> is_alloc_aligned pal y \<Longrightarrow> is_alloc_aligned pal (x + y)"
    "is_alloc_aligned pal 0x80000000" "is_alloc_aligned pal (alloc_align_up pal x)"
proof -
  obtain k where k: "alloc_align pal = 2 ^ k" "k \<le> 31" using assms by (auto simp: pal_sane_def)
  note bit = aligned_take_bit(1) [OF k(1)]
  show sub: "is_alloc_aligned pal (x - y)" if "is_alloc_aligned pal x" "is_alloc_aligned pal y" for x y
    using that take_bit_sub_zero unfolding bit by blast
  show "is_alloc_aligned pal (x + y)" if "is_alloc_aligned pal x" "is_alloc_aligned pal y"
    using sub [OF that(1) sub [of 0 y]] that(2) by (simp add: is_alloc_aligned_def)
  have "take_bit k (push_bit 31 1 :: u64) = push_bit 31 (take_bit (k - 31) 1)" by (rule take_bit_push_bit)
  moreover have "push_bit 31 1 = (0x80000000 :: u64)" by (simp add: push_bit_eq_mult)
  ultimately show "is_alloc_aligned pal 0x80000000" using k(2) unfolding bit by simp
  show "is_alloc_aligned pal (alloc_align_up pal x)"
    unfolding alloc_align_up_def by (rule align_down_props(1) [OF k(1)])
qed

text \<open>What the assertions rely on of each area: it is aligned, and has a file unless its flags say otherwise.\<close>

definition areas_ok :: "pal_public_state \<Rightarrow> libos_vma list \<Rightarrow> bool" where
  "areas_ok pal vs \<longleftrightarrow>
     (\<forall>v \<in> set vs. is_alloc_aligned pal (begin_addr v) \<and> is_alloc_aligned pal (end_addr v) \<and> vma_filter_asserts v)"

lemma has_flag_or:
  "has_flag (f OR g) m \<longleftrightarrow> has_flag f m \<or> has_flag g m" "has_flag f (m OR n) \<longleftrightarrow> has_flag f m \<or> has_flag f n"
  by (simp_all add: has_flag_def word_ao_dist word_ao_dist2 or_eq_0_iff)

lemma vma_filter_asserts_update [simp]:
  "vma_filter_asserts (v\<lparr>begin_addr := a\<rparr>) = vma_filter_asserts v"
  "vma_filter_asserts (v\<lparr>end_addr := a\<rparr>) = vma_filter_asserts v"
  "vma_filter_asserts (v\<lparr>voffset := a\<rparr>) = vma_filter_asserts v"
  "vma_filter_asserts (split_vma v a) = vma_filter_asserts v"
  "vma_filter_asserts v \<Longrightarrow> vma_filter_asserts (vma_update_prot v prot)"
  "vma_filter_asserts (unmapped_vma b e)"
proof -
  show "vma_filter_asserts v \<Longrightarrow> vma_filter_asserts (vma_update_prot v prot)"
    by (auto simp: vma_filter_asserts_def vma_update_prot_def has_flag_or(1))
  show "vma_filter_asserts (unmapped_vma b e)" by code_simp
qed (simp_all add: vma_filter_asserts_def split_vma_def)

lemma file_given_new:
  assumes "file_given flags f"
  shows "vma_filter_asserts (fixed_vma b e prot flags f offset comment)"
proof -
  let ?m = "VMA_UNMAPPED OR VMA_INTERNAL OR MAP_ANONYMOUS OR MAP_PRIVATE"
  have "filter_saved_flags flags AND ?m = flags AND ?m"
    unfolding filter_saved_flags_def word_bw_assocs by code_simp
  then have "has_flag (filter_saved_flags flags) ?m = has_flag flags ?m" by (simp add: has_flag_def)
  then show ?thesis using assms
    by (auto simp: vma_filter_asserts_def fixed_vma_def new_vma_flags_def file_given_def has_flag_or(1))
qed

lemma areas_ok_simps [simp]:
  "areas_ok pal []"
  "areas_ok pal (v # vs) \<longleftrightarrow>
     (is_alloc_aligned pal (begin_addr v) \<and> is_alloc_aligned pal (end_addr v) \<and> vma_filter_asserts v) \<and>
     areas_ok pal vs"
  "areas_ok pal (us @ vs) \<longleftrightarrow> areas_ok pal us \<and> areas_ok pal vs"
  "areas_ok pal (vma_insert v vs) \<longleftrightarrow> areas_ok pal (v # vs)"
  by (auto simp: areas_ok_def)

lemma areas_ok_split:
  "areas_ok pal vs \<longleftrightarrow> areas_ok pal (vmas_below a vs) \<and> areas_ok pal (vmas_from a vs)"
  by (metis areas_ok_simps(3) vmas_split)

lemma remove_loop_aligned:
  "remove_loop e vs = (freed, sizes, kept) \<Longrightarrow> is_alloc_aligned pal e \<Longrightarrow> areas_ok pal vs \<Longrightarrow>
   areas_ok pal kept"
  by (induction vs arbitrary: freed sizes kept) (auto split: if_splits prod.splits)

lemma remove_aligned:
  assumes "vma_bkeep_remove hs b e intl new st = (ret, used, freed, st')"
    and "is_alloc_aligned pal b" "is_alloc_aligned pal e" "areas_ok pal (vma_tree st)"
  shows "areas_ok pal (vma_tree st')"
proof (cases "vmas_from b (vma_tree st)")
  case Nil
  then show ?thesis using assms(1,4) by (simp add: vma_bkeep_remove_def)
next
  case (Cons v rest)
  have al: "areas_ok pal (vmas_below b (vma_tree st))" "areas_ok pal (v # rest)"
    using assms(4) areas_ok_split [of pal "vma_tree st" b] Cons by simp_all
  obtain f1 s1 k1 f2 s2 k2 where loops: "remove_loop e rest = (f1, s1, k1)" "remove_loop e (v # rest) = (f2, s2, k2)"
    by (metis prod_cases3)
  note kept = remove_loop_aligned [OF loops(1) assms(3)] remove_loop_aligned [OF loops(2) assms(3) al(2)]
  show ?thesis
    using assms al kept unfolding vma_bkeep_remove_def Cons list.case loops prod.case
    by (auto split: if_splits)
qed

lemma munmap_aligned:
  assumes "bkeep_munmap pal hs m addr len intl st = (m', r, st')" "pal_sane pal" "areas_ok pal (vma_tree st)"
  shows "areas_ok pal (vma_tree st')"
proof (cases r)
  case (Inl err)
  then show ?thesis using munmap_error assms by blast
next
  case (Inr ptr)
  from assms(1) [unfolded Inr] have al: "is_alloc_aligned pal addr" "is_alloc_aligned pal (addr + len)"
    using sane_aligned(2) [OF assms(2)] by (auto simp: bkeep_munmap_def split: if_splits)
  from assms(1) [unfolded Inr] show ?thesis
  proof (cases rule: munmap_ok_cases)
    case (1 used freed new st1)
    then show ?thesis using remove_aligned [OF 1(3) al assms(3)] al by (simp add: add_unmapped_vma_def)
  qed
qed

lemma make_room_aligned:
  assumes "make_room hs b e flags vma1 st = (ret, freed, st')"
    and "is_alloc_aligned pal b" "is_alloc_aligned pal e" "areas_ok pal (vma_tree st)"
  shows "areas_ok pal (vma_tree st')"
  using assms remove_aligned [OF _ assms(2-4)]
  by (auto simp: make_room_def split: if_splits option.splits prod.splits)

lemma mmap_fixed_aligned:
  assumes "bkeep_mmap_fixed pal hs m addr len prot flags f offset comment st = (m', r, st')" "pal_sane pal"
    and "areas_ok pal (vma_tree st)" "file_given flags f"
  shows "areas_ok pal (vma_tree st')"
  using assms(1)
proof (cases rule: mmap_fixed_cases)
  case (ok vma1 freed st2)
  have al: "is_alloc_aligned pal addr" "is_alloc_aligned pal (addr + len)"
    using assms(1) ok(1) sane_aligned(2) [OF assms(2)] by (auto simp: bkeep_mmap_fixed_def split: if_splits)
  from make_room_aligned [OF ok(2) al] assms(3) ok(3) al file_given_new [OF assms(4)] show ?thesis by simp
qed (use assms(3) in simp_all)

lemma find_gap_aligned:
  "find_gap bottom len max_addr vs = Some e \<Longrightarrow> is_alloc_aligned pal max_addr \<Longrightarrow> areas_ok pal vs \<Longrightarrow>
   is_alloc_aligned pal e"
  by (induction vs arbitrary: max_addr) (auto split: if_splits)

lemma clip_range_aligned:
  assumes "clip_range pal flags bottom0 top0 = Some (bottom, top_addr)" "pal_sane pal" "is_alloc_aligned pal top0"
  shows "is_alloc_aligned pal top_addr"
  using assms sane_aligned(3) [OF assms(2)]
  by (auto simp: clip_range_def pal_sane_def Let_def min_def split: if_splits)

lemma upper_limit_aligned:
  assumes "is_alloc_aligned pal top_addr" "areas_ok pal vs"
  shows "is_alloc_aligned pal (upper_limit top_addr vs)"
  using assms areas_ok_split [of pal vs top_addr]
  by (cases "vmas_from top_addr vs") (auto simp: upper_limit_def lookup_vma_node_def min_def)

lemma mmap_any_aligned:
  assumes "bkeep_mmap_any_in_range pal hs m bottom0 top0 len prot flags f offset comment st = (m', r, st')"
    and "pal_sane pal" "areas_ok pal (vma_tree st)" "file_given flags f"
  shows "areas_ok pal (vma_tree st')" "r = Inr addr \<Longrightarrow> is_alloc_aligned pal addr"
proof -
  have "areas_ok pal (vma_tree st') \<and> (\<forall>addr. r = Inr addr \<longrightarrow> is_alloc_aligned pal addr)"
    using assms(1)
  proof (cases rule: mmap_any_cases)
    case (ok bottom top_addr e)
    have al: "is_alloc_aligned pal len" "is_alloc_aligned pal top0"
      using assms(1) ok(1) by (auto simp: bkeep_mmap_any_in_range_def split: if_splits)
    have "areas_ok pal (rev (vmas_below top_addr (vma_tree st)))"
      using assms(3) areas_ok_split [of pal "vma_tree st" top_addr] by (simp add: areas_ok_def)
    from find_gap_aligned [OF ok(4) upper_limit_aligned [OF clip_range_aligned [OF ok(3) assms(2) al(2)] assms(3)] this]
    have e: "is_alloc_aligned pal e" .
    have "is_alloc_aligned pal (e - len)" by (rule sane_aligned(1) [OF assms(2) e al(1)])
    then show ?thesis using ok e assms(3) file_given_new [OF assms(4)] by simp
  qed (use assms(3) in simp_all)
  then show "areas_ok pal (vma_tree st')" "r = Inr addr \<Longrightarrow> is_alloc_aligned pal addr" by auto
qed

lemma vma_malloc_aligned:
  assumes "vma_malloc pal hs m pal_ret sz st = (m', r, st')" "pal_sane pal" "areas_ok pal (vma_tree st)"
  shows "areas_ok pal (vma_tree st')"
proof -
  let ?sz = "alloc_align_up pal sz" and ?fl = "MAP_PRIVATE OR MAP_ANONYMOUS OR VMA_INTERNAL"
  obtain m1 r1 st1 where any: "bkeep_mmap_any pal hs m ?sz (PROT_READ OR PROT_WRITE) ?fl None 0 ''vma'' st = (m1, r1, st1)"
    by (metis prod_cases3)
  have "file_given ?fl None" by code_simp
  note al = mmap_any_aligned [OF any [unfolded bkeep_mmap_any_def] assms(2,3) this]
  show ?thesis
  proof (cases r1)
    case (Inr addr)
    obtain ret used freed st2 where rem: "vma_bkeep_remove hs addr (addr + ?sz) True False st1 = (ret, used, freed, st2)"
      by (metis prod_cases4)
    have "is_alloc_aligned pal (addr + ?sz)" by (rule sane_aligned(2) [OF assms(2) al(2) [OF Inr] sane_aligned(4) [OF assms(2)]])
    from remove_aligned [OF rem al(2) [OF Inr] this al(1)] assms(1) any Inr rem al(1) show ?thesis
      by (auto simp: vma_malloc_def vma_assert_def split: option.splits)
  qed (use assms(1) any al(1) in \<open>simp add: vma_malloc_def\<close>)
qed

lemma change_list_aligned:
  "is_alloc_aligned pal e \<Longrightarrow> areas_ok pal vs \<Longrightarrow> areas_ok pal (change_list prot e vs)"
  by (induction vs) auto

lemma change_aligned:
  assumes "vma_bkeep_change hs b e prot intl st = (r, st')" "vmas_wf (vma_tree st)" "b < e"
    and al: "is_alloc_aligned pal b" "is_alloc_aligned pal e" "areas_ok pal (vma_tree st)"
  shows "areas_ok pal (vma_tree st')"
proof (cases r)
  case (Some err)
  then show ?thesis using change_error assms by blast
next
  case None
  note change = assms(1) [unfolded None]
  show ?thesis using change assms(2,3)
  proof (cases rule: change_ok_cases)
    case (whole us v rest)
    then show ?thesis using al change_list_aligned [OF al(2), of "v # rest" prot] by (simp del: change_list.simps)
  next
    case (tail us v rest)
    then show ?thesis using al change_list_aligned [OF al(2), of rest prot] by simp
  next
    case (middle us v rest)
    then show ?thesis using al by simp
  qed
qed

section \<open>Histories\<close>

lemma call_step:
  assumes "asserts_hold st" "call_contract pal c st"
  shows "vma_step pal hs st (run_call pal hs c st)"
proof (cases c)
  case (Initial_Vma v)
  then show ?thesis using assms vma_step.initial [of st v] by (cases "bkeep_initial_vma v st") simp
next
  case (Munmap m addr len intl)
  then show ?thesis using assms vma_step.munmap [of st addr len pal hs m intl]
    by (cases "bkeep_munmap pal hs m addr len intl st") simp
next
  case (Mmap_Fixed m addr len prot flags f offset comment)
  then show ?thesis using assms vma_step.mmap_fixed [of st addr len pal hs m prot flags f offset comment]
    by (cases "bkeep_mmap_fixed pal hs m addr len prot flags f offset comment st") simp
next
  case (Mmap_Any_In_Range m bottom0 top0 len prot flags f offset comment)
  then show ?thesis using assms vma_step.mmap_any [of st pal hs m bottom0 top0 len prot flags f offset comment]
    by (cases "bkeep_mmap_any_in_range pal hs m bottom0 top0 len prot flags f offset comment st") simp
next
  case (Mprotect m addr len prot intl)
  then show ?thesis using assms vma_step.mprotect [of st addr len pal hs m prot intl]
    by (cases "bkeep_mprotect pal hs m addr len prot intl st") simp
next
  case (Vma_Malloc m pal_ret sz)
  then show ?thesis using assms vma_step.malloc [of st pal hs m pal_ret sz]
    by (cases "vma_malloc pal hs m pal_ret sz st") simp
qed (use assms in \<open>auto intro: vma_step.intros\<close>)

lemma tmp_aligned:
  assumes "areas_ok pal (vma_tree st)" "vmas_wf (vma_tree st)"
    and "v \<in> set (vma_tree st)" "begin_addr v = ptr" "vflags v = (VMA_INTERNAL OR VMA_UNMAPPED)"
  shows "areas_ok pal (vma_tree (bkeep_remove_tmp_vma hs ptr st))"
    "areas_ok pal (vma_tree (bkeep_convert_tmp_vma_to_user ptr st))"
proof -
  have only: "u = v" if "u \<in> set (vma_tree st)" "begin_addr u = ptr" for u
    using that vma_node_at_unique [OF assms(2) that] vma_node_at_unique [OF assms(2-4)] by simp
  have "has_flag ((VMA_INTERNAL OR VMA_UNMAPPED) AND NOT VMA_INTERNAL)
      (VMA_UNMAPPED OR VMA_INTERNAL OR MAP_ANONYMOUS OR MAP_PRIVATE)" by code_simp
  then have "vma_filter_asserts (v\<lparr>vflags := vflags v AND NOT VMA_INTERNAL\<rparr>)"
    using assms(5) by (simp add: vma_filter_asserts_def)
  then show "areas_ok pal (vma_tree (bkeep_convert_tmp_vma_to_user ptr st))"
    using assms(1) only
    by (auto simp: bkeep_convert_tmp_vma_to_user_def areas_ok_def vma_assert_def split: option.splits)
  show "areas_ok pal (vma_tree (bkeep_remove_tmp_vma hs ptr st))"
    using assms(1) set_remove1_subset [of _ "vma_tree st"]
    by (auto simp: bkeep_remove_tmp_vma_def areas_ok_def vma_assert_def split: option.splits)
qed

lemma call_aligned:
  assumes "pal_sane pal" "vma_inv hs st" "call_contract pal c st" "areas_ok pal (vma_tree st)"
  shows "areas_ok pal (vma_tree (run_call pal hs c st))"
proof (cases c)
  case (Initial_Vma v)
  obtain r st' where r: "bkeep_initial_vma v st = (r, st')" by fastforce
  have "vma_filter_asserts v" using Initial_Vma assms(3)
    by (simp add: vma_filter_asserts_def is_internal_vma_def has_flag_or(2))
  with r show ?thesis using Initial_Vma assms
    by (auto simp: bkeep_initial_vma_def split: option.splits if_splits)
next
  case (Munmap m addr len intl)
  then show ?thesis using munmap_aligned [OF _ assms(1,4)] by (metis run_call.simps(2) prod.collapse)
next
  case (Mmap_Fixed m addr len prot flags f offset comment)
  then show ?thesis using mmap_fixed_aligned [OF _ assms(1,4)] assms(3) call_contract.simps(5) by (metis run_call.simps(5) prod.collapse)
next
  case (Mmap_Any_In_Range m bottom0 top0 len prot flags f offset comment)
  then show ?thesis using mmap_any_aligned(1) [OF _ assms(1,4)] assms(3) call_contract.simps(6) by (metis run_call.simps(6) prod.collapse)
next
  case (Mprotect m addr len prot intl)
  obtain m' r st' where r: "bkeep_mprotect pal hs m addr len prot intl st = (m', r, st')" by (metis prod_cases3)
  from r show ?thesis
  proof (cases rule: mprotect_change)
    case change
    show ?thesis
    proof (cases "is_alloc_aligned pal addr \<and> is_alloc_aligned pal len")
      case True
      then show ?thesis
        using change_aligned [OF change vma_inv_wf [OF assms(2)] _ _ _ assms(4)] sane_aligned(2) [OF assms(1)]
          Mprotect r assms(3) by simp
    qed (use Mprotect r assms(4) in \<open>auto simp: bkeep_mprotect_def\<close>)
  qed (use Mprotect r assms(4) in simp)
next
  case (Vma_Malloc m pal_ret sz)
  then show ?thesis using vma_malloc_aligned [OF _ assms(1,4)] by (metis run_call.simps(8) prod.collapse)
qed (use tmp_aligned [OF assms(4) vma_inv_wf [OF assms(2)]] assms(3) in auto)

lemma vma_history_inv:
  assumes "vma_history pal hs st" "pal_sane pal"
  shows "vma_inv hs st" "areas_ok pal (vma_tree st)"
proof -
  have "vma_reachable pal hs st \<and> asserts_hold st \<and> areas_ok pal (vma_tree st)"
    using assms(1)
  proof induction
    case (empty st)
    then show ?case by (auto intro: vma_reachable.start)
  next
    case (call st c)
    have "vma_inv hs st" using call.IH vma_reachable_inv by blast
    with call show ?case
      using call_step [of st pal c hs] call_aligned [OF assms(2), of hs st c] vma_reachable.step
      by (auto simp: call_asserts_def)
  qed
  then show "vma_inv hs st" "areas_ok pal (vma_tree st)" using vma_reachable_inv by blast+
qed

section \<open>The assertions hold\<close>

lemma remove_asserts_hold:
  assumes "is_alloc_aligned pal b" "is_alloc_aligned pal e" "b < e"
  shows "vma_bkeep_remove_asserts pal b e intl new vs"
proof -
  have "split_vma_asserts v e" if "begin_addr v < b" "e < end_addr v" for v
    using that assms(3) by (auto simp: split_vma_asserts_def)
  then show ?thesis using assms(1,2) by (auto simp: vma_bkeep_remove_asserts_def split: list.split)
qed

lemma find_gap_asserts_hold:
  assumes "vmas_wf us" "\<And>u. u \<in> set us \<Longrightarrow> end_addr u \<le> max_addr"
  shows "find_gap_asserts bottom len max_addr (rev us)"
  using assms
proof (induction us arbitrary: max_addr rule: rev_induct)
  case (snoc v us)
  then show ?case by (auto simp: vmas_wf_append)
qed simp

lemma clip_asserts_hold:
  assumes "pal_sane pal" "bottom0 < top0"
  shows "clip_range_asserts pal flags bottom0 top0"
  using assms by (auto simp: clip_range_asserts_def pal_sane_def)

lemma mmap_any_asserts_hold:
  assumes "pal_sane pal" "vmas_wf vs" "bottom0 < top0" "in_pal_range pal bottom0 top0"
  shows "mmap_any_in_range_asserts pal m bottom0 top0 len flags vs"
proof -
  have below: "case rev (vmas_below t vs) of [] \<Rightarrow> True | v # _ \<Rightarrow> end_addr v \<le> upper_limit t vs"
    "find_gap_asserts bottom len (upper_limit t vs) (rev (vmas_below t vs))" for bottom t
    using upper_limit_below [OF assms(2), of _ t]
      find_gap_asserts_hold [OF vmas_wf_split(1) [OF assms(2)], of t "upper_limit t vs"]
    by (auto split: list.split simp: rev_eq_Cons_iff)
  show ?thesis
    unfolding mmap_any_in_range_asserts_def Let_def upper_limit_def [symmetric]
    using assms(3,4) clip_asserts_hold [OF assms(1,3), of flags] below
    by (simp split: option.split prod.split)
qed

lemma change_check_last:
  "change_check hs prot intl e vs c = None \<Longrightarrow> vmas_wf vs \<Longrightarrow> vs \<noteq> [] \<and> e \<le> end_addr (last vs)"
proof (induction vs arbitrary: c)
  case (Cons v vs)
  have "end_addr v \<le> end_addr (last (v # vs))"
    using Cons.prems(2) vmas_wf_ends(2) [of v vs "last vs"] by (cases "vs = []") auto
  with Cons show ?case
    by (cases "vs = []") (auto simp: vmas_wf_Cons split: option.splits if_splits list.splits)
qed simp

lemma change_loop_asserts_hold:
  "vmas_wf vs \<Longrightarrow> vs \<noteq> [] \<Longrightarrow> e \<le> end_addr (last vs) \<Longrightarrow> change_loop_asserts e vs"
  by (induction vs) (auto simp: vmas_wf_Cons split_vma_asserts_def)

text \<open>Only the first of the areas from an address on can begin below it.\<close>

lemma last_begins_below:
  assumes "vmas_wf vs" "vmas_from b vs = v # rest" "begin_addr (last vs) < b"
  shows "rest = []" "last vs = v"
proof -
  have wf: "vmas_wf (v # rest)" "b < end_addr v"
    using vmas_wf_split(2) [OF assms(1), of b] vmas_from_end [OF assms(1), of v b] assms(2) by simp_all
  have l: "last vs = last (v # rest)" using vmas_split [of b vs] assms(2) by (metis last_appendR list.distinct(1))
  show "rest = []"
  proof (rule ccontr)
    assume "rest \<noteq> []"
    then have "end_addr v \<le> begin_addr (last vs)" using vmas_wf_ends(1) [OF wf(1)] l by simp
    with wf(2) assms(3) show False by order
  qed
  then show "last vs = v" using l by simp
qed

lemma change_asserts_exact:
  assumes "vmas_wf vs" "is_alloc_aligned pal b" "is_alloc_aligned pal e" "b < e"
  shows "vma_bkeep_change_asserts pal hs b e prot intl vs \<longleftrightarrow>
    \<not> (ends_at_top b e prot vs \<and> change_denied hs prot intl (last vs) = None)"
proof (cases "vmas_from b vs")
  case Nil
  have "\<not> ends_at_top b e prot vs"
  proof
    assume top: "ends_at_top b e prot vs"
    then have "last vs \<in> set (vmas_below b vs)" using vmas_split [of b vs] Nil by (auto simp: ends_at_top_def)
    then show False using vmas_below_end [of "last vs" b vs] top assms(4) by (auto simp: ends_at_top_def)
  qed
  with assms Nil show ?thesis by (simp add: vma_bkeep_change_asserts_def)
next
  case (Cons v rest)
  have wf: "vmas_wf (v # rest)" "b < end_addr v" "vs \<noteq> []"
    using vmas_wf_split(2) [OF assms(1), of b] vmas_from_end [OF assms(1), of v b] Cons
    by (auto simp: vmas_from_def)
  note below = last_begins_below [OF assms(1) Cons]
  note cond = assms(2-4) vma_bkeep_change_asserts_def Cons
  show ?thesis
  proof (cases "begin_addr v < b \<and> \<not> has_flag prot PROT_GROWSDOWN")
    case False
    have "\<not> ends_at_top b e prot vs" using False below by (auto simp: ends_at_top_def)
    moreover have "change_loop_asserts e (v # rest)" if "change_check hs prot intl e (v # rest) True = None"
      using change_loop_asserts_hold [OF wf(1)] change_check_last [OF that wf(1)] by blast
    ultimately show ?thesis using False
      by (auto simp: cond simp del: change_check.simps change_loop_asserts.simps split: option.split)
  next
    case True
    have top: "ends_at_top b e prot vs \<longleftrightarrow> rest = [] \<and> end_addr v = e"
      using True below wf Cons vmas_split [of b vs] by (auto simp: ends_at_top_def) (metis last_snoc)+
    have loop: "change_loop_asserts e rest" if "change_check hs prot intl e (v # rest) True = None" "rest \<noteq> []"
      using change_loop_asserts_hold [of rest e] change_check_last [OF that(1) wf(1)] that(2) wf(1)
      by (simp add: vmas_wf_Cons)
    have splits: "split_vma_asserts v b" "e < end_addr v \<Longrightarrow> split_vma_asserts (vma_update_prot (split_vma v b) prot) e"
      "end_addr (vma_update_prot (split_vma v b) prot) = end_addr v"
      using True wf(2) assms(4) by (simp_all add: split_vma_asserts_def)
    show ?thesis
    proof (cases "rest = []")
      case last: True
      then have "last vs = v" using Cons vmas_split [of b vs] by (metis last_snoc)
      with True top last splits show ?thesis by (auto simp: cond Let_def split: option.split)
    next
      case False
      with True top loop splits show ?thesis
        by (auto simp: cond Let_def simp del: change_check.simps split: option.split)
    qed
  qed
qed

lemma covered_by_last:
  assumes "vmas_wf (us @ [v])" "begin_addr v < b" "b < e" "covered P b e (us @ [v])"
  shows "e \<le> end_addr v" "P v"
proof -
  have lt: "b \<le> e - 1" "e - 1 < e" using assms(3) by unat_arith+
  then obtain u where u: "u \<in> set (us @ [v])" "is_addr_in_vma (e - 1) u" "P u"
    using assms(4) unfolding covered_def by blast
  have "u = v"
  proof (rule ccontr)
    assume "u \<noteq> v"
    then have "end_addr u \<le> begin_addr v" using u(1) assms(1) by (auto simp: vmas_wf_append)
    with u(2) lt(1) assms(2) show False by (auto simp: is_addr_in_vma_def)
  qed
  then show "P v" using u(3) by simp
  have "e - 1 < end_addr v" using u(2) \<open>u = v\<close> by (simp add: is_addr_in_vma_def)
  then show "e \<le> end_addr v" using lt(2) by unat_arith
qed

lemma change_flag_exact:
  assumes "vma_bkeep_change hs b e prot intl st = (r, st')" "vma_inv hs st" "b < e"
  shows "\<not> asserts_hold st' \<longleftrightarrow>
    ends_at_top b e prot (vma_tree st) \<and> covered (\<lambda>v. change_denied hs prot intl v = None) b e (vma_tree st)"
proof -
  let ?P = "\<lambda>v. change_denied hs prot intl v = None"
  have wf: "vmas_wf (vma_tree st)" "asserts_hold st" using assms(2) by (simp_all add: vma_inv_def)
  have cov: "r = None \<longleftrightarrow> covered ?P b e (vma_tree st)"
    using change_succeeds [OF wf(1) assms(3), of hs prot intl] assms(1) by (simp only: fst_conv)
  show ?thesis
  proof
    assume "\<not> asserts_hold st'"
    then obtain us v where v: "r = None" "\<not> has_flag prot PROT_GROWSDOWN" "vma_tree st = us @ [v]"
      "begin_addr v < b" "end_addr v \<le> e" using change_inv(2) [OF assms] by blast
    from covered_by_last [of us v b e ?P] v wf(1) cov assms(3)
    show "ends_at_top b e prot (vma_tree st) \<and> covered ?P b e (vma_tree st)" by (auto simp: ends_at_top_def)
  next
    assume top: "ends_at_top b e prot (vma_tree st) \<and> covered ?P b e (vma_tree st)"
    then have "vma_bkeep_change hs b e prot intl st = (None, st')" using assms(1) cov by simp
    from change_effect(2) [OF this wf(1) assms(3)] top show "\<not> asserts_hold st'" by (auto simp: ends_at_top_def)
  qed
qed

lemma covered_in_last:
  assumes "ends_at_top b e prot vs" "P (last vs)"
  shows "covered P b e vs"
proof -
  have "is_addr_in_vma a (last vs)" if "b \<le> a" "a < e" for a
    using that assms(1) by (auto simp: ends_at_top_def is_addr_in_vma_def)
  then show ?thesis using assms by (force simp: covered_def ends_at_top_def)
qed

lemma change_flag_last:
  assumes "vma_bkeep_change hs b e prot intl st = (r, st')" "vma_inv hs st" "b < e"
  shows "\<not> asserts_hold st' \<longleftrightarrow>
    ends_at_top b e prot (vma_tree st) \<and> change_denied hs prot intl (last (vma_tree st)) = None"
proof -
  let ?P = "\<lambda>v. change_denied hs prot intl v = None" and ?vs = "vma_tree st"
  have "?P (last ?vs)" if "ends_at_top b e prot ?vs" "covered ?P b e ?vs"
  proof -
    have vs: "?vs = butlast ?vs @ [last ?vs]" using that(1) by (simp add: ends_at_top_def)
    have "vmas_wf (butlast ?vs @ [last ?vs])" "covered ?P b e (butlast ?vs @ [last ?vs])"
      using vma_inv_wf [OF assms(2)] that(2) vs by simp_all
    from covered_by_last(2) [OF this(1) _ assms(3) this(2)] that(1) show ?thesis by (simp add: ends_at_top_def)
  qed
  then show ?thesis using change_flag_exact [OF assms] covered_in_last [of b e prot ?vs ?P] by blast
qed

text \<open>A call other than a change of protection, in a state that satisfies the invariant.\<close>

lemma call_flag:
  assumes "vma_inv hs st" "call_contract pal c st" "\<And>m addr len prot intl. c \<noteq> Mprotect m addr len prot intl"
  shows "asserts_hold (run_call pal hs c st)"
proof -
  have "asserts_hold st" using assms(1) by (simp add: vma_inv_def)
  note step = call_step [OF this assms(2), of hs]
  have "vma_inv hs (run_call pal hs c st)"
  proof (cases c)
    case (Initial_Vma v)
    then show ?thesis using assms initial_vma_ok(1) [of v st _ hs] initial_error [of v st]
      by (cases "bkeep_initial_vma v st"; cases "fst (bkeep_initial_vma v st)") auto
  next
    case (Munmap m addr len intl)
    obtain m' r st' where r: "bkeep_munmap pal hs m addr len intl st = (m', r, st')" by (metis prod_cases3)
    then show ?thesis using assms Munmap munmap_ok(1) [of pal hs m addr len intl st] munmap_error [of pal hs m addr len intl st]
      by (cases r) fastforce+
  next
    case (Mmap_Fixed m addr len prot flags f offset comment)
    obtain m' r st' where r: "bkeep_mmap_fixed pal hs m addr len prot flags f offset comment st = (m', r, st')"
      by (metis prod_cases3)
    then show ?thesis using assms Mmap_Fixed mmap_fixed_ok(1) mmap_fixed_error by (cases r) auto
  next
    case (Mmap_Any_In_Range m bottom0 top0 len prot flags f offset comment)
    obtain m' r st' where r: "bkeep_mmap_any_in_range pal hs m bottom0 top0 len prot flags f offset comment st = (m', r, st')"
      by (metis prod_cases3)
    then show ?thesis using assms Mmap_Any_In_Range mmap_any_ok(1) mmap_any_error by (cases r) auto
  next
    case (Vma_Malloc m pal_ret sz)
    obtain m' r st' where "vma_malloc pal hs m pal_ret sz st = (m', r, st')" by (metis prod_cases3)
    then show ?thesis using Vma_Malloc vma_malloc_ok(1) assms(1) by fastforce
  qed (use assms remove_tmp_ok(1) convert_tmp_ok in auto)
  then show ?thesis by (simp add: vma_inv_def)
qed

lemma vma_malloc_asserts_hold:
  assumes "pal_sane pal" "vma_inv hs st" "areas_ok pal (vma_tree st)"
  shows "vma_malloc_asserts pal hs m pal_ret sz st"
proof -
  let ?sz = "alloc_align_up pal sz" and ?fl = "MAP_PRIVATE OR MAP_ANONYMOUS OR VMA_INTERNAL"
  obtain m1 r1 st1 where any: "bkeep_mmap_any pal hs m ?sz (PROT_READ OR PROT_WRITE) ?fl None 0 ''vma'' st = (m1, r1, st1)"
    by (metis prod_cases3)
  note range = any [unfolded bkeep_mmap_any_def]
  have "vma_bkeep_remove_asserts pal addr (addr + ?sz) True False (vma_tree st1)" if "r1 = Inr addr" for addr
  proof (rule remove_asserts_hold)
    have "file_given ?fl None" by code_simp
    from mmap_any_aligned(2) [OF range assms(1,3) this that] show al: "is_alloc_aligned pal addr" .
    show "is_alloc_aligned pal (addr + ?sz)" by (rule sane_aligned(2) [OF assms(1) al sane_aligned(4) [OF assms(1)]])
    show "addr < addr + ?sz"
      using vmas_wf_area [OF vma_inv_wf [OF mmap_any_ok(1) [OF range [unfolded that] assms(2)]]
          mmap_any_area [OF range [unfolded that]]] by (simp add: fixed_vma_def)
  qed
  moreover have "mmap_any_in_range_asserts pal m (memory_address_start pal) (memory_address_end pal) ?sz ?fl (vma_tree st)"
    using assms(1) by (intro mmap_any_asserts_hold [OF assms(1) vma_inv_wf [OF assms(2)]])
      (simp_all add: pal_sane_def in_pal_range_def)
  ultimately show ?thesis unfolding vma_malloc_asserts_def Let_def any by (simp split: sum.split)
qed

lemma way_asserts_hold:
  assumes "pal_sane pal" "vma_inv hs st" "areas_ok pal (vma_tree st)" "call_contract pal c st"
    and "\<And>m addr len prot intl. c \<noteq> Mprotect m addr len prot intl"
  shows "way_asserts pal hs c st"
proof (cases c)
  case (Munmap m addr len intl)
  then show ?thesis using assms(4) remove_asserts_hold [of pal addr "addr + len"] sane_aligned(2) [OF assms(1)]
    by (auto simp: bkeep_munmap_asserts_def split: prod.split)
next
  case (Mmap_Fixed m addr len prot flags f offset comment)
  then show ?thesis using assms(4) remove_asserts_hold [of pal addr "addr + len"] sane_aligned(2) [OF assms(1)]
    by (auto simp: bkeep_mmap_fixed_asserts_def split: prod.split)
next
  case (Mmap_Any_In_Range m bottom0 top0 len prot flags f offset comment)
  then show ?thesis using mmap_any_asserts_hold [OF assms(1) vma_inv_wf [OF assms(2)]] assms(4) by simp
next
  case (Mprotect m addr len prot intl)
  then show ?thesis using assms(5) by blast
next
  case (Vma_Malloc m pal_ret sz)
  then show ?thesis using vma_malloc_asserts_hold [OF assms(1-3)] by simp
qed simp_all

lemma mprotect_asserts_exact:
  assumes "pal_sane pal" "vma_inv hs st" "addr < addr + len"
  shows "\<not> call_asserts pal hs (Mprotect m addr len prot intl) st \<longleftrightarrow>
    is_alloc_aligned pal addr \<and> is_alloc_aligned pal len \<and> fst (malloc m) \<and> fst (malloc (snd (malloc m))) \<and>
    ends_at_top addr (addr + len) prot (vma_tree st) \<and> change_denied hs prot intl (last (vma_tree st)) = None"
proof -
  obtain m1 b1 m2 b2 where mem: "malloc m = (b1, m1)" "malloc m1 = (b2, m2)" by (metis prod.exhaust)
  obtain r st' where r: "vma_bkeep_change hs addr (addr + len) prot intl st = (r, st')" by fastforce
  have hold: "asserts_hold st" "len \<noteq> 0" using assms(2,3) by (auto simp: vma_inv_def)
  show ?thesis
  proof (cases "is_alloc_aligned pal addr \<and> is_alloc_aligned pal len \<and> b1 \<and> b2")
    case True
    then have al: "is_alloc_aligned pal addr" "is_alloc_aligned pal (addr + len)" using sane_aligned(2) [OF assms(1)] by auto
    show ?thesis
      using change_asserts_exact [OF vma_inv_wf [OF assms(2)] al assms(3), of hs prot intl]
        change_flag_last [OF r assms(2,3)] True mem r hold
      by (auto simp: call_asserts_def bkeep_mprotect_asserts_def bkeep_mprotect_def)
  next
    case False
    then show ?thesis using mem hold by (auto simp: call_asserts_def bkeep_mprotect_asserts_def bkeep_mprotect_def)
  qed
qed

section \<open>The pages after a change of protection\<close>

text \<open>For \<open>PROT_GROWSDOWN\<close> the code pretends that the range begins with its first area.\<close>

definition protect_begin :: "u64 \<Rightarrow> u32 \<Rightarrow> libos_vma list \<Rightarrow> u64" where
  "protect_begin b prot vs =
     (case vmas_from b vs of
        v # _ \<Rightarrow> if has_flag prot PROT_GROWSDOWN \<and> begin_addr v < b then begin_addr v else b
      | [] \<Rightarrow> b)"

lemma change_pages:
  assumes "vma_bkeep_change hs b e prot intl st = (None, st')" "vmas_wf (vma_tree st)" "b < e"
  shows "changed (protect_begin b prot (vma_tree st)) e prot (vma_tree st) (vma_tree st')"
proof (cases "has_flag prot PROT_GROWSDOWN")
  case False
  then have "protect_begin b prot (vma_tree st) = b" by (simp add: protect_begin_def split: list.split)
  with change_effect(1) [OF assms False] show ?thesis by simp
next
  case True
  from assms show ?thesis
  proof (cases rule: change_ok_cases)
    case (whole us v rest)
    have wf: "vmas_wf (us @ v # rest)" "vmas_wf (v # rest)" using assms(2) whole(1) by (simp_all add: vmas_wf_append)
    have "vmas_from b (us @ v # rest) = v # rest"
      using whole(2,4) by (auto simp: vmas_from_def cmp_addr_to_vma_def dropWhile_append3 not_less)
    then have b: "protect_begin b prot (us @ v # rest) = begin_addr v"
      using True whole(3) by (simp add: protect_begin_def)
    show ?thesis unfolding whole(1,6) b
      using wf(1) by (intro changed_prefix [OF changed_whole [OF wf(2) refl] wf(1)]) (auto simp: vmas_wf_append)
  qed (use True in simp_all)
qed

end
