(* ===== verification/Vma_Properties.thy ===== *)
theory Vma_Properties
  imports Vma_Asserts
begin

text \<open>
  What the bookkeeping of the address space guarantees: the properties of the operations of
  \<^verbatim>\<open>libos/src/bookkeep/libos_vma.c\<close>, each with an instance on a small address space.
\<close>

section \<open>A small address space\<close>

definition sample_pal :: pal_public_state where
  "sample_pal =
     \<lparr>alloc_align = 0x1000, memory_address_start = 0x10000, memory_address_end = 0x80000000,
      shared_address_start = 0x90000000, shared_address_end = 0xa0000000,
      early_libos_mem_range_start = 0x10000, early_libos_mem_range_end = 0x20000, mem_total = 0x100000,
      disable_aslr = False, received_user_memory = True\<rparr>"

definition sample_handles :: handles where
  "sample_handles =
     (\<lambda>h. \<lparr>hdl_flags = O_RDWR, hdl_inode = Some h, hdl_acc_mode = MAY_READ OR MAY_WRITE,
            hdl_has_msync = True, hdl_has_read = True, hdl_has_mmap = True\<rparr>)"

definition anon_area :: libos_vma where
  "anon_area =
     \<lparr>begin_addr = 0x30000, end_addr = 0x34000, vprot = PROT_READ, vflags = MAP_PRIVATE OR MAP_ANONYMOUS,
      vfile = None, voffset = 0, vcomment = ''heap''\<rparr>"

definition file_area :: libos_vma where
  "file_area =
     \<lparr>begin_addr = 0x34000, end_addr = 0x38000, vprot = PROT_READ OR PROT_WRITE,
      vflags = MAP_SHARED OR VMA_TAINTED, vfile = Some 7, voffset = 0x5000, vcomment = ''data''\<rparr>"

definition internal_area :: libos_vma where
  "internal_area =
     \<lparr>begin_addr = 0x70000, end_addr = 0x71000, vprot = PROT_READ OR PROT_WRITE,
      vflags = MAP_PRIVATE OR MAP_ANONYMOUS OR VMA_INTERNAL, vfile = None, voffset = 0, vcomment = ''libos''\<rparr>"

lemma inode_count_code [code]:
  "inode_count hs i vs =
     length (filter (\<lambda>v. case vfile v of None \<Rightarrow> False | Some h \<Rightarrow> hdl_inode (hs h) = Some i) vs)"
  unfolding inode_count_def by (rule arg_cong [of _ _ "\<lambda>P. length (filter P vs)"]) (auto split: option.splits)

definition vma_state_of :: "handles \<Rightarrow> libos_vma list \<Rightarrow> vma_state" where
  "vma_state_of hs vs =
     \<lparr>vma_tree = vs, g_total_memory_size = sum_list (map (\<lambda>v. end_addr v - begin_addr v) vs),
      g_peak_total_memory_size = sum_list (map (\<lambda>v. end_addr v - begin_addr v) vs),
      handle_refs = (\<lambda>h. file_count h vs), num_mmapped = (\<lambda>i. inode_count hs i vs), asserts_hold = True\<rparr>"

lemma vma_state_of_tree [simp]: "vma_tree (vma_state_of hs vs) = vs"
  by (simp add: vma_state_of_def)

lemma sum_sizes: "sum_list (map (\<lambda>v. end_addr v - begin_addr v) vs) = of_nat (total_len vs)"
  by (induction vs) (simp_all add: vma_size_def)

lemma vma_state_of_inv: "vmas_wf vs \<Longrightarrow> vma_inv hs (vma_state_of hs vs)"
  using total_len_less [of vs] by (simp add: vma_inv_def vma_state_of_def sum_sizes unat_of_nat)

definition sample_vmas :: "libos_vma list" where
  "sample_vmas = [anon_area, file_area, internal_area]"

lemma sample_vmas_wf: "vmas_wf sample_vmas"
  by (simp add: sample_vmas_def vmas_wf_Cons anon_area_def file_area_def internal_area_def)

lemmas sample_inv = vma_state_of_inv [OF sample_vmas_wf]

section \<open>The invariant\<close>

text \<open>
  C15: In every state that any sequence of operations on the bookkeeping reaches, as long as no assertion
  has failed, the areas are non-empty, sorted and disjoint, the total size is the sum of
  their sizes and at most the peak, and the reference counts of the handles and the mapping
  counts of the inodes are those of the areas.
\<close>

theorem vma_bookkeeping_invariant:
  assumes "vma_reachable pal hs st" "asserts_hold st"
  shows "vma_inv hs st"
  using assms by (rule vma_reachable_inv)

definition start_state :: vma_state where
  "start_state = vma_state_of sample_handles []"

lemma start_reachable: "vma_reachable pal sample_handles start_state"
  by (rule vma_reachable.start) (simp_all add: start_state_def vma_state_of_def total_len_def file_count_def inode_count_def)

definition mapped_state :: vma_state where
  "mapped_state =
     snd (snd (bkeep_mmap_fixed sample_pal sample_handles [] 0x30000 0x2000 PROT_READ
       (MAP_PRIVATE OR MAP_FIXED) (Some 3) 0 ''lib'' start_state))"

lemma mapped_reachable: "vma_reachable sample_pal sample_handles mapped_state"
proof (rule vma_reachable.step [OF start_reachable])
  obtain m' r st' where r: "bkeep_mmap_fixed sample_pal sample_handles [] 0x30000 0x2000 PROT_READ
       (MAP_PRIVATE OR MAP_FIXED) (Some 3) 0 ''lib'' start_state = (m', r, st')" by (metis prod_cases3)
  have "asserts_hold start_state" "(0x30000 :: u64) < 0x30000 + 0x2000" by (simp_all add: start_state_def vma_state_of_def)
  from vma_step.mmap_fixed [OF this r] r show "vma_step sample_pal sample_handles start_state mapped_state"
    by (simp add: mapped_state_def)
qed

theorem vma_bookkeeping_invariant_witness:
  "vma_reachable sample_pal sample_handles mapped_state \<and> vma_inv sample_handles mapped_state \<and>
   vma_tree mapped_state \<noteq> []"
proof -
  have "asserts_hold mapped_state" "vma_tree mapped_state \<noteq> []" by code_simp+
  with vma_bookkeeping_invariant [OF mapped_reachable] mapped_reachable show ?thesis by simp
qed

text \<open>
  C22: Which assertion of the operations on the tree can fail. After any sequence of calls that keep
  the contracts of the operations (\<open>call_contract\<close>: ranges that do not wrap around, a fixed
  mapping with a fixed flag, a search in a range of the PAL, a temporary area for the
  operations on one), a further call that keeps its contract fails an assertion exactly if it
  is a \<open>bkeep_mprotect\<close> that gets past its checks on a range inside the highest area that ends
  with it but does not begin with it: \<open>_vma_bkeep_change\<close> then asserts that there is a following area.
  Moreover every area is aligned and has a file unless it is private, anonymous, internal or unmapped,
  as the filters and loops of \<^verbatim>\<open>msync\<close> and of reloading assert of the areas they look at.
\<close>

theorem vma_assertion_failure:
  assumes "pal_sane pal" "vma_history pal hs st" "call_contract pal c st"
  shows "(\<not> call_asserts pal hs c st \<longleftrightarrow>
    (\<exists>m addr len prot intl. c = Mprotect m addr len prot intl \<and>
       is_alloc_aligned pal addr \<and> is_alloc_aligned pal len \<and> fst (malloc m) \<and> fst (malloc (snd (malloc m))) \<and>
       ends_at_top addr (addr + len) prot (vma_tree st) \<and> change_denied hs prot intl (last (vma_tree st)) = None)) \<and>
    (\<forall>v \<in> set (vma_tree st). is_alloc_aligned pal (begin_addr v) \<and> is_alloc_aligned pal (end_addr v) \<and>
       vma_filter_asserts v)" (is "?exact \<and> ?areas")
proof
  show ?areas using vma_history_inv(2) [OF assms(2,1)] by (simp add: areas_ok_def)
  show ?exact
  proof (cases "\<exists>m addr len prot intl. c = Mprotect m addr len prot intl")
    case True
    then obtain m addr len prot intl where c: "c = Mprotect m addr len prot intl" by blast
    then have "addr < addr + len" using assms(3) by simp
    from mprotect_asserts_exact [OF assms(1) vma_history_inv(1) [OF assms(2,1)] this] c show ?thesis by simp
  next
    case False
    note inv = vma_history_inv [OF assms(2,1)]
    have "call_asserts pal hs c st"
      unfolding call_asserts_def using way_asserts_hold [OF assms(1) inv assms(3)] call_flag [OF inv(1) assms(3)] False
      by blast
    with False show ?thesis by blast
  qed
qed

abbreviation map_lib :: vma_call where
  "map_lib \<equiv> Mmap_Fixed [] 0x30000 0x2000 PROT_READ (MAP_PRIVATE OR MAP_FIXED) (Some 3) 0 ''lib''"

lemma sample_pal_sane: "pal_sane sample_pal"
proof -
  have "(0x1000 :: u64) \<in> (\<lambda>k. 2 ^ k) ` {..31}" by (rule image_eqI [of _ _ 12]) simp_all
  then show ?thesis by (simp add: pal_sane_def sample_pal_def is_alloc_aligned_def)
qed

theorem vma_assertion_failure_witness:
  "\<exists>st. vma_history sample_pal sample_handles st \<and>
     \<not> call_asserts sample_pal sample_handles (Mprotect [] 0x31000 0x1000 PROT_NONE False) st \<and>
     call_asserts sample_pal sample_handles (Munmap [] 0x31000 0x1000 False) st"
proof -
  let ?st = "run_call sample_pal sample_handles map_lib start_state"
  have "call_contract sample_pal map_lib start_state" "call_asserts sample_pal sample_handles map_lib start_state"
    by code_simp+
  then have hist: "vma_history sample_pal sample_handles ?st"
    by (intro vma_history.call vma_history.empty)
      (simp_all add: start_state_def vma_state_of_def total_len_def file_count_def inode_count_def)
  have "call_contract sample_pal (Mprotect [] 0x31000 0x1000 PROT_NONE False) ?st"
    "call_contract sample_pal (Munmap [] 0x31000 0x1000 False) ?st" by simp_all
  note exact = this [THEN vma_assertion_failure [OF sample_pal_sane hist], THEN conjunct1]
  have "is_alloc_aligned sample_pal 0x31000" "is_alloc_aligned sample_pal 0x1000" "fst (malloc [])"
    "fst (malloc (snd (malloc [])))" "ends_at_top 0x31000 (0x31000 + 0x1000) PROT_NONE (vma_tree ?st)"
    "change_denied sample_handles PROT_NONE False (last (vma_tree ?st)) = None" by code_simp+
  then show ?thesis using hist exact by blast
qed

section \<open>The list of areas\<close>

text \<open>
  C21: The list of areas of the model is the AVL tree of the code: on a balanced tree whose nodes in order are
  the areas, insertion with \<open>vma_tree_cmp\<close>, lookup and iteration with \<open>cmp_addr_to_vma\<close> and deletion are the list
  operations, no assertion of the tree fails and the tree stays balanced.
\<close>

theorem vma_tree_is_avl:
  assumes "avl t" "vmas_wf (inorder t)"
  shows "(\<exists>t'. avl_tree_insert vma_tree_cmp v t = Some t' \<and> avl t' \<and> inorder t' = vma_insert v (inorder t)) \<and>
    map_option node_of (avl_tree_lower_bound_fn cmp_addr_to_vma addr t) = lookup_vma_node addr (inorder t) \<and>
    walk avl_tree_next node_of (length (inorder t)) (avl_tree_lower_bound_fn cmp_addr_to_vma addr t) =
      vmas_from addr (inorder t) \<and>
    (\<forall>ptr i. points_at t ptr i \<longrightarrow>
      (\<exists>t'. avl_tree_delete ptr = Some t' \<and> avl t' \<and> inorder t' = remove1 (node_of ptr) (inorder t)))"
proof (intro conjI allI impI)
  show "\<exists>t'. avl_tree_insert vma_tree_cmp v t = Some t' \<and> avl t' \<and> inorder t' = vma_insert v (inorder t)"
    using avl_vma_insert [OF assms] by metis
  show "\<exists>t'. avl_tree_delete ptr = Some t' \<and> avl t' \<and> inorder t' = remove1 (node_of ptr) (inorder t)"
    if "points_at t ptr i" for ptr i
    using avl_vma_delete [OF assms that] by metis
qed (rule avl_vma_lookup [OF assms(2)])+

definition sample_avl :: "libos_vma avl" where
  "sample_avl = Node (Node Tip anon_area 0 Tip) file_area 0 (Node Tip internal_area 0 Tip)"

theorem vma_tree_is_avl_witness:
  "map_option node_of (avl_tree_lower_bound_fn cmp_addr_to_vma 0x35000 sample_avl) = Some file_area \<and>
   walk avl_tree_next node_of 3 (avl_tree_lower_bound_fn cmp_addr_to_vma 0x35000 sample_avl) = [file_area, internal_area]"
proof -
  have t: "avl sample_avl" "inorder sample_avl = sample_vmas"
    by (simp_all add: sample_avl_def sample_vmas_def)
  have "lookup_vma_node 0x35000 sample_vmas = Some file_area" "vmas_from 0x35000 sample_vmas = [file_area, internal_area]"
    "length sample_vmas = 3"
    by (simp_all add: lookup_vma_node_def vmas_from_def sample_vmas_def cmp_addr_to_vma_def anon_area_def file_area_def)
  with vma_tree_is_avl [OF t(1), of anon_area "0x35000"] t(2) sample_vmas_wf show ?thesis by simp
qed

section \<open>Mapping and unmapping\<close>

text \<open>
  C16: Unmapping a range, then removing the temporary area: an error leaves the state as it was; on success
  the temporary area covers exactly the range, and after its removal nothing is mapped in the range
  while every page outside of it is mapped as before, to the same file and offset.
\<close>

theorem munmap_effect:
  assumes "bkeep_munmap pal hs m addr len intl st = (m', r, st')" "vma_inv hs st" "addr < addr + len"
  shows "case r of
      Inl err \<Rightarrow> st' = st \<and> (err = EINVAL \<or> err = ENOMEM \<or> err = EACCES)
    | Inr ptr \<Rightarrow> vma_inv hs st' \<and> vma_inv hs (bkeep_remove_tmp_vma hs ptr st') \<and>
        (\<forall>a. mapped (vma_tree st') a =
           (if addr \<le> a \<and> a < addr + len then Some (PROT_NONE, VMA_INTERNAL OR VMA_UNMAPPED, None, 0)
            else mapped (vma_tree st) a)) \<and>
        (\<forall>a. mapped (vma_tree (bkeep_remove_tmp_vma hs ptr st')) a =
           (if addr \<le> a \<and> a < addr + len then None else mapped (vma_tree st) a))"
proof (cases r)
  case (Inl err)
  then show ?thesis using munmap_error [of pal hs m addr len intl st m' err st'] assms(1) by simp
next
  case (Inr ptr)
  note ok = munmap_ok [OF assms(1) [unfolded Inr] assms(2,3)]
  have tmp: "begin_addr (unmapped_vma addr (addr + len)) = ptr"
    "vflags (unmapped_vma addr (addr + len)) = VMA_INTERNAL OR VMA_UNMAPPED" using ok(2) by simp_all
  note rem = remove_tmp_ok [OF ok(1,3) tmp]
  have "mapped (vma_tree (bkeep_remove_tmp_vma hs ptr st')) a =
      (if addr \<le> a \<and> a < addr + len then None else mapped (vma_tree st) a)" for a
    using rem(2) [of a] ok(4) [of a] by (simp add: cut_def)
  with ok rem(1) Inr show ?thesis by simp
qed

theorem munmap_effect_witness:
  "case bkeep_munmap sample_pal sample_handles [] 0x33000 0x2000 False (vma_state_of sample_handles sample_vmas) of
     (m', Inl err, st') \<Rightarrow> False
   | (m', Inr ptr, st') \<Rightarrow>
       mapped (vma_tree (bkeep_remove_tmp_vma sample_handles ptr st')) 0x34fff = None \<and>
       mapped (vma_tree (bkeep_remove_tmp_vma sample_handles ptr st')) 0x36000 =
         Some (PROT_READ OR PROT_WRITE, MAP_SHARED OR VMA_TAINTED, Some 7, 0x7000)"
proof -
  obtain m' r st' where r: "bkeep_munmap sample_pal sample_handles [] 0x33000 0x2000 False
      (vma_state_of sample_handles sample_vmas) = (m', r, st')" by (metis prod_cases3)
  have "fst (snd (bkeep_munmap sample_pal sample_handles [] 0x33000 0x2000 False
      (vma_state_of sample_handles sample_vmas))) = Inr 0x33000" by code_simp
  then have ok: "r = Inr 0x33000" using r by simp
  have "mapped sample_vmas 0x36000 = Some (PROT_READ OR PROT_WRITE, MAP_SHARED OR VMA_TAINTED, Some 7, 0x7000)"
    by code_simp
  with munmap_effect [OF r sample_inv] r ok show ?thesis by simp
qed

text \<open>
  C17: Mapping at a fixed address either fails and leaves every area as it was, or afterwards the
  pages of the range have exactly the protection, flags, file and offsets asked for and all other
  pages are mapped as before.
\<close>

theorem mmap_fixed_effect:
  assumes "bkeep_mmap_fixed pal hs m addr len prot flags f offset comment st = (m', r, st')"
    and "vma_inv hs st" "addr < addr + len"
  shows "vma_inv hs st' \<and>
    (case r of
       Some err \<Rightarrow> vma_tree st' = vma_tree st
     | None \<Rightarrow> (\<forall>a. mapped (vma_tree st') a =
         (if addr \<le> a \<and> a < addr + len
          then Some (prot, new_vma_flags prot flags f, f, if f \<noteq> None then offset + (a - addr) else 0)
          else mapped (vma_tree st) a)))"
proof (cases r)
  case None
  then show ?thesis using mmap_fixed_ok [of pal hs m addr len prot flags f offset comment st m' st'] assms by simp
next
  case (Some err)
  then show ?thesis using mmap_fixed_error [of pal hs m addr len prot flags f offset comment st m' err st'] assms by simp
qed

theorem mmap_fixed_effect_witness:
  "case bkeep_mmap_fixed sample_pal sample_handles [] 0x33000 0x2000 PROT_READ (MAP_PRIVATE OR MAP_FIXED) (Some 3) 0x4000
       ''lib'' (vma_state_of sample_handles sample_vmas) of
     (m', r, st') \<Rightarrow> r = None \<and> mapped (vma_tree st') 0x34000 = Some (PROT_READ, MAP_PRIVATE, Some 3, 0x5000) \<and>
       mapped (vma_tree st') 0x32fff = Some (PROT_READ, MAP_PRIVATE OR MAP_ANONYMOUS, None, 0)"
proof -
  obtain m' r st' where r: "bkeep_mmap_fixed sample_pal sample_handles [] 0x33000 0x2000 PROT_READ
      (MAP_PRIVATE OR MAP_FIXED) (Some 3) 0x4000 ''lib'' (vma_state_of sample_handles sample_vmas) = (m', r, st')"
    by (metis prod_cases3)
  have "fst (snd (bkeep_mmap_fixed sample_pal sample_handles [] 0x33000 0x2000 PROT_READ
      (MAP_PRIVATE OR MAP_FIXED) (Some 3) 0x4000 ''lib'' (vma_state_of sample_handles sample_vmas))) = None" by code_simp
  then have ok: "r = None" using r by simp
  have "mapped sample_vmas 0x32fff = Some (PROT_READ, MAP_PRIVATE OR MAP_ANONYMOUS, None, 0)"
    "new_vma_flags PROT_READ (MAP_PRIVATE OR MAP_FIXED) (Some 3) = MAP_PRIVATE" by code_simp+
  with mmap_fixed_effect [OF r sample_inv] r ok show ?thesis by simp
qed

text \<open>
  C18: Mapping anywhere in a range, with the memory for the area available: if any place of the
  clipped range is free for the length, the mapping succeeds, at the highest such place, and
  changes nothing else; otherwise it fails and no area changes.
\<close>

theorem mmap_any_highest:
  assumes "vma_inv hs st" "is_alloc_aligned pal len" "is_alloc_aligned pal bottom0" "is_alloc_aligned pal top0" "0 < len"
    and "fst (malloc m)" "clip_range pal flags bottom0 top0 = Some (bottom, top_addr)"
  shows "case bkeep_mmap_any_in_range pal hs m bottom0 top0 len prot flags f offset comment st of
      (m', Inl err, st') \<Rightarrow> (\<forall>x. \<not> free_range bottom top_addr len (vma_tree st) x) \<and> vma_tree st' = vma_tree st \<and> vma_inv hs st'
    | (m', Inr addr, st') \<Rightarrow> free_range bottom top_addr len (vma_tree st) addr \<and>
        (\<forall>x. free_range bottom top_addr len (vma_tree st) x \<longrightarrow> x \<le> addr) \<and> vma_inv hs st' \<and>
        (\<forall>a. mapped (vma_tree st') a =
          (if addr \<le> a \<and> a < addr + len
           then Some (prot, new_vma_flags prot flags f, f, if f \<noteq> None then offset + (a - addr) else 0)
           else mapped (vma_tree st) a))"
proof -
  obtain m' r st' where r: "bkeep_mmap_any_in_range pal hs m bottom0 top0 len prot flags f offset comment st = (m', r, st')"
    by (metis prod_cases3)
  show ?thesis
  proof (cases r)
    case (Inl err)
    have "\<not> free_range bottom top_addr len (vma_tree st) x" for x
      using mmap_any_complete [OF assms(1,7,2-6), of x prot f offset comment] r Inl by auto
    moreover have "vma_inv hs st' \<and> vma_tree st' = vma_tree st" using mmap_any_error [OF r [unfolded Inl] assms(1)] .
    ultimately show ?thesis using r Inl by simp
  next
    case (Inr addr)
    note ok = mmap_any_ok [OF r [unfolded Inr] assms(1)]
    have "free_range bottom top_addr len (vma_tree st) addr" "\<And>x. free_range bottom top_addr len (vma_tree st) x \<Longrightarrow> x \<le> addr"
      using ok(3) assms(7) by auto
    then show ?thesis using r Inr ok(1,2) by simp
  qed
qed

theorem mmap_any_highest_witness:
  "case bkeep_mmap_any_in_range sample_pal sample_handles [] 0x10000 0x71000 0x3000 PROT_READ (MAP_PRIVATE OR MAP_ANONYMOUS)
       None 0 ''x'' (vma_state_of sample_handles sample_vmas) of
     (m', Inl err, st') \<Rightarrow> False
   | (m', Inr addr, st') \<Rightarrow> addr = 0x6d000 \<and> free_range 0x10000 0x71000 0x3000 sample_vmas addr \<and>
       \<not> free_range 0x10000 0x71000 0x3000 sample_vmas 0x6e000"
proof -
  let ?run = "bkeep_mmap_any_in_range sample_pal sample_handles [] 0x10000 0x71000 0x3000 PROT_READ
      (MAP_PRIVATE OR MAP_ANONYMOUS) None 0 ''x'' (vma_state_of sample_handles sample_vmas)"
  have "fst (snd ?run) = Inr 0x6d000" by code_simp
  then obtain m' st' where r: "?run = (m', Inr 0x6d000, st')" by (metis prod.collapse)
  have al: "is_alloc_aligned sample_pal 0x3000" "is_alloc_aligned sample_pal 0x10000" "is_alloc_aligned sample_pal 0x71000"
    "(0 :: u64) < 0x3000" "fst (malloc [])"
    "clip_range sample_pal (MAP_PRIVATE OR MAP_ANONYMOUS) 0x10000 0x71000 = Some (0x10000, 0x71000)" by code_simp+
  have "\<not> (0x6e000 :: u64) \<le> 0x6d000" by simp
  with mmap_any_highest [OF sample_inv al, of sample_handles PROT_READ None 0 "''x''"] r show ?thesis by (simp only: prod.case sum.case vma_state_of_tree) blast
qed

section \<open>Protections\<close>



text \<open>
  C20: \<open>is_in_adjacent_user_vmas\<close> answers true exactly when every address of the range is mapped in
  user memory (not internal, not unmapped) with all the requested permissions.
\<close>

theorem adjacent_user_vmas_exact:
  assumes "vma_inv hs st" "addr \<le> addr + len"
  shows "is_in_adjacent_user_vmas addr len prot (vma_tree st) \<longleftrightarrow>
    (\<forall>a. addr \<le> a \<and> a < addr + len \<longrightarrow>
      (\<exists>p f file off. mapped (vma_tree st) a = Some (p, f, file, off) \<and>
         \<not> has_flag f (VMA_INTERNAL OR VMA_UNMAPPED) \<and> p AND prot = prot))"
proof -
  have "vmas_wf (vma_tree st)" using assms(1) by (simp add: vma_inv_def)
  from adjacent_covered [OF this assms(2), of prot] show ?thesis
    by (simp add: user_page_def split_paired_Ex)
qed

theorem adjacent_user_vmas_exact_witness:
  "is_in_adjacent_user_vmas 0x33000 0x2000 PROT_READ sample_vmas \<and>
   (\<exists>p f file off. mapped sample_vmas 0x34fff = Some (p, f, file, off) \<and>
      \<not> has_flag f (VMA_INTERNAL OR VMA_UNMAPPED) \<and> p AND PROT_READ = PROT_READ)"
proof -
  have run: "is_in_adjacent_user_vmas 0x33000 0x2000 PROT_READ sample_vmas" by code_simp
  have "\<forall>a. 0x33000 \<le> a \<and> a < 0x33000 + 0x2000 \<longrightarrow>
      (\<exists>p f file off. mapped sample_vmas a = Some (p, f, file, off) \<and>
         \<not> has_flag f (VMA_INTERNAL OR VMA_UNMAPPED) \<and> p AND PROT_READ = PROT_READ)"
    using adjacent_user_vmas_exact [OF sample_inv [of sample_handles], of "0x33000" "0x2000" PROT_READ] run by simp
  from spec [OF this, of "0x34fff"] run show ?thesis by simp
qed

section \<open>Queries\<close>

text \<open>
  C24: Dumping the areas of a range. Whatever trees the successive attempts see, a result lists exactly the
  selected areas that the last of them has in the range, in order, and freeing it puts back every reference that
  was taken; an error takes none. When the tree does not change between two attempts the loop ends.
\<close>

theorem dump_vmas_exact:
  shows "case dump_vmas b e sel trees m refs of
      None \<Rightarrow> \<not> (\<exists>vs rest. trees = vs # vs # rest)
    | Some (m', Inl err, refs') \<Rightarrow> err = ENOMEM \<and> refs' = refs
    | Some (m', Inr infos, refs') \<Rightarrow>
        (\<exists>vs \<in> set trees. infos = map dump_vma (filter sel (vmas_in b e vs))) \<and> free_vma_info_array infos refs' = refs"
proof (cases "dump_vmas b e sel trees m refs")
  case None
  then have "\<not> (\<exists>vs rest. trees = vs # vs # rest)" using dump_two_rounds by (metis option.distinct(1))
  with None show ?thesis by simp
next
  case (Some res)
  obtain m' r refs' where res: "res = (m', r, refs')" by (metis prod_cases3)
  have "dump_vmas_rounds b e sel DEFAULT_VMA_COUNT trees m refs = Some (m', r, refs')"
    using Some res by (simp add: dump_vmas_def)
  from dump_rounds_result [OF this] show ?thesis
    unfolding Some res option.case prod.case by (cases r) simp_all
qed

text \<open>
  C23: \<open>madvise(MADV_DONTNEED)\<close>: if it succeeds, the whole range is mapped user memory without tainted file
  mappings, and the calls it made, run on a machine whose protections are those of the bookkeeping, never fault,
  zero exactly the pages of the range that are not backed by a file and leave all protections as they were.
\<close>

theorem madvise_dontneed_zeroes:
  assumes "madvise_dontneed_range b e rs vs = (None, ctx)" "\<not> ctx_bug ctx" "vmas_wf vs" "b < e"
    and "\<And>a p f file off. b \<le> a \<Longrightarrow> a < e \<Longrightarrow> mapped vs a = Some (p, f, file, off) \<Longrightarrow>
           perms M a = linux_prot_to_pal p f"
  shows "(\<forall>a. b \<le> a \<and> a < e \<longrightarrow> (\<exists>p f file off. mapped vs a = Some (p, f, file, off) \<and>
      \<not> has_flag f (VMA_UNMAPPED OR VMA_INTERNAL) \<and> (file \<noteq> None \<longrightarrow> \<not> has_flag f VMA_TAINTED))) \<and>
    (\<exists>M'. run_events (ctx_events ctx) M = Some M' \<and> perms M' = perms M \<and>
      (\<forall>a. bytes M' a = (if b \<le> a \<and> a < e \<and> (\<exists>p f off. mapped vs a = Some (p, f, None, off)) then 0 else bytes M a)))"
  using madvise_dontneed_effect [OF assms(1-4), of M] assms(5)
  by (simp add: dontneed_page_def split_paired_Ex zero_pages_def)

theorem madvise_dontneed_zeroes_witness:
  "\<exists>M'. run_events (ctx_events (snd (madvise_dontneed_range 0x31000 0x33000 [] sample_vmas)))
      \<lparr>bytes = (\<lambda>_. 1), perms = (\<lambda>_. PAL_PROT_READ OR PAL_PROT_WRITECOPY)\<rparr> = Some M' \<and>
    bytes M' 0x32fff = 0 \<and> bytes M' 0x33000 = 1 \<and> perms M' 0x32000 = PAL_PROT_READ OR PAL_PROT_WRITECOPY"
proof -
  let ?M = "\<lparr>bytes = (\<lambda>_. 1), perms = (\<lambda>_. PAL_PROT_READ OR PAL_PROT_WRITECOPY)\<rparr>"
  let ?run = "madvise_dontneed_range 0x31000 0x33000 [] sample_vmas"
  have run: "fst ?run = None" "\<not> ctx_bug (snd ?run)" by code_simp+
  then have r: "?run = (None, snd ?run)" by (metis prod.collapse)
  have prot: "linux_prot_to_pal PROT_READ (MAP_PRIVATE OR MAP_ANONYMOUS) = PAL_PROT_READ OR PAL_PROT_WRITECOPY" by code_simp
  have at: "mapped sample_vmas a = Some (PROT_READ, MAP_PRIVATE OR MAP_ANONYMOUS, None, 0)"
    if "0x31000 \<le> a" "a < 0x33000" for a
  proof -
    have "(0x30000 :: u64) \<le> 0x31000" "(0x33000 :: u64) \<le> 0x34000" by simp_all
    with that have "0x30000 \<le> a" "a < 0x34000" by order+
    then have "is_addr_in_vma a anon_area" by (simp add: is_addr_in_vma_def anon_area_def)
    then show ?thesis by (simp add: sample_vmas_def mapped_Cons vma_view_def) (simp add: anon_area_def)
  qed
  have perm: "perms ?M a = linux_prot_to_pal p f"
    if "0x31000 \<le> a" "a < 0x33000" "mapped sample_vmas a = Some (p, f, fd, off)" for a p f fd off
    using at [OF that(1,2)] that(3) prot by simp
  have "\<exists>M'. run_events (ctx_events (snd ?run)) ?M = Some M' \<and> perms M' = perms ?M \<and> (\<forall>a. bytes M' a =
      (if 0x31000 \<le> a \<and> a < 0x33000 \<and> (\<exists>p f off. mapped sample_vmas a = Some (p, f, None, off)) then 0 else bytes ?M a))"
    by (rule conjunct2 [OF madvise_dontneed_zeroes [OF r run(2) sample_vmas_wf]]) (simp, erule (2) perm)
  then obtain M' where
    "run_events (ctx_events (snd ?run)) ?M = Some M'" "perms M' = perms ?M"
    "\<And>a. bytes M' a = (if 0x31000 \<le> a \<and> a < 0x33000 \<and> (\<exists>p f off. mapped sample_vmas a = Some (p, f, None, off)) then 0 else bytes ?M a)"
    by blast
  with at [of "0x32fff"] show ?thesis by auto
qed

section \<open>File mappings\<close>

text \<open>
  C25: \<open>msync\<close> of a range, when it succeeds: the calls of the file system cover exactly the pages of the range that
  are shared mappings of writable files, and put back every reference. But the offset passed is
  the one of the beginning of the area: when the area begins below the range, the data of a page is written to the file
  at an offset that is too small by the distance between the two.
\<close>

theorem msync_range_pages:
  assumes "msync_range hs fs b e trees m refs = Some (m', None, calls, refs')" "\<And>vs. vs \<in> set trees \<Longrightarrow> vmas_wf vs"
  shows "refs' = refs \<and> (\<exists>vs \<in> set trees.
    (\<forall>a. (\<exists>c \<in> set calls. in_call a c) \<longleftrightarrow> b \<le> a \<and> a < e \<and> (\<exists>x. mapped vs a = Some x \<and> msync_page hs None x)) \<and>
    (\<forall>c \<in> set calls. \<forall>a p f file off. in_call a c \<and> mapped vs a = Some (p, f, file, off) \<longrightarrow>
      (\<exists>v \<in> set vs. is_addr_in_vma a v \<and>
        off = call_offset c + (a - call_addr c) + (max b (begin_addr v) - begin_addr v))))"
proof -
  obtain vs where vs: "vs \<in> set trees"
    and calls: "calls = map (\<lambda>v. msync_call_of b e (dump_vma v)) (filter (vma_filter_needs_msync hs None) (vmas_in b e vs))"
    and refs: "refs' = refs"
    using msync_result assms(1) unfolding msync_range_def by blast
  note wf = assms(2) [OF vs]
  have "\<exists>v \<in> set vs. is_addr_in_vma a v \<and> off = call_offset c + (a - call_addr c) + (max b (begin_addr v) - begin_addr v)"
    if c: "c \<in> set calls" "in_call a c" "mapped vs a = Some (p, f, fd, off)" for c a p f fd off
  proof -
    obtain v where v: "v \<in> set (vmas_in b e vs)" "vma_filter_needs_msync hs None v" "c = msync_call_of b e (dump_vma v)"
      using c(1) calls by auto
    then have "vfile v \<noteq> None" by (auto simp: vma_filter_needs_msync_def split: option.splits)
    from msync_offsets [OF wf v(1) _ this c(3)] c(2) v show ?thesis
      by (auto simp: in_call_dump vmas_in_set [OF wf])
  qed
  with msync_pages [OF wf, of b e hs None] refs vs show ?thesis unfolding calls [symmetric] by blast
qed

text \<open>The data of the page at \<open>0x36000\<close>, which is mapped from offset \<open>0x7000\<close>, is written to offset \<open>0x5000\<close>.\<close>

theorem msync_range_pages_witness:
  "\<exists>c m'. msync_range sample_handles (\<lambda>_. None) 0x36000 0x37000 [sample_vmas] [] (\<lambda>_. 0) = Some (m', None, [c], \<lambda>_. 0) \<and>
     in_call 0x36000 c \<and> call_offset c + (0x36000 - call_addr c) = 0x5000 \<and>
     mapped sample_vmas 0x36000 = Some (PROT_READ OR PROT_WRITE, MAP_SHARED OR VMA_TAINTED, Some 7, 0x7000)"
proof -
  let ?run = "msync_range sample_handles (\<lambda>_. None) 0x36000 0x37000 [sample_vmas] [] (\<lambda>_. 0)"
  let ?c = "msync_call_of 0x36000 0x37000 (dump_vma file_area)"
  have "map_option (\<lambda>(m', ret, calls, refs'). (m', ret, calls)) ?run = Some ([], None, [?c])" by code_simp
  then obtain refs' where run: "?run = Some ([], None, [?c], refs')" by (auto simp: split_paired_Ex)
  have view: "mapped sample_vmas 0x36000 = Some (PROT_READ OR PROT_WRITE, MAP_SHARED OR VMA_TAINTED, Some 7, 0x7000)"
    by code_simp
  have "in_call 0x36000 ?c" "call_offset ?c + (0x36000 - call_addr ?c) = 0x5000" by code_simp+
  moreover have "refs' = (\<lambda>_. 0)"
    using msync_range_pages [OF run] sample_vmas_wf by simp
  ultimately show ?thesis using run view by blast
qed

text \<open>
  C26: Reloading a mapping after a write to its file. Suppose \<open>read\<close> moves the position by what it returns and
  gives at least as many results that are not requests to retry as there are bytes. Then the
  loop ends. Its calls read, one after the other, from where the one before stopped to the
  end of the mapping, each from the file offset that is mapped there. It goes on after
  a request to retry and after a count that is neither 0 nor more than was asked for, and only
  then. It ends with success when all bytes have been read or \<open>read\<close> returns 0, with the error
  if \<open>read\<close> fails, and with a failed assertion if \<open>read\<close> returns more than was asked for.
\<close>

theorem reload_terminates:
  assumes "position_follows outcomes" "unat sz \<le> progress outcomes"
  shows "\<exists>k. k \<le> length outcomes \<and>
    (\<forall>i<k. bytes_read i outcomes < sz \<and> goes_on (sz - bytes_read i outcomes) (outcomes ! i)) \<and>
    (if bytes_read k outcomes = sz
     then reload_loop fd s sz outcomes 0 off =
       Some (None, sz,
         map (\<lambda>i. Reload_Read fd (s + bytes_read i outcomes) (sz - bytes_read i outcomes) (off + bytes_read i outcomes)) [0..<k],
         True)
     else bytes_read k outcomes < sz \<and> k < length outcomes \<and> \<not> goes_on (sz - bytes_read k outcomes) (outcomes ! k) \<and>
       reload_loop fd s sz outcomes 0 off =
         Some (fst (stops_with (outcomes ! k)), bytes_read k outcomes,
           map (\<lambda>i. Reload_Read fd (s + bytes_read i outcomes) (sz - bytes_read i outcomes) (off + bytes_read i outcomes)) [0..<Suc k],
           snd (stops_with (outcomes ! k))))"
proof -
  obtain k where "reload_run fd s sz off 0 outcomes k"
    using reload_loop_run [of outcomes 0 sz fd s off] assms by auto
  then show ?thesis unfolding reload_run_def reads_def add_0_left add_0_right by blast
qed

theorem reload_terminates_witness:
  "reload_loop 7 0x34000 2 [(Inl EINTR, 0), (Inr 1, 1), (Inl EAGAIN, 0), (Inr 1, 1)] 0 0x5000 =
     Some (None, 2, [Reload_Read 7 0x34000 2 0x5000, Reload_Read 7 0x34000 2 0x5000, Reload_Read 7 0x34001 1 0x5001,
       Reload_Read 7 0x34001 1 0x5001], True)"
proof -
  define os :: "read_outcome list" where "os = [(Inl EINTR, 0), (Inr 1, 1), (Inl EAGAIN, 0), (Inr 1, 1)]"
  have h: "position_follows os" "unat (2 :: u64) \<le> progress os" and len: "length os = 4"
    by (simp_all add: position_follows_def read_count_def progress_def os_def)
  have b: "bytes_read 0 os = 0" "bytes_read 1 os = 0" "bytes_read 2 os = 1" "bytes_read 3 os = 1" "bytes_read 4 os = 2"
    by (simp_all add: bytes_read_def read_count_def os_def)
  have on: "goes_on (2 - bytes_read i os) (os ! i)" "bytes_read i os \<noteq> 2" if "i < 4" for i
  proof -
    from that consider "i = 0" | "i = 1" | "i = 2" | "i = 3" by linarith
    then show "goes_on (2 - bytes_read i os) (os ! i)" "bytes_read i os \<noteq> 2"
      by (cases; use b in \<open>simp add: goes_on_def os_def\<close>)+
  qed
  from reload_terminates [OF h, of 7 "0x34000" "0x5000"] obtain k where k: "k \<le> length os"
    "bytes_read k os = 2 \<Longrightarrow> reload_loop 7 0x34000 2 os 0 0x5000 = Some (None, 2,
         map (\<lambda>i. Reload_Read 7 (0x34000 + bytes_read i os) (2 - bytes_read i os) (0x5000 + bytes_read i os)) [0..<k], True)"
    "bytes_read k os \<noteq> 2 \<Longrightarrow> \<not> goes_on (2 - bytes_read k os) (os ! k) \<and> k < length os"
    by (metis (no_types, lifting))
  have "k = 4" using k on [of k] len by fastforce
  then show ?thesis using k(2) b unfolding os_def by (simp add: upt_rec read_count_def)
qed

section \<open>Initialisation\<close>





text \<open>
  C28: \<open>_vma_malloc\<close> keeps the invariant on every path, in particular undoing the bookkeeping when the PAL has no
  memory never reaches \<open>BUG()\<close>: on failure everything is mapped as before, on success exactly
  the new internal range is added.
\<close>

theorem vma_malloc_rollback:
  assumes "vma_malloc pal hs m pal_ret sz st = (m', r, st')" "vma_inv hs st"
  shows "vma_inv hs st' \<and> (pal_ret \<noteq> None \<longrightarrow> r = None) \<and>
    (\<forall>a. mapped (vma_tree st') a =
       (case r of
          None \<Rightarrow> mapped (vma_tree st) a
        | Some addr \<Rightarrow>
            if addr \<le> a \<and> a < addr + alloc_align_up pal sz
            then Some (PROT_READ OR PROT_WRITE, MAP_PRIVATE OR MAP_ANONYMOUS OR VMA_INTERNAL, None, 0)
            else mapped (vma_tree st) a))"
proof -
  have "pal_ret \<noteq> None \<longrightarrow> r = None"
    using assms(1) by (auto simp: vma_malloc_def Let_def split: prod.splits sum.splits)
  with vma_malloc_ok [OF assms] show ?thesis by simp
qed

theorem vma_malloc_rollback_witness:
  "case vma_malloc sample_pal sample_handles [] (Some ENOMEM) 0x1234 (vma_state_of sample_handles sample_vmas) of
     (m', r, st') \<Rightarrow> r = None \<and> vma_inv sample_handles st' \<and> (\<forall>a. mapped (vma_tree st') a = mapped sample_vmas a)"
proof -
  obtain m' r st' where run: "vma_malloc sample_pal sample_handles [] (Some ENOMEM) 0x1234 (vma_state_of sample_handles sample_vmas) =
      (m', r, st')" by (metis prod_cases3)
  from vma_malloc_rollback [OF run sample_inv] run show ?thesis by simp
qed

end
