(* ===== verification/Sync_Server.thy ===== *)
theory Sync_Server
  imports Prelude
begin

text \<open>
  The sync engine: its states and messages (\<open>libos_sync.h\<close>, \<open>libos_ipc_sync.c\<close>) and the
  server side (\<open>libos_sync_server.c\<close>). The server keeps, per handle, the latest data and a
  list of leases, one per client, and answers the messages of the clients. The two hash
  tables of the server are maps. A function that ends the process (\<open>FATAL\<close>) or fails an
  assertion says so in its result.
\<close>

section \<open>States, messages, outcomes\<close>

datatype sync_state =
    SYNC_STATE_NONE | SYNC_STATE_INVALID | SYNC_STATE_SHARED | SYNC_STATE_EXCLUSIVE

fun sync_state_num :: "sync_state \<Rightarrow> nat" where
  "sync_state_num SYNC_STATE_NONE = 0"
| "sync_state_num SYNC_STATE_INVALID = 1"
| "sync_state_num SYNC_STATE_SHARED = 2"
| "sync_state_num SYNC_STATE_EXCLUSIVE = 3"

lemma sync_state_num_inj: "sync_state_num a = sync_state_num b \<Longrightarrow> a = b"
  by (cases a; cases b; simp)

instantiation sync_state :: linorder
begin

definition less_eq_sync_state :: "sync_state \<Rightarrow> sync_state \<Rightarrow> bool" where
  "less_eq_sync_state a b \<longleftrightarrow> sync_state_num a \<le> sync_state_num b"

definition less_sync_state :: "sync_state \<Rightarrow> sync_state \<Rightarrow> bool" where
  "less_sync_state a b \<longleftrightarrow> sync_state_num a < sync_state_num b"

instance
  by standard (auto simp: less_eq_sync_state_def less_sync_state_def dest: sync_state_num_inj)

end

lemmas sync_state_order = less_eq_sync_state_def less_sync_state_def

datatype sync_code =
    IPC_MSG_SYNC_REQUEST_UPGRADE | IPC_MSG_SYNC_REQUEST_DOWNGRADE | IPC_MSG_SYNC_REQUEST_CLOSE
  | IPC_MSG_SYNC_CONFIRM_UPGRADE | IPC_MSG_SYNC_CONFIRM_DOWNGRADE | IPC_MSG_SYNC_CONFIRM_CLOSE

text \<open>A message: code, handle id, state and data (\<open>data_size\<close> is the length of the list).\<close>

datatype sync_msg =
  Sync_Msg (msg_code: sync_code) (msg_id: u64) (msg_state: sync_state) (msg_data: "u8 list")

text \<open>
  \<open>Fatal\<close> is the \<open>FATAL\<close> macro of either side, which exits the process.
  \<open>Assertion_Failed\<close> is a failed \<open>assert\<close>.
\<close>

datatype 'a outcome = Ok 'a | Fatal | Assertion_Failed

fun and_then :: "'a outcome \<Rightarrow> ('a \<Rightarrow> 'b outcome) \<Rightarrow> 'b outcome" where
  "and_then (Ok x) f = f x"
| "and_then Fatal f = Fatal"
| "and_then Assertion_Failed f = Assertion_Failed"

definition asserting :: "bool \<Rightarrow> 'a outcome \<Rightarrow> 'a outcome" where
  "asserting b r = (if b then r else Assertion_Failed)"

lemma and_then_Ok: "and_then r f = Ok y \<longleftrightarrow> (\<exists>x. r = Ok x \<and> f x = Ok y)"
  by (cases r) auto

lemma and_then_failed:
  "and_then r f = Assertion_Failed \<longleftrightarrow>
     r = Assertion_Failed \<or> (\<exists>x. r = Ok x \<and> f x = Assertion_Failed)"
  by (cases r) auto

lemma asserting_Ok: "asserting b r = Ok y \<longleftrightarrow> b \<and> r = Ok y"
  by (simp add: asserting_def)

lemma asserting_failed: "asserting b r = Assertion_Failed \<longleftrightarrow> \<not> b \<or> r = Assertion_Failed"
  by (simp add: asserting_def)

lemmas outcome_simps = and_then_Ok and_then_failed asserting_Ok asserting_failed

section \<open>The server's state\<close>

record server_lease =
  lease_client :: u32
  lease_cur :: sync_state
  lease_client_req :: sync_state
  lease_server_req :: sync_state

record server_handle =
  srv_data :: "u8 list"
  srv_leases :: "server_lease list"

text \<open>
  A \<open>server_client\<close> is the list of the leases of a process. A lease belongs to one handle,
  so the list is kept as the ids of these handles.
\<close>

record server_state =
  server_handles :: "u64 \<Rightarrow> server_handle option"
  server_clients :: "u32 \<Rightarrow> u64 list option"

definition server_start :: server_state where
  "server_start = \<lparr>server_handles = (\<lambda>_. None), server_clients = (\<lambda>_. None)\<rparr>"

definition init_sync_server :: "mem \<Rightarrow> errno option" where
  "init_sync_server m = (if fst (malloc m) then None else Some ENOMEM)"

text \<open>
  The outcomes that the server does not control, of \<open>malloc\<close> and of sending a message, are
  the list \<^typ>\<open>mem\<close>. The messages a function sends are part of its result, each with
  the process it goes to.
\<close>

type_synonym sent = "(u32 \<times> sync_msg) list"

definition server_find_handle ::
  "mem \<Rightarrow> server_state \<Rightarrow> u64 \<Rightarrow> bool \<Rightarrow> server_handle option \<times> server_state \<times> mem" where
  "server_find_handle m st hid create =
     (case server_handles st hid of
        Some h \<Rightarrow> (Some h, st, m)
      | None \<Rightarrow>
          if \<not> create then (None, st, m)
          else let (ok, m) = malloc m in
            if \<not> ok then (None, st, m)
            else let h = \<lparr>srv_data = [], srv_leases = []\<rparr> in
              (Some h, st\<lparr>server_handles := (server_handles st)(hid \<mapsto> h)\<rparr>, m))"

definition find_client ::
  "mem \<Rightarrow> server_state \<Rightarrow> u32 \<Rightarrow> bool \<Rightarrow> u64 list option \<times> server_state \<times> mem" where
  "find_client m st vmid create =
     (case server_clients st vmid of
        Some c \<Rightarrow> (Some c, st, m)
      | None \<Rightarrow>
          if \<not> create then (None, st, m)
          else let (ok, m) = malloc m in
            if \<not> ok then (None, st, m)
            else (Some [], st\<lparr>server_clients := (server_clients st)(vmid \<mapsto> [])\<rparr>, m))"

text \<open>
  \<open>find_lease\<close> returns a pointer into the list of the handle. Here the handle comes with its
  id and is returned with the lease in it.
\<close>

definition find_lease ::
  "mem \<Rightarrow> server_state \<Rightarrow> u64 \<Rightarrow> server_handle \<Rightarrow> u32 \<Rightarrow> bool \<Rightarrow>
     (server_lease \<times> server_handle) option \<times> server_state \<times> mem" where
  "find_lease m st hid h vmid create =
     (case find (\<lambda>l. lease_client l = vmid) (srv_leases h) of
        Some l \<Rightarrow> (Some (l, h), st, m)
      | None \<Rightarrow>
          if \<not> create then (None, st, m)
          else let (ok, m) = malloc m in
            if \<not> ok then (None, st, m)
            else (case find_client m st vmid True of
                (None, st, m) \<Rightarrow> (None, st, m)
              | (Some c, st, m) \<Rightarrow>
                  let l = \<lparr>lease_client = vmid, lease_cur = SYNC_STATE_INVALID,
                           lease_client_req = SYNC_STATE_NONE,
                           lease_server_req = SYNC_STATE_NONE\<rparr>;
                      h = h\<lparr>srv_leases := srv_leases h @ [l]\<rparr>
                  in (Some (l, h),
                      st\<lparr>server_handles := (server_handles st)(hid \<mapsto> h),
                         server_clients := (server_clients st)(vmid \<mapsto> c @ [hid])\<rparr>, m)))"

section \<open>Messages of the server\<close>

definition ipc_sync_server_send ::
  "mem \<Rightarrow> u32 \<Rightarrow> sync_code \<Rightarrow> u64 \<Rightarrow> sync_state \<Rightarrow> u8 list \<Rightarrow> (sent \<times> mem) outcome" where
  "ipc_sync_server_send m dest code hid state data =
     (let (ok, m) = malloc m in
      if ok then Ok ([(dest, Sync_Msg code hid state data)], m) else Fatal)"

definition send_confirm_upgrade ::
  "mem \<Rightarrow> u64 \<Rightarrow> u8 list \<Rightarrow> u32 \<Rightarrow> sync_state \<Rightarrow> (sent \<times> mem) outcome" where
  "send_confirm_upgrade m hid data vmid state =
     ipc_sync_server_send m vmid IPC_MSG_SYNC_CONFIRM_UPGRADE hid state data"

definition send_request_downgrade ::
  "mem \<Rightarrow> u64 \<Rightarrow> u32 \<Rightarrow> sync_state \<Rightarrow> (sent \<times> mem) outcome" where
  "send_request_downgrade m hid vmid state =
     ipc_sync_server_send m vmid IPC_MSG_SYNC_REQUEST_DOWNGRADE hid state []"

definition send_confirm_close :: "mem \<Rightarrow> u64 \<Rightarrow> u32 \<Rightarrow> (sent \<times> mem) outcome" where
  "send_confirm_close m hid vmid =
     ipc_sync_server_send m vmid IPC_MSG_SYNC_CONFIRM_CLOSE hid SYNC_STATE_INVALID []"

section \<open>process_handle\<close>

text \<open>
  \<open>process_handle\<close> walks over the leases of a handle three times: it counts, grants the
  requests that can be granted now, and asks for downgrades where a request still waits. A
  failed send makes it return an error, on which every caller exits; the model has
  \<open>Fatal\<close> there.
\<close>

record counts =
  n_shared :: nat
  n_exclusive :: nat
  want_shared :: nat
  want_exclusive :: nat

definition no_counts :: counts where
  "no_counts = \<lparr>n_shared = 0, n_exclusive = 0, want_shared = 0, want_exclusive = 0\<rparr>"

definition count_lease :: "counts \<Rightarrow> server_lease \<Rightarrow> counts" where
  "count_lease k l =
     (let k = (if lease_cur l = SYNC_STATE_SHARED
               then k\<lparr>n_shared := n_shared k + 1\<rparr> else k);
          k = (if lease_cur l = SYNC_STATE_EXCLUSIVE
               then k\<lparr>n_exclusive := n_exclusive k + 1\<rparr> else k);
          k = (if lease_client_req l = SYNC_STATE_SHARED
               then k\<lparr>want_shared := want_shared k + 1\<rparr> else k)
      in if lease_client_req l = SYNC_STATE_EXCLUSIVE
         then k\<lparr>want_exclusive := want_exclusive k + 1\<rparr> else k)"

definition count_leases :: "server_lease list \<Rightarrow> counts" where
  "count_leases ls = foldl count_lease no_counts ls"

text \<open>The body of the second loop.\<close>

definition upgrade_lease ::
  "u64 \<Rightarrow> u8 list \<Rightarrow> counts \<Rightarrow> mem \<Rightarrow> server_lease \<Rightarrow>
     (server_lease \<times> sent \<times> counts \<times> mem) outcome" where
  "upgrade_lease hid data k m l =
     (if lease_client_req l = SYNC_STATE_SHARED \<and> n_exclusive k = 0 then
        asserting (lease_cur l = SYNC_STATE_INVALID)
          (and_then (send_confirm_upgrade m hid data (lease_client l) SYNC_STATE_SHARED)
            (\<lambda>(out, m). Ok (l\<lparr>lease_cur := SYNC_STATE_SHARED,
                              lease_client_req := SYNC_STATE_NONE\<rparr>, out,
                            k\<lparr>want_shared := want_shared k - 1,
                              n_shared := n_shared k + 1\<rparr>, m)))
      else if lease_client_req l = SYNC_STATE_EXCLUSIVE \<and> n_exclusive k = 0
          \<and> n_shared k = 0 then
        asserting (lease_cur l = SYNC_STATE_INVALID)
          (and_then (send_confirm_upgrade m hid data (lease_client l) SYNC_STATE_EXCLUSIVE)
            (\<lambda>(out, m). Ok (l\<lparr>lease_cur := SYNC_STATE_EXCLUSIVE,
                              lease_client_req := SYNC_STATE_NONE\<rparr>, out,
                            k\<lparr>want_exclusive := want_exclusive k - 1,
                              n_exclusive := n_exclusive k + 1\<rparr>, m)))
      else if lease_client_req l = SYNC_STATE_EXCLUSIVE \<and> n_exclusive k = 0
          \<and> n_shared k = 1 \<and> lease_cur l = SYNC_STATE_SHARED then
        and_then (send_confirm_upgrade m hid data (lease_client l) SYNC_STATE_EXCLUSIVE)
          (\<lambda>(out, m). Ok (l\<lparr>lease_cur := SYNC_STATE_EXCLUSIVE,
                            lease_client_req := SYNC_STATE_NONE\<rparr>, out,
                          k\<lparr>want_exclusive := want_exclusive k - 1,
                            n_exclusive := n_exclusive k + 1,
                            n_shared := n_shared k - 1\<rparr>, m))
      else Ok (l, [], k, m))"

text \<open>The bodies of the two downgrade loops. They do not change the counters.\<close>

definition ask_invalid ::
  "u64 \<Rightarrow> counts \<Rightarrow> mem \<Rightarrow> server_lease \<Rightarrow> (server_lease \<times> sent \<times> counts \<times> mem) outcome" where
  "ask_invalid hid k m l =
     (if (lease_cur l = SYNC_STATE_SHARED \<or> lease_cur l = SYNC_STATE_EXCLUSIVE)
         \<and> lease_server_req l \<noteq> SYNC_STATE_INVALID then
        and_then (send_request_downgrade m hid (lease_client l) SYNC_STATE_INVALID)
          (\<lambda>(out, m). Ok (l\<lparr>lease_server_req := SYNC_STATE_INVALID\<rparr>, out, k, m))
      else Ok (l, [], k, m))"

definition ask_shared ::
  "u64 \<Rightarrow> counts \<Rightarrow> mem \<Rightarrow> server_lease \<Rightarrow> (server_lease \<times> sent \<times> counts \<times> mem) outcome" where
  "ask_shared hid k m l =
     (if lease_cur l = SYNC_STATE_EXCLUSIVE \<and> lease_server_req l \<noteq> SYNC_STATE_SHARED
         \<and> lease_server_req l \<noteq> SYNC_STATE_INVALID then
        and_then (send_request_downgrade m hid (lease_client l) SYNC_STATE_SHARED)
          (\<lambda>(out, m). Ok (l\<lparr>lease_server_req := SYNC_STATE_SHARED\<rparr>, out, k, m))
      else Ok (l, [], k, m))"

text \<open>\<open>LISTP_FOR_EACH_ENTRY\<close> over the leases, with the counters and the sent messages.\<close>

fun lease_loop ::
  "(counts \<Rightarrow> mem \<Rightarrow> server_lease \<Rightarrow> (server_lease \<times> sent \<times> counts \<times> mem) outcome) \<Rightarrow>
     counts \<Rightarrow> mem \<Rightarrow> server_lease list \<Rightarrow> (server_lease list \<times> sent \<times> counts \<times> mem) outcome"
where
  "lease_loop body k m [] = Ok ([], [], k, m)"
| "lease_loop body k m (l # ls) =
     and_then (body k m l) (\<lambda>(l, out, k, m).
       and_then (lease_loop body k m ls) (\<lambda>(ls, outs, k, m).
         Ok (l # ls, out @ outs, k, m)))"

definition process_handle ::
  "mem \<Rightarrow> u64 \<Rightarrow> server_handle \<Rightarrow> (server_handle \<times> sent \<times> mem) outcome" where
  "process_handle m hid h =
     and_then (lease_loop (upgrade_lease hid (srv_data h)) (count_leases (srv_leases h)) m
                 (srv_leases h)) (\<lambda>(ls, granted, k, m).
       if want_exclusive k \<noteq> 0 then
         and_then (lease_loop (ask_invalid hid) k m ls) (\<lambda>(ls, asked, k, m).
           Ok (h\<lparr>srv_leases := ls\<rparr>, granted @ asked, m))
       else if want_shared k \<noteq> 0 then
         and_then (lease_loop (ask_shared hid) k m ls) (\<lambda>(ls, asked, k, m).
           Ok (h\<lparr>srv_leases := ls\<rparr>, granted @ asked, m))
       else Ok (h\<lparr>srv_leases := ls\<rparr>, granted, m))"

section \<open>Message handlers\<close>

text \<open>
  \<open>set_lease\<close> writes a lease back through its pointer; \<open>move_to_tail\<close> is the
  \<open>LISTP_DEL\<close>/\<open>LISTP_ADD_TAIL\<close> pair of \<open>do_request_upgrade\<close>.
\<close>

definition set_lease :: "server_lease \<Rightarrow> server_lease list \<Rightarrow> server_lease list" where
  "set_lease l ls = map (\<lambda>x. if lease_client x = lease_client l then l else x) ls"

definition move_to_tail :: "u32 \<Rightarrow> server_lease list \<Rightarrow> server_lease list" where
  "move_to_tail vmid ls =
     [x \<leftarrow> ls. lease_client x \<noteq> vmid] @ [x \<leftarrow> ls. lease_client x = vmid]"

definition store_handle :: "u64 \<Rightarrow> server_handle \<Rightarrow> server_state \<Rightarrow> server_state" where
  "store_handle hid h st = st\<lparr>server_handles := (server_handles st)(hid \<mapsto> h)\<rparr>"

definition do_request_upgrade ::
  "mem \<Rightarrow> server_state \<Rightarrow> u32 \<Rightarrow> u64 \<Rightarrow> sync_state \<Rightarrow> (server_state \<times> sent) outcome" where
  "do_request_upgrade m st vmid hid state =
     asserting (state = SYNC_STATE_SHARED \<or> state = SYNC_STATE_EXCLUSIVE)
       (case server_find_handle m st hid True of
          (None, _) \<Rightarrow> Fatal
        | (Some h, st, m) \<Rightarrow>
            (case find_lease m st hid h vmid True of
               (None, _) \<Rightarrow> Fatal
             | (Some (l, h), st, m) \<Rightarrow>
                 asserting (lease_cur l < state)
                   (let ls = set_lease (l\<lparr>lease_client_req := state\<rparr>) (srv_leases h);
                        h = h\<lparr>srv_leases := move_to_tail vmid ls\<rparr>
                    in and_then (process_handle m hid h)
                         (\<lambda>(h, out, m). Ok (store_handle hid h st, out)))))"

definition server_update_handle_data ::
  "mem \<Rightarrow> server_handle \<Rightarrow> u8 list \<Rightarrow> (server_handle \<times> mem) outcome" where
  "server_update_handle_data m h data =
     (if length data \<noteq> length (srv_data h) \<and> length data > 0 then
        let (ok, m) = malloc m in
        if ok then Ok (h\<lparr>srv_data := data\<rparr>, m) else Fatal
      else Ok (h\<lparr>srv_data := data\<rparr>, m))"

definition do_confirm_downgrade ::
  "mem \<Rightarrow> server_state \<Rightarrow> u32 \<Rightarrow> u64 \<Rightarrow> sync_state \<Rightarrow> u8 list \<Rightarrow>
     (server_state \<times> sent) outcome" where
  "do_confirm_downgrade m st vmid hid state data =
     asserting (state = SYNC_STATE_INVALID \<or> state = SYNC_STATE_SHARED)
       (case server_find_handle m st hid True of
          (None, _) \<Rightarrow> Fatal
        | (Some h, st, m) \<Rightarrow>
            (case find_lease m st hid h vmid True of
               (None, _) \<Rightarrow> Fatal
             | (Some (l, h), st, m) \<Rightarrow>
                 asserting (lease_cur l > state)
                   (and_then (if lease_cur l = SYNC_STATE_EXCLUSIVE
                              then server_update_handle_data m h data
                              else asserting (data = []) (Ok (h, m)))
                     (\<lambda>(h, m).
                       let l = l\<lparr>lease_cur := state\<rparr>;
                           l = (if state \<le> lease_server_req l
                                then l\<lparr>lease_server_req := SYNC_STATE_NONE\<rparr> else l);
                           h = h\<lparr>srv_leases := set_lease l (srv_leases h)\<rparr>
                       in and_then (process_handle m hid h)
                            (\<lambda>(h, out, m). Ok (store_handle hid h st, out))))))"

text \<open>
  \<open>do_request_close\<close> removes the lease from the list of its client and from that of the
  handle. A client or a handle without leases is deleted; \<open>drop_client_lease\<close> is the part
  on the client.
\<close>

definition drop_client_lease :: "u32 \<Rightarrow> u64 \<Rightarrow> server_state \<Rightarrow> server_state" where
  "drop_client_lease vmid hid st =
     (case server_clients st vmid of
        None \<Rightarrow> st
      | Some ids \<Rightarrow>
          let ids = remove1 hid ids in
          st\<lparr>server_clients :=
               (server_clients st)(vmid := if ids = [] then None else Some ids)\<rparr>)"

definition do_request_close ::
  "mem \<Rightarrow> server_state \<Rightarrow> u32 \<Rightarrow> u64 \<Rightarrow> sync_state \<Rightarrow> u8 list \<Rightarrow>
     (server_state \<times> sent) outcome" where
  "do_request_close m st vmid hid cur_state data =
     asserting (cur_state = SYNC_STATE_INVALID \<or> cur_state = SYNC_STATE_SHARED
                  \<or> cur_state = SYNC_STATE_EXCLUSIVE)
       (case server_find_handle m st hid False of
          (None, _) \<Rightarrow> Fatal
        | (Some h, st, m) \<Rightarrow>
            (case find_lease m st hid h vmid False of
               (None, _) \<Rightarrow> Fatal
             | (Some (l, h), st, m) \<Rightarrow>
                 and_then (if cur_state = SYNC_STATE_EXCLUSIVE
                           then server_update_handle_data m h data
                           else asserting (data = []) (Ok (h, m)))
                   (\<lambda>(h, m).
                     and_then (send_confirm_close m hid (lease_client l))
                       (\<lambda>(closed, m).
                         let h = h\<lparr>srv_leases := [x \<leftarrow> srv_leases h. lease_client x \<noteq> vmid]\<rparr>;
                             st = drop_client_lease vmid hid st
                         in if srv_leases h = []
                            then Ok (st\<lparr>server_handles := (server_handles st)(hid := None)\<rparr>,
                                     closed)
                            else and_then (process_handle m hid h)
                              (\<lambda>(h, out, m). Ok (store_handle hid h st, closed @ out))))))"

definition sync_server_message_callback ::
  "mem \<Rightarrow> server_state \<Rightarrow> u32 \<Rightarrow> sync_msg \<Rightarrow> (server_state \<times> sent) outcome" where
  "sync_server_message_callback m st src msg =
     (case msg of Sync_Msg code hid state data \<Rightarrow>
        (case code of
           IPC_MSG_SYNC_REQUEST_UPGRADE \<Rightarrow>
             asserting (data = []) (do_request_upgrade m st src hid state)
         | IPC_MSG_SYNC_CONFIRM_DOWNGRADE \<Rightarrow> do_confirm_downgrade m st src hid state data
         | IPC_MSG_SYNC_REQUEST_CLOSE \<Rightarrow> do_request_close m st src hid state data
         | _ \<Rightarrow> Fatal))"

definition sync_server_disconnect_callback :: "server_state \<Rightarrow> u32 \<Rightarrow> unit outcome" where
  "sync_server_disconnect_callback st src =
     (case find_client [] st src False of
        (Some ids, _) \<Rightarrow> asserting (ids \<noteq> []) Fatal
      | (None, _) \<Rightarrow> Ok ())"

end
