(* ===== verification/Sync_Lease.thy ===== *)
theory Sync_Lease
  imports Sync_Server "HOL-Library.Multiset"
begin

text \<open>
  What \<open>process_handle\<close> does to the leases of a handle: which leases it grants and asks to
  downgrade, that it never gives an exclusive lease next to another one, that its assertions
  hold, and that no request is left behind that could be granted.
\<close>

section \<open>Well-formed leases\<close>

definition num_cur :: "sync_state \<Rightarrow> server_lease list \<Rightarrow> nat" where
  "num_cur s ls = length [l \<leftarrow> ls. lease_cur l = s]"

definition num_req :: "sync_state \<Rightarrow> server_lease list \<Rightarrow> nat" where
  "num_req s ls = length [l \<leftarrow> ls. lease_client_req l = s]"

text \<open>The comments on the fields of \<open>struct server_lease\<close>.\<close>

definition lease_ok :: "server_lease \<Rightarrow> bool" where
  "lease_ok l \<longleftrightarrow>
     lease_cur l \<noteq> SYNC_STATE_NONE \<and>
     (lease_client_req l = SYNC_STATE_NONE \<or> lease_cur l < lease_client_req l) \<and>
     (lease_server_req l = SYNC_STATE_NONE \<or> lease_server_req l < lease_cur l)"

text \<open>At most one exclusive lease, and then no shared one.\<close>

definition exclusion :: "nat \<Rightarrow> nat \<Rightarrow> bool" where
  "exclusion shared exclusive \<longleftrightarrow> exclusive = 0 \<or> exclusive = 1 \<and> shared = 0"

definition leases_ok :: "server_lease list \<Rightarrow> bool" where
  "leases_ok ls \<longleftrightarrow>
     distinct (map lease_client ls) \<and> (\<forall>l\<in>set ls. lease_ok l) \<and>
     exclusion (num_cur SYNC_STATE_SHARED ls) (num_cur SYNC_STATE_EXCLUSIVE ls)"

lemma num_cur_simps [simp]:
  "num_cur s [] = 0"
  "num_cur s (l # ls) = (if lease_cur l = s then Suc (num_cur s ls) else num_cur s ls)"
  "num_cur s (ls @ ls') = num_cur s ls + num_cur s ls'"
  by (simp_all add: num_cur_def)

lemma num_req_simps [simp]:
  "num_req s [] = 0"
  "num_req s (l # ls) = (if lease_client_req l = s then Suc (num_req s ls) else num_req s ls)"
  "num_req s (ls @ ls') = num_req s ls + num_req s ls'"
  by (simp_all add: num_req_def)

lemma num_cur_0: "num_cur s ls = 0 \<longleftrightarrow> (\<forall>l\<in>set ls. lease_cur l \<noteq> s)"
  by (induction ls) auto

lemma num_req_0: "num_req s ls = 0 \<longleftrightarrow> (\<forall>l\<in>set ls. lease_client_req l \<noteq> s)"
  by (induction ls) auto

lemma num_cur_pos: "l \<in> set ls \<Longrightarrow> 0 < num_cur (lease_cur l) ls"
  by (induction ls) auto

lemma exclusion_pair:
  assumes "exclusion (num_cur SYNC_STATE_SHARED ls) (num_cur SYNC_STATE_EXCLUSIVE ls)"
    and "x \<in> set ls" "y \<in> set ls" "x \<noteq> y" "lease_cur x = SYNC_STATE_EXCLUSIVE"
    and "lease_cur y \<noteq> SYNC_STATE_NONE"
  shows "lease_cur y = SYNC_STATE_INVALID"
proof -
  obtain xs ys where ls: "ls = xs @ x # ys" using assms(2) by (meson split_list)
  have y: "y \<in> set (xs @ ys)" using assms(3,4) ls by auto
  have "num_cur SYNC_STATE_EXCLUSIVE (xs @ ys) = 0" "num_cur SYNC_STATE_SHARED (xs @ ys) = 0"
    using assms(1,5) unfolding ls exclusion_def by auto
  thus ?thesis using y assms(6) unfolding num_cur_0 by (cases "lease_cur y") auto
qed

lemma leases_ok_perm:
  assumes "mset ls = mset ls'" shows "leases_ok ls \<longleftrightarrow> leases_ok ls'"
proof -
  have n: "num_cur s ls = num_cur s ls'" for s
    unfolding num_cur_def using assms by (metis mset_filter size_mset)
  have "distinct (map lease_client ls) = distinct (map lease_client ls')"
    using assms by (metis mset_eq_imp_distinct_iff mset_map)
  moreover have "set ls = set ls'" using assms by (rule mset_eq_setD)
  ultimately show ?thesis unfolding leases_ok_def n by simp
qed

section \<open>The loop over the leases\<close>

definition to_client :: "u32 \<Rightarrow> sent \<Rightarrow> sync_msg list" where
  "to_client v out = map snd [x \<leftarrow> out. fst x = v]"

lemma to_client_simps [simp]:
  "to_client v [] = []"
  "to_client v ((w, msg) # out) = (if w = v then msg # to_client v out else to_client v out)"
  "to_client v (out @ out') = to_client v out @ to_client v out'"
  by (simp_all add: to_client_def)

lemma to_client_none: "v \<notin> fst ` set out \<Longrightarrow> to_client v out = []"
  by (induction out) auto

lemma to_client_own: "fst ` set out \<subseteq> {v} \<Longrightarrow> to_client v out = map snd out"
  by (induction out) auto

text \<open>
  A body that only sends to the client of its lease: the loop changes every lease as the
  body does, and a client gets the messages of its own lease.
\<close>

lemma lease_loop_all2:
  assumes body: "\<And>k m l l' out k' m'. body k m l = Ok (l', out, k', m') \<Longrightarrow> I k \<Longrightarrow>
      I k' \<and> P l l' (map snd out) \<and> fst ` set out \<subseteq> {lease_client l}
      \<and> lease_client l' = lease_client l"
  shows "lease_loop body k m ls = Ok (ls', out, k', m') \<Longrightarrow> I k \<Longrightarrow>
    distinct (map lease_client ls) \<Longrightarrow>
    I k' \<and> list_all2 (\<lambda>l l'. P l l' (to_client (lease_client l) out)) ls ls'
    \<and> fst ` set out \<subseteq> lease_client ` set ls \<and> map lease_client ls' = map lease_client ls"
proof (induction ls arbitrary: k m ls' out)
  case Nil thus ?case by simp
next
  case (Cons l ls)
  obtain l1 out1 k1 m1 ls2 out2 where b: "body k m l = Ok (l1, out1, k1, m1)"
    and r: "lease_loop body k1 m1 ls = Ok (ls2, out2, k', m')"
    and e: "ls' = l1 # ls2" "out = out1 @ out2"
    using Cons.prems(1) by (auto simp: and_then_Ok)
  have b1: "I k1" "P l l1 (map snd out1)" "fst ` set out1 \<subseteq> {lease_client l}"
    "lease_client l1 = lease_client l"
    using body [OF b Cons.prems(2)] by auto
  have d: "distinct (map lease_client ls)" "lease_client l \<notin> lease_client ` set ls"
    using Cons.prems(3) by auto
  have r1: "I k' \<and> list_all2 (\<lambda>l l'. P l l' (to_client (lease_client l) out2)) ls ls2
    \<and> fst ` set out2 \<subseteq> lease_client ` set ls \<and> map lease_client ls2 = map lease_client ls"
    using Cons.IH r b1(1) d(1) by blast
  have "lease_client l \<notin> fst ` set out2" using r1 d(2) by (meson subsetD)
  hence own: "to_client (lease_client l) out = map snd out1"
    using to_client_own [OF b1(3)] unfolding e to_client_simps by (simp add: to_client_none)
  have "lease_client x \<notin> fst ` set out1" if "x \<in> set ls" for x
  proof -
    have "lease_client x \<noteq> lease_client l" using that d(2) by (metis imageI)
    thus ?thesis using b1(3) by (meson singletonD subsetD)
  qed
  hence "to_client (lease_client x) out1 = []" if "x \<in> set ls" for x
    using that by (simp add: to_client_none)
  hence others: "to_client (lease_client x) out = to_client (lease_client x) out2"
    if "x \<in> set ls" for x
    using that unfolding e to_client_simps by simp
  have "list_all2 (\<lambda>l l'. P l l' (to_client (lease_client l) out)) ls ls2"
    by (rule list.rel_mono_strong [OF conjunct1 [OF conjunct2 [OF r1]]]) (simp add: others)
  moreover have "P l l1 (to_client (lease_client l) out)" using b1(2) own by simp
  moreover have "fst ` set out \<subseteq> lease_client ` set (l # ls)"
    using b1(3) r1 unfolding e by auto
  ultimately show ?case using b1(4) r1 unfolding e(1) by simp
qed

lemma lease_loop_clients:
  assumes "\<And>k m l l' out k' m'. body k m l = Ok (l', out, k', m') \<Longrightarrow>
      lease_client l' = lease_client l"
  shows "lease_loop body k m ls = Ok (ls', out, k', m') \<Longrightarrow>
    map lease_client ls' = map lease_client ls"
  by (induction ls arbitrary: k m ls' out) (auto simp: and_then_Ok dest!: assms)

section \<open>What process_handle does to a lease\<close>

lemma count_leases_simps [simp]:
  "n_shared (count_leases ls) = num_cur SYNC_STATE_SHARED ls"
  "n_exclusive (count_leases ls) = num_cur SYNC_STATE_EXCLUSIVE ls"
  "want_shared (count_leases ls) = num_req SYNC_STATE_SHARED ls"
  "want_exclusive (count_leases ls) = num_req SYNC_STATE_EXCLUSIVE ls"
  by (induction ls rule: rev_induct)
    (simp_all add: count_leases_def no_counts_def count_lease_def Let_def)

lemma send_Ok:
  "send_confirm_upgrade m hid data v s = Ok (out, m') \<Longrightarrow>
     out = [(v, Sync_Msg IPC_MSG_SYNC_CONFIRM_UPGRADE hid s data)]"
  "send_request_downgrade m hid v s = Ok (out, m') \<Longrightarrow>
     out = [(v, Sync_Msg IPC_MSG_SYNC_REQUEST_DOWNGRADE hid s [])]"
  "send_confirm_close m hid v = Ok (out, m') \<Longrightarrow>
     out = [(v, Sync_Msg IPC_MSG_SYNC_CONFIRM_CLOSE hid SYNC_STATE_INVALID [])]"
  by (auto simp: send_confirm_upgrade_def send_request_downgrade_def send_confirm_close_def
      ipc_sync_server_send_def split: prod.splits if_splits)

lemma send_not_failed [simp]:
  "send_confirm_upgrade m hid data v s \<noteq> Assertion_Failed"
  "send_request_downgrade m hid v s \<noteq> Assertion_Failed"
  "send_confirm_close m hid v \<noteq> Assertion_Failed"
  by (auto simp: send_confirm_upgrade_def send_request_downgrade_def send_confirm_close_def
      ipc_sync_server_send_def split: prod.splits)

text \<open>A lease is granted only while no lease of the handle is exclusive.\<close>

definition granted ::
  "u64 \<Rightarrow> u8 list \<Rightarrow> nat \<Rightarrow> server_lease \<Rightarrow> server_lease \<Rightarrow> sync_msg list \<Rightarrow> bool" where
  "granted hid data exclusive l l' msgs \<longleftrightarrow>
     l' = l \<and> msgs = [] \<or>
     exclusive = 0 \<and> lease_client_req l \<in> {SYNC_STATE_SHARED, SYNC_STATE_EXCLUSIVE} \<and>
     l' = l\<lparr>lease_cur := lease_client_req l, lease_client_req := SYNC_STATE_NONE\<rparr> \<and>
     msgs = [Sync_Msg IPC_MSG_SYNC_CONFIRM_UPGRADE hid (lease_client_req l) data]"

definition asked :: "u64 \<Rightarrow> server_lease \<Rightarrow> server_lease \<Rightarrow> sync_msg list \<Rightarrow> bool" where
  "asked hid l l' msgs \<longleftrightarrow>
     l' = l \<and> msgs = [] \<or>
     (\<exists>t. t \<in> {SYNC_STATE_INVALID, SYNC_STATE_SHARED} \<and> t < lease_cur l \<and>
        t \<noteq> lease_server_req l \<and> l' = l\<lparr>lease_server_req := t\<rparr> \<and>
        msgs = [Sync_Msg IPC_MSG_SYNC_REQUEST_DOWNGRADE hid t []])"

definition served ::
  "u64 \<Rightarrow> u8 list \<Rightarrow> nat \<Rightarrow> server_lease \<Rightarrow> server_lease \<Rightarrow> sync_msg list \<Rightarrow> bool" where
  "served hid data exclusive l l' msgs \<longleftrightarrow>
     (\<exists>l1 msgs1 msgs2. granted hid data exclusive l l1 msgs1 \<and> asked hid l1 l' msgs2 \<and>
        msgs = msgs1 @ msgs2)"

lemma upgrade_lease_granted:
  assumes "upgrade_lease hid data k m l = Ok (l', out, k', m')" "e \<le> n_exclusive k"
  shows "e \<le> n_exclusive k' \<and> granted hid data e l l' (map snd out)
    \<and> fst ` set out \<subseteq> {lease_client l} \<and> lease_client l' = lease_client l"
  using assms unfolding upgrade_lease_def granted_def
  by (auto simp: outcome_simps dest!: send_Ok split: if_splits)

lemma askedI:
  assumes "t = SYNC_STATE_INVALID \<or> t = SYNC_STATE_SHARED" "t < lease_cur l"
    and "t \<noteq> lease_server_req l" and "and_then (send_request_downgrade m hid (lease_client l) t)
      (\<lambda>(out, m). Ok (l\<lparr>lease_server_req := t\<rparr>, out, k, m)) = Ok (l', out, k', m')"
  shows "asked hid l l' (map snd out) \<and> fst ` set out \<subseteq> {lease_client l}
    \<and> lease_client l' = lease_client l"
proof -
  obtain o1 m1 where o: "send_request_downgrade m hid (lease_client l) t = Ok (o1, m1)"
    using assms(4) by (cases "send_request_downgrade m hid (lease_client l) t") auto
  hence "l' = l\<lparr>lease_server_req := t\<rparr>" "out = o1" using assms(4) by simp_all
  thus ?thesis using assms(1-3) send_Ok(2) [OF o] unfolding asked_def by simp
qed

lemma ask_asked:
  assumes "ask_invalid hid k m l = Ok (l', out, k', m') \<or>
    ask_shared hid k m l = Ok (l', out, k', m')"
  shows "asked hid l l' (map snd out) \<and> fst ` set out \<subseteq> {lease_client l}
    \<and> lease_client l' = lease_client l"
proof -
  have no: ?thesis if "Ok (l, [], k, m) = Ok (l', out, k', m')"
    using that by (simp add: asked_def)
  have i: "SYNC_STATE_INVALID < lease_cur l"
    if "lease_cur l = SYNC_STATE_SHARED \<or> lease_cur l = SYNC_STATE_EXCLUSIVE"
    using that by (auto simp: sync_state_order)
  have s: "SYNC_STATE_SHARED < lease_cur l" if "lease_cur l = SYNC_STATE_EXCLUSIVE"
    using that by (simp add: sync_state_order)
  show ?thesis using assms
  proof
    assume "ask_invalid hid k m l = Ok (l', out, k', m')"
    thus ?thesis unfolding ask_invalid_def
      by (simp only: split: if_split_asm)
        (rule askedI [OF disjI1 [OF refl] i], assumption, erule not_sym, assumption, erule no)
  next
    assume "ask_shared hid k m l = Ok (l', out, k', m')"
    thus ?thesis unfolding ask_shared_def
      by (simp only: split: if_split_asm)
        (rule askedI [OF disjI2 [OF refl] s], assumption, erule not_sym, assumption, erule no)
  qed
qed

text \<open>The two ways \<open>process_handle\<close> ends: with or without a downgrade loop.\<close>

lemma process_handle_Ok:
  assumes "process_handle m hid h = Ok (h', out, m')"
  obtains ls k m1 g a where
    "lease_loop (upgrade_lease hid (srv_data h)) (count_leases (srv_leases h)) m
       (srv_leases h) = Ok (ls, g, k, m1)"
    "out = g @ a" "srv_data h' = srv_data h"
    "(if want_exclusive k \<noteq> 0 then \<exists>k'. lease_loop (ask_invalid hid) k m1 ls =
        Ok (srv_leases h', a, k', m')
      else if want_shared k \<noteq> 0 then \<exists>k'. lease_loop (ask_shared hid) k m1 ls =
        Ok (srv_leases h', a, k', m')
      else srv_leases h' = ls \<and> a = [])"
proof -
  obtain ls g k m1 where g: "lease_loop (upgrade_lease hid (srv_data h))
      (count_leases (srv_leases h)) m (srv_leases h) = Ok (ls, g, k, m1)"
    using assms by (auto simp: process_handle_def and_then_Ok)
  note u = assms [unfolded process_handle_def g and_then.simps prod.case]
  show ?thesis
  proof (cases "want_exclusive k \<noteq> 0")
    case True
    thus ?thesis using u by (auto simp: and_then_Ok intro!: that [OF g])
  next
    case False
    thus ?thesis using u
      by (cases "want_shared k \<noteq> 0") (auto simp: and_then_Ok intro!: that [OF g])
  qed
qed

lemma asks_asked:
  assumes "if a then \<exists>k'. lease_loop (ask_invalid hid) k m ls = Ok (ls', out, k', m')
    else if b then \<exists>k'. lease_loop (ask_shared hid) k m ls = Ok (ls', out, k', m')
    else ls' = ls \<and> out = []"
    and d: "distinct (map lease_client ls)"
  shows "list_all2 (\<lambda>l l'. asked hid l l' (to_client (lease_client l) out)) ls ls'
    \<and> fst ` set out \<subseteq> lease_client ` set ls \<and> map lease_client ls' = map lease_client ls"
proof -
  have inv: ?thesis if "lease_loop (ask_invalid hid) k m ls = Ok (ls', out, k', m')" for k'
    by (rule conjunct2 [OF lease_loop_all2 [where I = "\<lambda>_. True" and P = "asked hid",
            OF _ that TrueI d]])
      (drule ask_asked [OF disjI1], simp)
  have shr: ?thesis if "lease_loop (ask_shared hid) k m ls = Ok (ls', out, k', m')" for k'
    by (rule conjunct2 [OF lease_loop_all2 [where I = "\<lambda>_. True" and P = "asked hid",
            OF _ that TrueI d]])
      (drule ask_asked [OF disjI2], simp)
  have none: ?thesis if "ls' = ls" "out = []"
    using that by (auto simp: asked_def list_all2_same)
  show ?thesis using assms(1) inv shr none by (cases a; cases b) (simp_all, blast+)
qed

lemma process_handle_served:
  assumes ok: "process_handle m hid h = Ok (h', out, m')"
    and d: "distinct (map lease_client (srv_leases h))"
  shows "srv_data h' = srv_data h"
    "list_all2 (\<lambda>l l'. served hid (srv_data h) (num_cur SYNC_STATE_EXCLUSIVE (srv_leases h)) l l'
        (to_client (lease_client l) out)) (srv_leases h) (srv_leases h')"
    "fst ` set out \<subseteq> lease_client ` set (srv_leases h)"
    "map lease_client (srv_leases h') = map lease_client (srv_leases h)"
proof -
  let ?e = "num_cur SYNC_STATE_EXCLUSIVE (srv_leases h)"
  obtain ls k m1 g a where g: "lease_loop (upgrade_lease hid (srv_data h))
      (count_leases (srv_leases h)) m (srv_leases h) = Ok (ls, g, k, m1)"
    and out: "out = g @ a" and data: "srv_data h' = srv_data h"
    and asks: "if want_exclusive k \<noteq> 0 then \<exists>k'. lease_loop (ask_invalid hid) k m1 ls =
        Ok (srv_leases h', a, k', m')
      else if want_shared k \<noteq> 0 then \<exists>k'. lease_loop (ask_shared hid) k m1 ls =
        Ok (srv_leases h', a, k', m')
      else srv_leases h' = ls \<and> a = []"
    by (rule process_handle_Ok [OF ok])
  have 1: "?e \<le> n_exclusive k \<and>
    list_all2 (\<lambda>l l'. granted hid (srv_data h) ?e l l' (to_client (lease_client l) g))
      (srv_leases h) ls \<and> fst ` set g \<subseteq> lease_client ` set (srv_leases h)
    \<and> map lease_client ls = map lease_client (srv_leases h)"
    by (rule lease_loop_all2 [where I = "\<lambda>k. ?e \<le> n_exclusive k", OF _ g _ d])
      (drule (1) upgrade_lease_granted, simp, simp)
  hence dls: "distinct (map lease_client ls)" using d by simp
  note 2 = asks_asked [OF asks dls]
  show "srv_data h' = srv_data h" by (rule data)
  show "map lease_client (srv_leases h') = map lease_client (srv_leases h)" using 1 2 by simp
  have "lease_client ` set ls = lease_client ` set (srv_leases h)"
    using 1 by (metis list.set_map)
  hence "fst ` set a \<subseteq> lease_client ` set (srv_leases h)" using 2 by simp
  thus "fst ` set out \<subseteq> lease_client ` set (srv_leases h)"
    unfolding out using 1 by (simp add: image_Un)
  have len: "length ls = length (srv_leases h)" "length (srv_leases h') = length ls"
    using 1 2 by (metis length_map)+
  have c: "lease_client (ls ! i) = lease_client (srv_leases h ! i)"
    if "i < length (srv_leases h)" for i
    using arg_cong [where f = "\<lambda>xs. xs ! i",
        OF conjunct2 [OF conjunct2 [OF conjunct2 [OF 1]]]] that len by simp
  show "list_all2 (\<lambda>l l'. served hid (srv_data h) ?e l l' (to_client (lease_client l) out))
      (srv_leases h) (srv_leases h')"
    unfolding list_all2_conv_all_nth
  proof (intro conjI allI impI)
    show "length (srv_leases h) = length (srv_leases h')" using len by simp
    fix i assume i: "i < length (srv_leases h)"
    have "granted hid (srv_data h) ?e (srv_leases h ! i) (ls ! i)
        (to_client (lease_client (srv_leases h ! i)) g)"
      using 1 i by (simp add: list_all2_conv_all_nth)
    moreover have "asked hid (ls ! i) (srv_leases h' ! i)
        (to_client (lease_client (srv_leases h ! i)) a)"
      using list_all2_nthD [OF conjunct1 [OF 2], of i] i c [OF i] len by simp
    ultimately show "served hid (srv_data h) ?e (srv_leases h ! i) (srv_leases h' ! i)
        (to_client (lease_client (srv_leases h ! i)) out)"
      unfolding served_def out to_client_simps by blast
  qed
qed

section \<open>The counters, exclusion and progress\<close>

text \<open>
  The counters \<open>k\<close> describe a list of leases of which \<open>ls\<close> is a part; \<open>r\<close> are the counts of
  the rest.
\<close>

definition counted :: "counts \<Rightarrow> counts \<Rightarrow> server_lease list \<Rightarrow> bool" where
  "counted k r ls \<longleftrightarrow>
     n_shared k = n_shared r + num_cur SYNC_STATE_SHARED ls \<and>
     n_exclusive k = n_exclusive r + num_cur SYNC_STATE_EXCLUSIVE ls \<and>
     want_shared k = want_shared r + num_req SYNC_STATE_SHARED ls \<and>
     want_exclusive k = want_exclusive r + num_req SYNC_STATE_EXCLUSIVE ls"

definition counts_ok :: "counts \<Rightarrow> bool" where
  "counts_ok k \<longleftrightarrow> exclusion (n_shared k) (n_exclusive k)"

text \<open>A request that cannot be granted, given the counters.\<close>

definition blocked :: "counts \<Rightarrow> server_lease \<Rightarrow> bool" where
  "blocked k l \<longleftrightarrow>
     (lease_client_req l = SYNC_STATE_SHARED \<longrightarrow> n_exclusive k \<noteq> 0) \<and>
     (lease_client_req l = SYNC_STATE_EXCLUSIVE \<longrightarrow>
        n_exclusive k \<noteq> 0 \<or> n_shared k \<ge> 2 \<or>
        n_shared k = 1 \<and> lease_cur l \<noteq> SYNC_STATE_SHARED)"

lemma counted_cons:
  "counted k r (l # ls) \<longleftrightarrow> counted k (foldl count_lease r ls) [l]"
  "counted k r (l # ls) \<longleftrightarrow> counted k (count_lease r l) ls"
proof -
  have f: "n_shared (foldl count_lease r ls) = n_shared r + num_cur SYNC_STATE_SHARED ls"
    "n_exclusive (foldl count_lease r ls) = n_exclusive r + num_cur SYNC_STATE_EXCLUSIVE ls"
    "want_shared (foldl count_lease r ls) = want_shared r + num_req SYNC_STATE_SHARED ls"
    "want_exclusive (foldl count_lease r ls) = want_exclusive r + num_req SYNC_STATE_EXCLUSIVE ls"
    for ls
    by (induction ls rule: rev_induct) (simp_all add: count_lease_def Let_def)
  show "counted k r (l # ls) \<longleftrightarrow> counted k (foldl count_lease r ls) [l]"
    unfolding counted_def f by (auto split: if_splits)
  show "counted k r (l # ls) \<longleftrightarrow> counted k (count_lease r l) ls"
    unfolding counted_def using f [of "[l]"] by (auto split: if_splits)
qed

lemma upgrade_lease_cases:
  assumes "upgrade_lease hid data k m l = Ok (l', out, k', m')"
  obtains
    (shared) "lease_client_req l = SYNC_STATE_SHARED" "n_exclusive k = 0"
      "lease_cur l = SYNC_STATE_INVALID"
      "l' = l\<lparr>lease_cur := SYNC_STATE_SHARED, lease_client_req := SYNC_STATE_NONE\<rparr>"
      "k' = k\<lparr>want_shared := want_shared k - 1, n_shared := n_shared k + 1\<rparr>"
  | (exclusive) "lease_client_req l = SYNC_STATE_EXCLUSIVE" "n_exclusive k = 0"
      "n_shared k = 0" "lease_cur l = SYNC_STATE_INVALID"
      "l' = l\<lparr>lease_cur := SYNC_STATE_EXCLUSIVE, lease_client_req := SYNC_STATE_NONE\<rparr>"
      "k' = k\<lparr>want_exclusive := want_exclusive k - 1, n_exclusive := n_exclusive k + 1\<rparr>"
  | (promoted) "lease_client_req l = SYNC_STATE_EXCLUSIVE" "n_exclusive k = 0"
      "n_shared k = 1" "lease_cur l = SYNC_STATE_SHARED"
      "l' = l\<lparr>lease_cur := SYNC_STATE_EXCLUSIVE, lease_client_req := SYNC_STATE_NONE\<rparr>"
      "k' = k\<lparr>want_exclusive := want_exclusive k - 1, n_exclusive := n_exclusive k + 1,
             n_shared := n_shared k - 1\<rparr>"
  | (unchanged) "l' = l" "k' = k" "blocked k l"
proof -
  let ?a = "lease_client_req l = SYNC_STATE_SHARED \<and> n_exclusive k = 0"
  let ?b = "lease_client_req l = SYNC_STATE_EXCLUSIVE \<and> n_exclusive k = 0 \<and> n_shared k = 0"
  let ?c = "lease_client_req l = SYNC_STATE_EXCLUSIVE \<and> n_exclusive k = 0 \<and> n_shared k = 1
    \<and> lease_cur l = SYNC_STATE_SHARED"
  consider (a) ?a | (b) ?b | (c) ?c | (d) "\<not> ?a" "\<not> ?b" "\<not> ?c" by argo
  thus ?thesis
  proof cases
    case a
    thus ?thesis using assms that(1) by (auto simp: upgrade_lease_def outcome_simps)
  next
    case b
    thus ?thesis using assms that(2) by (auto simp: upgrade_lease_def outcome_simps)
  next
    case c
    thus ?thesis using assms that(3) by (auto simp: upgrade_lease_def outcome_simps)
  next
    case d
    hence "l' = l" "k' = k" using assms
      unfolding upgrade_lease_def if_not_P [OF d(1)] if_not_P [OF d(2)] if_not_P [OF d(3)]
      by simp_all
    moreover have "blocked k l" using d unfolding blocked_def by auto
    ultimately show ?thesis by (rule that(4))
  qed
qed

lemma upgrade_lease_counted:
  assumes ok: "upgrade_lease hid data k m l = Ok (l', out, k', m')" and l: "lease_ok l"
    and c: "counted k r [l]" "counts_ok k"
  shows "counted k' r [l']" "counts_ok k'" "lease_ok l'" "blocked k' l'"
    "blocked k x \<Longrightarrow> blocked k' x"
proof -
  note defs = counted_def counts_ok_def exclusion_def lease_ok_def
  from ok have "counted k' r [l'] \<and> counts_ok k' \<and> lease_ok l'"
    by (cases rule: upgrade_lease_cases) (use l c in \<open>auto simp: defs sync_state_order\<close>)
  thus "counted k' r [l']" "counts_ok k'" "lease_ok l'" by blast+
  from ok show "blocked k' l'" by (cases rule: upgrade_lease_cases) (auto simp: blocked_def)
  from ok show "blocked k x \<Longrightarrow> blocked k' x"
    by (cases rule: upgrade_lease_cases) (auto simp: blocked_def)
qed

lemma upgrade_lease_asserts:
  assumes "lease_ok l" "counted k r [l]"
  shows "upgrade_lease hid data k m l \<noteq> Assertion_Failed"
proof (cases "lease_cur l")
  case SYNC_STATE_SHARED
  thus ?thesis using assms unfolding upgrade_lease_def lease_ok_def counted_def
    by (auto simp: outcome_simps sync_state_order)
qed (use assms in \<open>auto simp: upgrade_lease_def lease_ok_def outcome_simps sync_state_order\<close>)

lemma upgrade_loop_counted:
  assumes "lease_loop (upgrade_lease hid data) k m ls = Ok (ls', out, k', m')"
    and "\<forall>l\<in>set ls. lease_ok l" "counted k r ls" "counts_ok k"
  shows "counted k' r ls' \<and> counts_ok k' \<and> (\<forall>l\<in>set ls'. lease_ok l \<and> blocked k' l)
    \<and> (\<forall>x. blocked k x \<longrightarrow> blocked k' x)"
  using assms
proof (induction ls arbitrary: k m r ls' out)
  case Nil thus ?case by simp
next
  case (Cons l ls)
  obtain l1 out1 k1 m1 ls2 out2 where b: "upgrade_lease hid data k m l = Ok (l1, out1, k1, m1)"
    and t: "lease_loop (upgrade_lease hid data) k1 m1 ls = Ok (ls2, out2, k', m')"
    and e: "ls' = l1 # ls2"
    using Cons.prems(1) by (auto simp: and_then_Ok)
  have l: "lease_ok l" "\<forall>l\<in>set ls. lease_ok l" using Cons.prems(2) by auto
  note c = counted_cons(1) [THEN iffD1, OF Cons.prems(3)]
  note s = upgrade_lease_counted [OF b l(1) c Cons.prems(4)]
  have c1: "counted k1 (count_lease r l1) ls"
    by (rule counted_cons(2) [THEN iffD1, OF counted_cons(1) [THEN iffD2, OF s(1)]])
  note i = Cons.IH [OF t l(2) c1 s(2)]
  have "counted k' r ls'"
    unfolding e by (rule counted_cons(2) [THEN iffD2, OF conjunct1 [OF i]])
  thus ?case using i s(3-5) unfolding e by simp
qed

lemma upgrade_loop_asserts:
  assumes "\<forall>l\<in>set ls. lease_ok l" "counted k r ls" "counts_ok k"
  shows "lease_loop (upgrade_lease hid data) k m ls \<noteq> Assertion_Failed"
  using assms
proof (induction ls arbitrary: k m r)
  case Nil thus ?case by simp
next
  case (Cons l ls)
  have l: "lease_ok l" "\<forall>l\<in>set ls. lease_ok l" using Cons.prems(1) by auto
  note c = counted_cons(1) [THEN iffD1, OF Cons.prems(2)]
  have "lease_loop (upgrade_lease hid data) k1 m1 ls \<noteq> Assertion_Failed"
    if b: "upgrade_lease hid data k m l = Ok (l1, out1, k1, m1)" for l1 out1 k1 m1
  proof -
    note s = upgrade_lease_counted [OF b l(1) c Cons.prems(3)]
    have "counted k1 (count_lease r l1) ls"
      by (rule counted_cons(2) [THEN iffD1, OF counted_cons(1) [THEN iffD2, OF s(1)]])
    thus ?thesis by (rule Cons.IH [OF l(2) _ s(2)])
  qed
  thus ?case using upgrade_lease_asserts [OF l(1) c, of hid data m]
    by (auto simp: and_then_failed split: prod.splits)
qed

lemma ask_loop_asserts:
  "lease_loop (ask_invalid hid) k m ls \<noteq> Assertion_Failed"
  "lease_loop (ask_shared hid) k m ls \<noteq> Assertion_Failed"
proof -
  have a: "ask_invalid hid k m l \<noteq> Assertion_Failed" "ask_shared hid k m l \<noteq> Assertion_Failed"
    for k m l
    by (auto simp: ask_invalid_def ask_shared_def and_then_failed)
  show "lease_loop (ask_invalid hid) k m ls \<noteq> Assertion_Failed"
    by (induction ls arbitrary: k m) (auto simp: and_then_failed a)
  show "lease_loop (ask_shared hid) k m ls \<noteq> Assertion_Failed"
    by (induction ls arbitrary: k m) (auto simp: and_then_failed a)
qed

lemma leases_counted:
  assumes "leases_ok ls"
  shows "counted (count_leases ls) no_counts ls" "counts_ok (count_leases ls)"
    "\<forall>l\<in>set ls. lease_ok l"
  using assms by (simp_all add: counted_def counts_ok_def leases_ok_def no_counts_def)

lemma process_handle_asserts:
  assumes "leases_ok (srv_leases h)"
  shows "process_handle m hid h \<noteq> Assertion_Failed"
  using upgrade_loop_asserts [OF leases_counted(3,1,2) [OF assms], of hid "srv_data h" m]
    ask_loop_asserts
  by (auto simp: process_handle_def and_then_failed split: if_splits)

text \<open>The downgrade loops only touch \<open>server_req_state\<close>, and set it where they should.\<close>

lemma asked_fields:
  assumes "asked hid l l' msgs"
  shows "lease_cur l' = lease_cur l" "lease_client_req l' = lease_client_req l"
    "lease_client l' = lease_client l" "lease_ok l \<Longrightarrow> lease_ok l'"
  using assms by (auto simp: asked_def lease_ok_def)

lemma asked_leases:
  assumes "list_all2 (\<lambda>l l'. asked hid l l' (f l)) ls ls'"
  shows "num_cur s ls' = num_cur s ls" "num_req s ls' = num_req s ls"
    "(\<forall>l\<in>set ls. lease_ok l) \<Longrightarrow> (\<forall>l\<in>set ls'. lease_ok l)"
    "(\<forall>l\<in>set ls. blocked k l) \<Longrightarrow> (\<forall>l\<in>set ls'. blocked k l)"
  using assms by (induction) (auto dest: asked_fields simp: blocked_def)

lemma lease_loop_each:
  assumes "\<And>k m l l' out k' m'. body k m l = Ok (l', out, k', m') \<Longrightarrow> Q l'"
  shows "lease_loop body k m ls = Ok (ls', out, k', m') \<Longrightarrow> l \<in> set ls' \<Longrightarrow> Q l"
  by (induction ls arbitrary: k m ls' out) (auto simp: and_then_Ok dest: assms)

lemma ask_invalid_all:
  assumes "lease_loop (ask_invalid hid) k m ls = Ok (ls', out, k', m')" "l \<in> set ls'"
  shows "lease_cur l \<in> {SYNC_STATE_SHARED, SYNC_STATE_EXCLUSIVE} \<longrightarrow>
     lease_server_req l = SYNC_STATE_INVALID"
  by (rule lease_loop_each [OF _ assms]) (auto simp: and_then_Ok ask_invalid_def split: if_splits)

lemma ask_shared_all:
  assumes "lease_loop (ask_shared hid) k m ls = Ok (ls', out, k', m')" "l \<in> set ls'"
  shows "lease_cur l = SYNC_STATE_EXCLUSIVE \<longrightarrow>
     lease_server_req l \<in> {SYNC_STATE_SHARED, SYNC_STATE_INVALID}"
  by (rule lease_loop_each [OF _ assms]) (auto simp: and_then_Ok ask_shared_def split: if_splits)

text \<open>The result of \<open>process_handle\<close>: well-formed leases, and every waiting request is blocked.\<close>

lemma process_handle_counted:
  assumes ok: "process_handle m hid h = Ok (h', out, m')" and h: "leases_ok (srv_leases h)"
  obtains k where "leases_ok (srv_leases h')" "counted k no_counts (srv_leases h')"
    "counts_ok k" "\<forall>l\<in>set (srv_leases h'). blocked k l"
    "want_exclusive k \<noteq> 0 \<longrightarrow> (\<forall>l\<in>set (srv_leases h').
       lease_cur l \<in> {SYNC_STATE_SHARED, SYNC_STATE_EXCLUSIVE} \<longrightarrow>
       lease_server_req l = SYNC_STATE_INVALID)"
    "want_exclusive k = 0 \<and> want_shared k \<noteq> 0 \<longrightarrow> (\<forall>l\<in>set (srv_leases h').
       lease_cur l = SYNC_STATE_EXCLUSIVE \<longrightarrow>
       lease_server_req l \<in> {SYNC_STATE_SHARED, SYNC_STATE_INVALID})"
proof -
  obtain ls k m1 g a where g: "lease_loop (upgrade_lease hid (srv_data h))
      (count_leases (srv_leases h)) m (srv_leases h) = Ok (ls, g, k, m1)"
    and asks: "if want_exclusive k \<noteq> 0 then \<exists>k'. lease_loop (ask_invalid hid) k m1 ls =
        Ok (srv_leases h', a, k', m')
      else if want_shared k \<noteq> 0 then \<exists>k'. lease_loop (ask_shared hid) k m1 ls =
        Ok (srv_leases h', a, k', m')
      else srv_leases h' = ls \<and> a = []"
    by (rule process_handle_Ok [OF ok])
  note u = upgrade_loop_counted [OF g leases_counted(3,1,2) [OF h]]
  have d: "distinct (map lease_client (srv_leases h))" using h by (simp add: leases_ok_def)
  have "map lease_client ls = map lease_client (srv_leases h)"
    by (rule lease_loop_clients [OF _ g]) (drule upgrade_lease_granted [of _ _ _ _ _ _ _ _ _ 0], simp_all)
  hence dls: "distinct (map lease_client ls)" using d by simp
  note 2 = asks_asked [OF asks dls]
  note f = asked_leases [OF conjunct1 [OF 2]]
  have c: "counted k no_counts (srv_leases h')" using u f(1,2) by (simp add: counted_def)
  have "distinct (map lease_client (srv_leases h'))" using 2 dls by simp
  moreover have "exclusion (num_cur SYNC_STATE_SHARED (srv_leases h'))
      (num_cur SYNC_STATE_EXCLUSIVE (srv_leases h'))"
    using conjunct1 [OF conjunct2 [OF u]] c
    by (simp add: counted_def counts_ok_def no_counts_def)
  moreover have "\<forall>l\<in>set (srv_leases h'). lease_ok l" by (rule f(3)) (use u in blast)
  ultimately have ok': "leases_ok (srv_leases h')" by (simp add: leases_ok_def)
  have b: "\<forall>l\<in>set (srv_leases h'). blocked k l" by (rule f(4)) (use u in blast)
  have i: "\<forall>l\<in>set (srv_leases h'). lease_cur l \<in> {SYNC_STATE_SHARED, SYNC_STATE_EXCLUSIVE} \<longrightarrow>
       lease_server_req l = SYNC_STATE_INVALID" if w: "want_exclusive k \<noteq> 0"
  proof -
    obtain k' where "lease_loop (ask_invalid hid) k m1 ls = Ok (srv_leases h', a, k', m')"
      using asks w by (metis (no_types))
    thus ?thesis using ask_invalid_all by blast
  qed
  have j: "\<forall>l\<in>set (srv_leases h'). lease_cur l = SYNC_STATE_EXCLUSIVE \<longrightarrow>
       lease_server_req l \<in> {SYNC_STATE_SHARED, SYNC_STATE_INVALID}"
    if w: "want_exclusive k = 0" "want_shared k \<noteq> 0"
  proof -
    obtain k' where "lease_loop (ask_shared hid) k m1 ls = Ok (srv_leases h', a, k', m')"
      using asks w by auto
    thus ?thesis using ask_shared_all by blast
  qed
  show ?thesis
    by (rule that [OF ok' c conjunct1 [OF conjunct2 [OF u]] b]) (use i j in blast)+
qed

lemma num_cur_other:
  assumes "2 \<le> num_cur s ls" "distinct ls"
  shows "\<exists>x\<in>set ls. x \<noteq> l \<and> lease_cur x = s"
proof (rule ccontr)
  assume "\<not> ?thesis"
  hence "set [x \<leftarrow> ls. lease_cur x = s] \<subseteq> {l}" by auto
  hence "card (set [x \<leftarrow> ls. lease_cur x = s]) \<le> card {l}" by (rule card_mono [rotated]) simp
  thus False using assms distinct_card [OF distinct_filter [OF assms(2)]]
    unfolding num_cur_def by (metis One_nat_def Suc_1 card.empty card_insert_disjoint
        equals0D finite.emptyI not_less_eq_eq)
qed

lemma blocked_conflict:
  assumes ls: "leases_ok ls" and k: "counted k no_counts ls" and l: "l \<in> set ls" "blocked k l"
  shows "lease_client_req l = SYNC_STATE_SHARED \<Longrightarrow> \<exists>x\<in>set ls. lease_cur x = SYNC_STATE_EXCLUSIVE"
    "lease_client_req l = SYNC_STATE_EXCLUSIVE \<Longrightarrow> \<exists>x\<in>set ls. x \<noteq> l \<and>
       lease_cur x \<in> {SYNC_STATE_SHARED, SYNC_STATE_EXCLUSIVE}"
proof -
  have n: "n_exclusive k = num_cur SYNC_STATE_EXCLUSIVE ls"
    "n_shared k = num_cur SYNC_STATE_SHARED ls"
    using k by (simp_all add: counted_def no_counts_def)
  show "\<exists>x\<in>set ls. lease_cur x = SYNC_STATE_EXCLUSIVE"
    if "lease_client_req l = SYNC_STATE_SHARED"
    using l(2) that num_cur_0 [of SYNC_STATE_EXCLUSIVE ls] unfolding blocked_def n by auto
  assume e: "lease_client_req l = SYNC_STATE_EXCLUSIVE"
  have ne: "lease_cur l \<noteq> SYNC_STATE_EXCLUSIVE"
    using ls l(1) e by (auto simp: leases_ok_def lease_ok_def)
  have "distinct ls" using ls by (simp add: leases_ok_def distinct_map)
  note two = num_cur_other [OF _ this, of SYNC_STATE_SHARED l]
  consider "num_cur SYNC_STATE_EXCLUSIVE ls \<noteq> 0" | "num_cur SYNC_STATE_SHARED ls \<ge> 2"
    | "num_cur SYNC_STATE_SHARED ls = 1" "lease_cur l \<noteq> SYNC_STATE_SHARED"
    using l(2) e unfolding blocked_def n by auto
  thus "\<exists>x\<in>set ls. x \<noteq> l \<and> lease_cur x \<in> {SYNC_STATE_SHARED, SYNC_STATE_EXCLUSIVE}"
  proof cases
    case 1
    then obtain x where "x \<in> set ls" "lease_cur x = SYNC_STATE_EXCLUSIVE"
      unfolding num_cur_0 by blast
    moreover from this ne have "x \<noteq> l" by auto
    ultimately show ?thesis by blast
  next
    case 2
    thus ?thesis using two by blast
  next
    case 3
    thus ?thesis using num_cur_0 [of SYNC_STATE_SHARED ls] by auto
  qed
qed

lemma process_handle_requests:
  assumes ok: "process_handle m hid h = Ok (h', out, m')" and h: "leases_ok (srv_leases h)"
    and l: "l \<in> set (srv_leases h')"
  shows "lease_client_req l = SYNC_STATE_SHARED \<Longrightarrow> \<exists>x\<in>set (srv_leases h').
      lease_cur x = SYNC_STATE_EXCLUSIVE \<and>
      lease_server_req x \<in> {SYNC_STATE_SHARED, SYNC_STATE_INVALID}"
    and "lease_client_req l = SYNC_STATE_EXCLUSIVE \<Longrightarrow>
      (\<exists>x\<in>set (srv_leases h'). x \<noteq> l \<and>
        lease_cur x \<in> {SYNC_STATE_SHARED, SYNC_STATE_EXCLUSIVE}) \<and>
      (\<forall>x\<in>set (srv_leases h').
        lease_cur x \<in> {SYNC_STATE_SHARED, SYNC_STATE_EXCLUSIVE} \<longrightarrow>
        lease_server_req x = SYNC_STATE_INVALID)"
proof -
  obtain k where k: "leases_ok (srv_leases h')" "counted k no_counts (srv_leases h')"
    "\<forall>l\<in>set (srv_leases h'). blocked k l"
    and e: "want_exclusive k \<noteq> 0 \<longrightarrow> (\<forall>l\<in>set (srv_leases h').
       lease_cur l \<in> {SYNC_STATE_SHARED, SYNC_STATE_EXCLUSIVE} \<longrightarrow>
       lease_server_req l = SYNC_STATE_INVALID)"
    and s: "want_exclusive k = 0 \<and> want_shared k \<noteq> 0 \<longrightarrow> (\<forall>l\<in>set (srv_leases h').
       lease_cur l = SYNC_STATE_EXCLUSIVE \<longrightarrow>
       lease_server_req l \<in> {SYNC_STATE_SHARED, SYNC_STATE_INVALID})"
    by (rule process_handle_counted [OF ok h])
  note c = blocked_conflict [OF k(1,2) l k(3) [rule_format, OF l]]
  have w: "want_shared k = num_req SYNC_STATE_SHARED (srv_leases h')"
    "want_exclusive k = num_req SYNC_STATE_EXCLUSIVE (srv_leases h')"
    using k(2) by (simp_all add: counted_def no_counts_def)
  {
    assume r: "lease_client_req l = SYNC_STATE_SHARED"
    then obtain x where x: "x \<in> set (srv_leases h')" "lease_cur x = SYNC_STATE_EXCLUSIVE"
      using c(1) by blast
    have "want_shared k \<noteq> 0" unfolding w using r l num_req_0 by blast
    hence "lease_server_req x \<in> {SYNC_STATE_SHARED, SYNC_STATE_INVALID}"
      using e s x by (cases "want_exclusive k = 0") auto
    thus "\<exists>x\<in>set (srv_leases h'). lease_cur x = SYNC_STATE_EXCLUSIVE \<and>
      lease_server_req x \<in> {SYNC_STATE_SHARED, SYNC_STATE_INVALID}" using x by blast
  next
    assume r: "lease_client_req l = SYNC_STATE_EXCLUSIVE"
    hence "want_exclusive k \<noteq> 0" unfolding w using l num_req_0 by blast
    thus "(\<exists>x\<in>set (srv_leases h'). x \<noteq> l \<and>
        lease_cur x \<in> {SYNC_STATE_SHARED, SYNC_STATE_EXCLUSIVE}) \<and>
      (\<forall>x\<in>set (srv_leases h').
        lease_cur x \<in> {SYNC_STATE_SHARED, SYNC_STATE_EXCLUSIVE} \<longrightarrow>
        lease_server_req x = SYNC_STATE_INVALID)"
      using e c(2) [OF r] by blast
  }
qed

text \<open>
  The messages to each client: a confirmation with the data if its lease was upgraded, then a
  request to downgrade if one was recorded, and nothing else.
\<close>

definition lease_news :: "u64 \<Rightarrow> u8 list \<Rightarrow> server_lease \<Rightarrow> server_lease \<Rightarrow> sync_msg list" where
  "lease_news hid data l l' =
     (if lease_cur l' \<noteq> lease_cur l
      then [Sync_Msg IPC_MSG_SYNC_CONFIRM_UPGRADE hid (lease_cur l') data] else []) @
     (if lease_server_req l' \<noteq> lease_server_req l
      then [Sync_Msg IPC_MSG_SYNC_REQUEST_DOWNGRADE hid (lease_server_req l') []] else [])"

lemma served_news:
  assumes "served hid data e l l' msgs" "lease_ok l" shows "msgs = lease_news hid data l l'"
  using assms by (auto simp: served_def granted_def asked_def lease_news_def lease_ok_def)

lemma process_handle_news:
  assumes "process_handle m hid h = Ok (h', out, m')" "leases_ok (srv_leases h)"
  shows "list_all2 (\<lambda>l l'. lease_client l' = lease_client l \<and>
      to_client (lease_client l) out = lease_news hid (srv_data h) l l') (srv_leases h) (srv_leases h')"
proof -
  have d: "distinct (map lease_client (srv_leases h))" using assms(2) by (simp add: leases_ok_def)
  note p = process_handle_served [OF assms(1) d]
  have "lease_client (srv_leases h' ! i) = lease_client (srv_leases h ! i)"
    if "i < length (srv_leases h)" for i
    using arg_cong [OF p(4), where f = "\<lambda>xs. xs ! i"] that list_all2_lengthD [OF p(2)] by simp
  moreover have "lease_ok (srv_leases h ! i)" if "i < length (srv_leases h)" for i
    using assms(2) that by (simp add: leases_ok_def)
  ultimately show ?thesis using p(2) served_news unfolding list_all2_conv_all_nth by blast
qed

end
