(* ===== verification/Sync_Client.thy ===== *)
theory Sync_Client
  imports Sync_Server
begin

text \<open>
  The client side of the sync engine (\<open>libos_sync_client.c\<close>). A process has a table of
  handles. The functions that wait are split at \<open>sync_wait_without_lock\<close>, which releases
  the lock of the handle: each part runs with \<open>prop_lock\<close> held, so it is one step, and the
  other threads and the message handlers run in between. \<open>use_lock\<close> admits one thread at a
  time from \<open>sync_lock\<close> to \<open>sync_unlock\<close>; what that thread is doing is kept in the handle.
\<close>

section \<open>Handles\<close>

datatype sync_phase = SYNC_PHASE_NEW | SYNC_PHASE_OPEN | SYNC_PHASE_CLOSING | SYNC_PHASE_CLOSED

text \<open>
  The owner of \<open>use_lock\<close>: nobody, a thread that waits in \<open>sync_lock\<close> for a state (with the
  size of its buffer), or a thread that has returned from it (with the data it was given, if
  \<open>sync_lock\<close> returned true).
\<close>

datatype lock_thread =
    Unlocked | Waiting sync_state nat | Locked sync_state "u8 list option"

text \<open>A thread that waits for the handle to be closed.\<close>

datatype close_thread = Nobody | In_Destroy | In_Shutdown

record sync_handle =
  sh_data :: "u8 list"
  sh_event :: bool
  sh_waiters :: nat
  sh_used :: bool
  sh_phase :: sync_phase
  sh_cur :: sync_state
  sh_client_req :: sync_state
  sh_server_req :: sync_state
  sh_thread :: lock_thread
  sh_closer :: close_thread

type_synonym client_table = "u64 \<Rightarrow> sync_handle option"

text \<open>Ids are made unique by the process id in the upper half.\<close>

definition sync_new_id :: "u32 \<Rightarrow> u32 \<Rightarrow> (u64 \<times> u32) outcome" where
  "sync_new_id pid counter =
     asserting (pid \<noteq> 0)
       (let hid = push_bit 32 (ucast pid) + ucast counter;
            counter = counter + 1
        in if counter = 0 then Fatal else Ok (hid, counter))"

section \<open>Waiting and notification\<close>

definition sync_wait_begin :: "sync_handle \<Rightarrow> sync_handle" where
  "sync_wait_begin h = h\<lparr>sh_waiters := sh_waiters h + 1\<rparr>"

definition sync_wait_end :: "sync_handle \<Rightarrow> sync_handle" where
  "sync_wait_end h =
     (let h = h\<lparr>sh_waiters := sh_waiters h - 1\<rparr> in
      if sh_waiters h = 0 then h\<lparr>sh_event := False\<rparr> else h)"

definition sync_notify :: "sync_handle \<Rightarrow> sync_handle" where
  "sync_notify h = (if sh_waiters h > 0 then h\<lparr>sh_event := True\<rparr> else h)"

section \<open>Messages of the client\<close>

definition ipc_sync_client_send ::
  "mem \<Rightarrow> sync_code \<Rightarrow> u64 \<Rightarrow> sync_state \<Rightarrow> u8 list \<Rightarrow> (sync_msg list \<times> mem) outcome" where
  "ipc_sync_client_send m code hid state data =
     (let (ok, m) = malloc m in
      if ok then Ok ([Sync_Msg code hid state data], m) else Fatal)"

definition sync_downgrade ::
  "mem \<Rightarrow> u64 \<Rightarrow> sync_handle \<Rightarrow> (sync_handle \<times> sync_msg list \<times> mem) outcome" where
  "sync_downgrade m hid h =
     asserting (\<not> sh_used h \<and> sh_phase h = SYNC_PHASE_OPEN
                \<and> sh_server_req h \<noteq> SYNC_STATE_NONE \<and> sh_server_req h < sh_cur h)
       (let data = (if sh_cur h = SYNC_STATE_EXCLUSIVE then sh_data h else [])
        in and_then (ipc_sync_client_send m IPC_MSG_SYNC_CONFIRM_DOWNGRADE hid
                       (sh_server_req h) data)
             (\<lambda>(out, m). Ok (h\<lparr>sh_cur := sh_server_req h,
                               sh_server_req := SYNC_STATE_NONE\<rparr>, out, m)))"

definition client_update_handle_data ::
  "mem \<Rightarrow> sync_handle \<Rightarrow> u8 list \<Rightarrow> (sync_handle \<times> mem) outcome" where
  "client_update_handle_data m h data =
     asserting (data \<noteq> [])
       (if length data \<noteq> length (sh_data h) then
          let (ok, m) = malloc m in
          if ok then Ok (h\<lparr>sh_data := data\<rparr>, m) else Fatal
        else Ok (h\<lparr>sh_data := data\<rparr>, m))"

definition send_request_close ::
  "mem \<Rightarrow> u64 \<Rightarrow> sync_handle \<Rightarrow> (sync_msg list \<times> mem) outcome" where
  "send_request_close m hid h =
     (let data = (if sh_cur h = SYNC_STATE_EXCLUSIVE then sh_data h else [])
      in ipc_sync_client_send m IPC_MSG_SYNC_REQUEST_CLOSE hid (sh_cur h) data)"

text \<open>
  \<open>init_sync_client\<close> returns the new value of \<open>g_sync_enabled\<close>. \<open>enable\<close> is what
  \<open>toml_bool_in\<close> finds for \<open>libos.sync.enable\<close> in the manifest, with the default false, and
  \<^term>\<open>None\<close> if the value is not a Boolean.
\<close>

definition init_sync_client :: "mem \<Rightarrow> bool option \<Rightarrow> errno + bool" where
  "init_sync_client m enable =
     (if \<not> fst (malloc m) then Inl ENOMEM
      else (case enable of None \<Rightarrow> Inl EINVAL | Some b \<Rightarrow> Inr b))"

section \<open>Creation\<close>

definition new_sync_handle :: sync_handle where
  "new_sync_handle =
     \<lparr>sh_data = [], sh_event = False, sh_waiters = 0, sh_used = False,
      sh_phase = SYNC_PHASE_NEW, sh_cur = SYNC_STATE_INVALID,
      sh_client_req = SYNC_STATE_NONE, sh_server_req = SYNC_STATE_NONE,
      sh_thread = Unlocked, sh_closer = Nobody\<rparr>"

text \<open>
  \<open>sync_init\<close> creates two locks, which can fail, and an event; \<open>event_error\<close> is the
  translated error of \<open>PalEventCreate\<close>, if any. The handle enters the table unless the id is
  taken. The clean-up at the label \<open>err\<close> frees what was created.
\<close>

definition sync_init ::
  "mem \<Rightarrow> errno option \<Rightarrow> client_table \<Rightarrow> u64 \<Rightarrow> (errno + client_table) outcome" where
  "sync_init m event_error tbl hid =
     asserting (hid \<noteq> 0)
       (let (ok1, m) = malloc m in
        if \<not> ok1 then Ok (Inl ENOMEM)
        else let (ok2, m) = malloc m in
          if \<not> ok2 then Ok (Inl ENOMEM)
          else (case event_error of
              Some e \<Rightarrow> Ok (Inl e)
            | None \<Rightarrow>
                if tbl hid \<noteq> None then Ok (Inl EINVAL)
                else Ok (Inr (tbl(hid \<mapsto> new_sync_handle)))))"

text \<open>\<open>sync_create\<close> also returns the counter for new ids.\<close>

definition sync_create ::
  "mem \<Rightarrow> errno option \<Rightarrow> u32 \<Rightarrow> u32 \<Rightarrow> client_table \<Rightarrow> u64 \<Rightarrow>
     ((errno + client_table) \<times> u64 \<times> u32) outcome" where
  "sync_create m event_error pid counter tbl hid =
     and_then (if hid = 0 then sync_new_id pid counter else Ok (hid, counter))
       (\<lambda>(hid, counter).
         let (ok, m) = malloc m in
         if \<not> ok then Ok (Inl ENOMEM, hid, counter)
         else and_then (sync_init m event_error tbl hid)
                (\<lambda>r. Ok (r, hid, counter)))"

text \<open>
  A handle is checkpointed as its id alone and initialised again in the new process.
\<close>

definition cp_sync_handle :: "u64 \<Rightarrow> u64 outcome" where
  "cp_sync_handle hid = asserting (hid \<noteq> 0) (Ok hid)"

definition rs_sync_handle ::
  "mem \<Rightarrow> errno option \<Rightarrow> client_table \<Rightarrow> u64 \<Rightarrow> (errno + client_table) outcome" where
  "rs_sync_handle m event_error tbl hid = sync_init m event_error tbl hid"

section \<open>sync_lock and sync_unlock\<close>

text \<open>The end of \<open>sync_lock\<close> after a wait: the data is copied to the caller.\<close>

definition sync_lock_data :: "nat \<Rightarrow> sync_handle \<Rightarrow> u8 list option outcome" where
  "sync_lock_data data_size h =
     (if data_size > 0 \<and> length (sh_data h) > 0
      then if data_size \<noteq> length (sh_data h) then Fatal else Ok (Some (sh_data h))
      else Ok None)"

text \<open>The body of the loop up to the wait.\<close>

definition sync_lock_loop ::
  "mem \<Rightarrow> u64 \<Rightarrow> sync_state \<Rightarrow> nat \<Rightarrow> sync_handle \<Rightarrow> (sync_handle \<times> sync_msg list) outcome" where
  "sync_lock_loop m hid state data_size h =
     (if sh_phase h = SYNC_PHASE_CLOSING \<or> sh_phase h = SYNC_PHASE_CLOSED then Fatal
      else and_then
        (if sh_client_req h < state
         then and_then (ipc_sync_client_send m IPC_MSG_SYNC_REQUEST_UPGRADE hid state [])
                (\<lambda>(out, m). Ok (h\<lparr>sh_client_req := state, sh_phase := SYNC_PHASE_OPEN\<rparr>, out))
         else Ok (h, []))
        (\<lambda>(h, out).
          Ok (sync_wait_begin (h\<lparr>sh_thread := Waiting state data_size\<rparr>), out)))"

definition sync_lock ::
  "mem \<Rightarrow> bool \<Rightarrow> u64 \<Rightarrow> sync_state \<Rightarrow> nat \<Rightarrow> sync_handle \<Rightarrow>
     (sync_handle \<times> sync_msg list) outcome" where
  "sync_lock m enabled hid state data_size h =
     asserting (state = SYNC_STATE_SHARED \<or> state = SYNC_STATE_EXCLUSIVE)
       (if \<not> enabled then Ok (h\<lparr>sh_thread := Locked state None\<rparr>, [])
        else asserting (\<not> sh_used h)
          (let h = h\<lparr>sh_used := True\<rparr>
           in if sh_cur h < state then sync_lock_loop m hid state data_size h
              else Ok (h\<lparr>sh_thread := Locked state None\<rparr>, [])))"

text \<open>The thread after \<open>sync_wait_without_lock\<close>: the loop condition and what follows.\<close>

definition sync_lock_wake ::
  "mem \<Rightarrow> u64 \<Rightarrow> sync_state \<Rightarrow> nat \<Rightarrow> sync_handle \<Rightarrow> (sync_handle \<times> sync_msg list) outcome" where
  "sync_lock_wake m hid state data_size h =
     (let h = sync_wait_end h
      in if sh_cur h < state then sync_lock_loop m hid state data_size h
         else and_then (sync_lock_data data_size h)
                (\<lambda>ret. Ok (h\<lparr>sh_thread := Locked state ret\<rparr>, [])))"

definition sync_unlock ::
  "mem \<Rightarrow> bool \<Rightarrow> u64 \<Rightarrow> u8 list \<Rightarrow> sync_handle \<Rightarrow> (sync_handle \<times> sync_msg list) outcome" where
  "sync_unlock m enabled hid data h =
     (if \<not> enabled then Ok (h\<lparr>sh_thread := Unlocked\<rparr>, [])
      else asserting (sh_used h)
        (and_then (if data \<noteq> [] then client_update_handle_data m h data else Ok (h, m))
          (\<lambda>(h, m).
            let h = h\<lparr>sh_used := False, sh_thread := Unlocked\<rparr>
            in if sh_phase h = SYNC_PHASE_OPEN \<and> sh_server_req h < sh_cur h
                  \<and> sh_server_req h \<noteq> SYNC_STATE_NONE
               then and_then (sync_downgrade m hid h) (\<lambda>(h, out, m). Ok (h, out))
               else Ok (h, []))))"

section \<open>Closing\<close>

text \<open>The part that \<open>sync_destroy\<close> and \<open>shutdown_sync_client\<close> share.\<close>

definition sync_request_close ::
  "mem \<Rightarrow> u64 \<Rightarrow> sync_handle \<Rightarrow> (sync_handle \<times> sync_msg list) outcome" where
  "sync_request_close m hid h =
     and_then (send_request_close m hid h)
       (\<lambda>(out, m). Ok (h\<lparr>sh_phase := SYNC_PHASE_CLOSING, sh_cur := SYNC_STATE_INVALID\<rparr>, out))"

text \<open>
  \<open>sync_destroy\<close> up to its wait. \<open>None\<close> is a handle that leaves the table, with the
  reference the table holds.
\<close>

definition sync_destroy ::
  "mem \<Rightarrow> bool \<Rightarrow> u64 \<Rightarrow> sync_handle \<Rightarrow> (sync_handle option \<times> sync_msg list) outcome" where
  "sync_destroy m enabled hid h =
     asserting (hid \<noteq> 0 \<and> \<not> sh_used h \<and> sh_waiters h = 0)
       (if enabled \<and> sh_phase h = SYNC_PHASE_OPEN
        then and_then (sync_request_close m hid h)
               (\<lambda>(h, out). Ok (Some (sync_wait_begin (h\<lparr>sh_closer := In_Destroy\<rparr>)), out))
        else Ok (None, []))"

definition sync_destroy_wake :: "sync_handle \<Rightarrow> sync_handle option" where
  "sync_destroy_wake h =
     (let h = sync_wait_end h
      in if sh_phase h \<noteq> SYNC_PHASE_CLOSED then Some (sync_wait_begin h) else None)"

text \<open>The bodies of the two loops of \<open>shutdown_sync_client\<close>, and its wait.\<close>

definition shutdown_close ::
  "mem \<Rightarrow> bool \<Rightarrow> u64 \<Rightarrow> sync_handle \<Rightarrow> (sync_handle \<times> sync_msg list) outcome" where
  "shutdown_close m enabled hid h =
     (if enabled \<and> sh_phase h = SYNC_PHASE_OPEN then sync_request_close m hid h else Ok (h, []))"

definition shutdown_wait :: "sync_handle \<Rightarrow> sync_handle" where
  "shutdown_wait h =
     (if sh_phase h \<noteq> SYNC_PHASE_NEW \<and> sh_phase h \<noteq> SYNC_PHASE_CLOSED
      then sync_wait_begin (h\<lparr>sh_closer := In_Shutdown\<rparr>) else h)"

definition shutdown_wake :: "sync_handle \<Rightarrow> sync_handle" where
  "shutdown_wake h =
     (let h = sync_wait_end h
      in if sh_phase h \<noteq> SYNC_PHASE_CLOSED then sync_wait_begin h
         else h\<lparr>sh_closer := Nobody\<rparr>)"

section \<open>Message handlers\<close>

definition do_request_downgrade ::
  "mem \<Rightarrow> u64 \<Rightarrow> sync_state \<Rightarrow> sync_handle \<Rightarrow> (sync_handle \<times> sync_msg list) outcome" where
  "do_request_downgrade m hid state h =
     (if sh_phase h = SYNC_PHASE_OPEN \<and> sh_cur h > state
         \<and> (sh_server_req h > state \<or> sh_server_req h = SYNC_STATE_NONE)
      then let h = h\<lparr>sh_server_req := state\<rparr>
           in if \<not> sh_used h
              then and_then (sync_downgrade m hid h) (\<lambda>(h, out, m). Ok (h, out))
              else Ok (h, [])
      else Ok (h, []))"

definition do_confirm_upgrade ::
  "mem \<Rightarrow> sync_state \<Rightarrow> u8 list \<Rightarrow> sync_handle \<Rightarrow> sync_handle outcome" where
  "do_confirm_upgrade m state data h =
     (let h = (if sh_phase h = SYNC_PHASE_OPEN \<and> sh_cur h < state
               then sync_notify (h\<lparr>sh_cur := state, sh_client_req := SYNC_STATE_NONE\<rparr>)
               else h)
      in if data \<noteq> [] then and_then (client_update_handle_data m h data) (\<lambda>(h, m). Ok h)
         else Ok h)"

definition do_confirm_close :: "sync_handle \<Rightarrow> sync_handle" where
  "do_confirm_close h =
     (if sh_phase h \<noteq> SYNC_PHASE_CLOSED
      then sync_notify (h\<lparr>sh_phase := SYNC_PHASE_CLOSED\<rparr>) else h)"

text \<open>
  \<open>sync_client_message_callback\<close>, with \<open>find_handle\<close>, which exits on an unknown id.
\<close>

definition sync_client_message_callback ::
  "mem \<Rightarrow> bool \<Rightarrow> client_table \<Rightarrow> sync_msg \<Rightarrow> (client_table \<times> sync_msg list) outcome" where
  "sync_client_message_callback m enabled tbl msg =
     (case msg of Sync_Msg code hid state data \<Rightarrow>
        (case code of
           IPC_MSG_SYNC_REQUEST_DOWNGRADE \<Rightarrow>
             asserting (data = []) (asserting enabled
               (case tbl hid of
                  None \<Rightarrow> Fatal
                | Some h \<Rightarrow> and_then (do_request_downgrade m hid state h)
                    (\<lambda>(h, out). Ok (tbl(hid \<mapsto> h), out))))
         | IPC_MSG_SYNC_CONFIRM_UPGRADE \<Rightarrow>
             asserting enabled
               (case tbl hid of
                  None \<Rightarrow> Fatal
                | Some h \<Rightarrow> and_then (do_confirm_upgrade m state data h)
                    (\<lambda>h. Ok (tbl(hid \<mapsto> h), [])))
         | IPC_MSG_SYNC_CONFIRM_CLOSE \<Rightarrow>
             asserting enabled
               (case tbl hid of
                  None \<Rightarrow> Fatal
                | Some h \<Rightarrow> Ok (tbl(hid \<mapsto> do_confirm_close h), []))
         | _ \<Rightarrow> Fatal))"

end
