(* ===== verification/Sync_System.thy ===== *)
theory Sync_System
  imports Sync_Lease Sync_Client
begin

text \<open>
  The sync engine as a whole: the server, the processes with their handles, and between each
  process and the server one channel in each direction that keeps the order of the messages
  (a stream of the IPC layer). A step is a call of the interface, the return from a wait, or
  the handling of a message. The theory states the invariant that ties the handle of a
  process to its lease and to the messages under way, and shows that every step keeps it.
\<close>

section \<open>States and steps\<close>

text \<open>
  The last two fields are not part of the program. \<open>written\<close> is the data last written to a
  handle, by the last \<open>sync_unlock\<close> with data in any process. \<open>forgotten\<close> says that the server has
  deleted its entry of the handle since then, as it does when the last lease is closed.
\<close>

record sync_system =
  sys_server :: server_state
  sys_clients :: "u32 \<Rightarrow> client_table"
  up_queue :: "u32 \<Rightarrow> sync_msg list"
  down_queue :: "u32 \<Rightarrow> sync_msg list"
  written :: "u64 \<Rightarrow> u8 list"
  forgotten :: "u64 \<Rightarrow> bool"

definition sync_start :: sync_system where
  "sync_start = \<lparr>sys_server = server_start, sys_clients = (\<lambda>_ _. None), up_queue = (\<lambda>_. []),
                 down_queue = (\<lambda>_. []), written = (\<lambda>_. []), forgotten = (\<lambda>_. False)\<rparr>"

definition write_data :: "u64 \<Rightarrow> u8 list \<Rightarrow> sync_system \<Rightarrow> sync_system" where
  "write_data hid data s =
     (if data = [] then s
      else s\<lparr>written := (written s)(hid := data), forgotten := (forgotten s)(hid := False)\<rparr>)"

text \<open>The data that the engine still has.\<close>

definition latest :: "sync_system \<Rightarrow> u64 \<Rightarrow> u8 list" where
  "latest s hid = (if forgotten s hid then [] else written s hid)"

text \<open>A client changes one handle of its table and sends messages.\<close>

definition client_update ::
  "sync_system \<Rightarrow> u32 \<Rightarrow> u64 \<Rightarrow> sync_handle option \<Rightarrow> sync_msg list \<Rightarrow> sync_system" where
  "client_update s v hid h out =
     s\<lparr>sys_clients := (sys_clients s)(v := (sys_clients s v)(hid := h)),
       up_queue := (up_queue s)(v := up_queue s v @ out)\<rparr>"

definition server_update ::
  "sync_system \<Rightarrow> u32 \<Rightarrow> sync_msg list \<Rightarrow> server_state \<Rightarrow> sent \<Rightarrow> sync_system" where
  "server_update s v rest st out =
     s\<lparr>sys_server := st,
       up_queue := (up_queue s)(v := rest),
       down_queue := (\<lambda>w. down_queue s w @ to_client w out),
       forgotten := (\<lambda>hid. forgotten s hid \<or>
         server_handles (sys_server s) hid \<noteq> None \<and> server_handles st hid = None)\<rparr>"

definition client_receive ::
  "sync_system \<Rightarrow> u32 \<Rightarrow> sync_msg list \<Rightarrow> client_table \<Rightarrow> sync_msg list \<Rightarrow> sync_system" where
  "client_receive s v rest tbl out =
     s\<lparr>sys_clients := (sys_clients s)(v := tbl),
       down_queue := (down_queue s)(v := rest),
       up_queue := (up_queue s)(v := up_queue s v @ out)\<rparr>"

text \<open>
  The steps. An interface function is called on a handle that no thread is closing; after
  \<open>shutdown_sync_client\<close> has begun there are no other threads, so no handle is destroyed
  while it is being closed. The contract of \<open>sync_unlock\<close> is that only a thread that locked
  the handle in exclusive mode changes the data. A step whose function ends in \<open>FATAL\<close> ends
  the process, which the relation leaves out.
\<close>

inductive sync_step :: "sync_system \<Rightarrow> sync_system \<Rightarrow> bool" where
  create: "sync_init m e (sys_clients s v) hid = Ok (Inr tbl) \<Longrightarrow>
    sync_step s (s\<lparr>sys_clients := (sys_clients s)(v := tbl)\<rparr>)"
| lock: "sys_clients s v hid = Some h \<Longrightarrow> sh_thread h = Unlocked \<Longrightarrow> sh_closer h = Nobody \<Longrightarrow>
    sync_lock m True hid state n h = Ok (h', out) \<Longrightarrow>
    sync_step s (client_update s v hid (Some h') out)"
| wake: "sys_clients s v hid = Some h \<Longrightarrow> sh_thread h = Waiting state n \<Longrightarrow> sh_event h \<Longrightarrow>
    sync_lock_wake m hid state n h = Ok (h', out) \<Longrightarrow>
    sync_step s (client_update s v hid (Some h') out)"
| unlock: "sys_clients s v hid = Some h \<Longrightarrow> sh_thread h = Locked state ret \<Longrightarrow>
    state = SYNC_STATE_EXCLUSIVE \<or> data = [] \<or> data = sh_data h \<Longrightarrow>
    sync_unlock m True hid data h = Ok (h', out) \<Longrightarrow>
    sync_step s (write_data hid data (client_update s v hid (Some h') out))"
| destroy: "sys_clients s v hid = Some h \<Longrightarrow> sh_thread h = Unlocked \<Longrightarrow> sh_closer h = Nobody \<Longrightarrow>
    sh_phase h \<noteq> SYNC_PHASE_CLOSING \<Longrightarrow> sync_destroy m True hid h = Ok (h', out) \<Longrightarrow>
    sync_step s (client_update s v hid h' out)"
| destroy_wake: "sys_clients s v hid = Some h \<Longrightarrow> sh_closer h = In_Destroy \<Longrightarrow> sh_event h \<Longrightarrow>
    sync_step s (client_update s v hid (sync_destroy_wake h) [])"
| shutdown_close: "sys_clients s v hid = Some h \<Longrightarrow> sh_thread h = Unlocked \<Longrightarrow>
    sh_closer h = Nobody \<Longrightarrow> shutdown_close m True hid h = Ok (h', out) \<Longrightarrow>
    sync_step s (client_update s v hid (Some h') out)"
| shutdown_wait: "sys_clients s v hid = Some h \<Longrightarrow> sh_thread h = Unlocked \<Longrightarrow>
    sh_closer h = Nobody \<Longrightarrow> sh_phase h \<noteq> SYNC_PHASE_OPEN \<Longrightarrow>
    sync_step s (client_update s v hid (Some (shutdown_wait h)) [])"
| shutdown_wake: "sys_clients s v hid = Some h \<Longrightarrow> sh_closer h = In_Shutdown \<Longrightarrow> sh_event h \<Longrightarrow>
    sync_step s (client_update s v hid (Some (shutdown_wake h)) [])"
| server_message: "up_queue s v = msg # rest \<Longrightarrow>
    sync_server_message_callback m (sys_server s) v msg = Ok (st, out) \<Longrightarrow>
    sync_step s (server_update s v rest st out)"
| client_message: "down_queue s v = msg # rest \<Longrightarrow>
    sync_client_message_callback m True (sys_clients s v) msg = Ok (tbl, out) \<Longrightarrow>
    sync_step s (client_receive s v rest tbl out)"

inductive sync_reachable :: "sync_system \<Rightarrow> bool" where
  start: "sync_reachable sync_start"
| step: "sync_reachable s \<Longrightarrow> sync_step s s' \<Longrightarrow> sync_reachable s'"

lemma write_data_simps [simp]:
  "sys_server (write_data hid data s) = sys_server s"
  "sys_clients (write_data hid data s) = sys_clients s"
  "up_queue (write_data hid data s) = up_queue s"
  "down_queue (write_data hid data s) = down_queue s"
  "latest (write_data hid data s) = (latest s)(hid := if data = [] then latest s hid else data)"
  by (auto simp: write_data_def latest_def fun_eq_iff)

lemma latest_simps [simp]:
  "latest (client_update s v hid h out) = latest s"
  "latest (client_receive s v rest tbl out) = latest s"
  "latest (s\<lparr>sys_clients := c\<rparr>) = latest s"
  "latest sync_start = (\<lambda>_. [])"
  by (auto simp: latest_def client_update_def client_receive_def sync_start_def fun_eq_iff)

section \<open>The invariant of one handle in one process\<close>

text \<open>The comments on the fields of \<open>struct sync_handle\<close>, and what its threads wait for.\<close>

definition handle_ok :: "sync_handle \<Rightarrow> bool" where
  "handle_ok h \<longleftrightarrow>
     sh_cur h \<noteq> SYNC_STATE_NONE \<and>
     (sh_used h \<longleftrightarrow> sh_thread h \<noteq> Unlocked) \<and>
     (sh_server_req h = SYNC_STATE_NONE \<or> sh_used h \<and> sh_server_req h < sh_cur h) \<and>
     (sh_client_req h = SYNC_STATE_NONE \<or>
        (\<exists>n. sh_thread h = Waiting (sh_client_req h) n) \<and> sh_cur h < sh_client_req h) \<and>
     (\<forall>s n. sh_thread h = Waiting s n \<longrightarrow> s \<in> {SYNC_STATE_SHARED, SYNC_STATE_EXCLUSIVE} \<and>
        (sh_client_req h = s \<or> sh_client_req h = SYNC_STATE_NONE \<and> s \<le> sh_cur h \<and> sh_event h)) \<and>
     (\<forall>s ret. sh_thread h = Locked s ret \<longrightarrow>
        s \<in> {SYNC_STATE_SHARED, SYNC_STATE_EXCLUSIVE} \<and> s \<le> sh_cur h) \<and>
     sh_waiters h = (case sh_thread h of Waiting s n \<Rightarrow> 1 | _ \<Rightarrow> 0)
       + (if sh_closer h = Nobody then 0 else 1) \<and>
     (sh_closer h \<noteq> Nobody \<longrightarrow> sh_phase h \<in> {SYNC_PHASE_CLOSING, SYNC_PHASE_CLOSED} \<and>
        (sh_phase h = SYNC_PHASE_CLOSED \<longrightarrow> sh_event h)) \<and>
     (sh_phase h \<noteq> SYNC_PHASE_OPEN \<longrightarrow>
        sh_cur h = SYNC_STATE_INVALID \<and> sh_server_req h = SYNC_STATE_NONE \<and>
        sh_thread h = Unlocked) \<and>
     (sh_phase h = SYNC_PHASE_NEW \<longrightarrow> sh_data h = [])"

text \<open>
  \<open>downs hid a q c rest\<close>: the messages \<open>q\<close> under way to the server are downgrades that lead from
  the state \<open>a\<close> of the lease to the state \<open>c\<close>, followed by the messages \<open>rest\<close>. A downgrade from
  exclusive mode carries the data.
\<close>

fun downs :: "u64 \<Rightarrow> sync_state \<Rightarrow> sync_msg list \<Rightarrow> sync_state \<Rightarrow> sync_msg list \<Rightarrow> bool" where
  "downs hid a [] c rest \<longleftrightarrow> a = c \<and> rest = []"
| "downs hid a (msg # q) c rest \<longleftrightarrow>
     (if msg_code msg = IPC_MSG_SYNC_CONFIRM_DOWNGRADE
      then msg_id msg = hid \<and> msg_state msg \<noteq> SYNC_STATE_NONE \<and> msg_state msg < a
           \<and> (a \<noteq> SYNC_STATE_EXCLUSIVE \<longrightarrow> msg_data msg = [])
           \<and> downs hid (msg_state msg) q c rest
      else a = c \<and> rest = msg # q)"

definition asks :: "u64 \<Rightarrow> sync_msg list \<Rightarrow> bool" where
  "asks hid r \<longleftrightarrow> (\<forall>msg\<in>set r. msg = Sync_Msg IPC_MSG_SYNC_REQUEST_DOWNGRADE hid SYNC_STATE_INVALID []
                        \<or> msg = Sync_Msg IPC_MSG_SYNC_REQUEST_DOWNGRADE hid SYNC_STATE_SHARED [])"

abbreviation upgrade_msg :: "u64 \<Rightarrow> sync_state \<Rightarrow> sync_msg" where
  "upgrade_msg hid s \<equiv> Sync_Msg IPC_MSG_SYNC_REQUEST_UPGRADE hid s []"

abbreviation granted_msg :: "u64 \<Rightarrow> sync_state \<Rightarrow> u8 list \<Rightarrow> sync_msg" where
  "granted_msg hid s d \<equiv> Sync_Msg IPC_MSG_SYNC_CONFIRM_UPGRADE hid s d"

abbreviation close_msg :: "u64 \<Rightarrow> sync_state \<Rightarrow> u8 list \<Rightarrow> sync_msg" where
  "close_msg hid s d \<equiv> Sync_Msg IPC_MSG_SYNC_REQUEST_CLOSE hid s d"

abbreviation closed_msg :: "u64 \<Rightarrow> sync_msg" where
  "closed_msg hid \<equiv> Sync_Msg IPC_MSG_SYNC_CONFIRM_CLOSE hid SYNC_STATE_INVALID []"

text \<open>
  \<open>link hid h l q r\<close>: the handle \<open>h\<close> of a process, its lease \<open>l\<close> on the server, the messages \<open>q\<close>
  under way to the server and \<open>r\<close> to the process belong together. The rules are the stages
  of a handle: not registered, idle, a request sent (for the first time or again), received
  by the server, granted, and closing.
\<close>

inductive link ::
  "u64 \<Rightarrow> sync_handle option \<Rightarrow> server_lease option \<Rightarrow> sync_msg list \<Rightarrow> sync_msg list \<Rightarrow> bool"
  for hid where
  absent: "link hid None None [] []"
| unregistered: "handle_ok h \<Longrightarrow> sh_phase h \<in> {SYNC_PHASE_NEW, SYNC_PHASE_CLOSED} \<Longrightarrow>
    sh_client_req h = SYNC_STATE_NONE \<Longrightarrow> link hid (Some h) None [] []"
| idle: "handle_ok h \<Longrightarrow> sh_phase h = SYNC_PHASE_OPEN \<Longrightarrow> sh_client_req h = SYNC_STATE_NONE \<Longrightarrow>
    lease_client_req l = SYNC_STATE_NONE \<Longrightarrow> downs hid (lease_cur l) q (sh_cur h) [] \<Longrightarrow>
    asks hid r \<Longrightarrow> link hid (Some h) (Some l) q r"
| first: "handle_ok h \<Longrightarrow> sh_phase h = SYNC_PHASE_OPEN \<Longrightarrow> sh_client_req h = s \<Longrightarrow>
    s \<noteq> SYNC_STATE_NONE \<Longrightarrow> sh_cur h = SYNC_STATE_INVALID \<Longrightarrow> sh_data h = [] \<Longrightarrow>
    link hid (Some h) None [upgrade_msg hid s] []"
| again: "handle_ok h \<Longrightarrow> sh_phase h = SYNC_PHASE_OPEN \<Longrightarrow> sh_client_req h = s \<Longrightarrow>
    s \<noteq> SYNC_STATE_NONE \<Longrightarrow> lease_client_req l = SYNC_STATE_NONE \<Longrightarrow>
    downs hid (lease_cur l) q (sh_cur h) [upgrade_msg hid s] \<Longrightarrow> asks hid r \<Longrightarrow>
    link hid (Some h) (Some l) q r"
| requested: "handle_ok h \<Longrightarrow> sh_phase h = SYNC_PHASE_OPEN \<Longrightarrow> sh_client_req h = s \<Longrightarrow>
    s \<noteq> SYNC_STATE_NONE \<Longrightarrow> lease_client_req l = s \<Longrightarrow> lease_cur l = sh_cur h \<Longrightarrow> asks hid r \<Longrightarrow>
    link hid (Some h) (Some l) [] r"
| confirmed: "handle_ok h \<Longrightarrow> sh_phase h = SYNC_PHASE_OPEN \<Longrightarrow> sh_client_req h = s \<Longrightarrow>
    s \<noteq> SYNC_STATE_NONE \<Longrightarrow> lease_client_req l = SYNC_STATE_NONE \<Longrightarrow> lease_cur l = s \<Longrightarrow>
    asks hid r1 \<Longrightarrow> asks hid r2 \<Longrightarrow> link hid (Some h) (Some l) [] (r1 @ granted_msg hid s d # r2)"
| closing: "handle_ok h \<Longrightarrow> sh_phase h = SYNC_PHASE_CLOSING \<Longrightarrow> sh_client_req h = SYNC_STATE_NONE \<Longrightarrow>
    lease_client_req l = SYNC_STATE_NONE \<Longrightarrow> downs hid (lease_cur l) q s [close_msg hid s d] \<Longrightarrow>
    s \<noteq> SYNC_STATE_NONE \<Longrightarrow> s \<noteq> SYNC_STATE_EXCLUSIVE \<longrightarrow> d = [] \<Longrightarrow> asks hid r \<Longrightarrow>
    link hid (Some h) (Some l) q r"
| closed: "handle_ok h \<Longrightarrow> sh_phase h = SYNC_PHASE_CLOSING \<Longrightarrow> sh_client_req h = SYNC_STATE_NONE \<Longrightarrow>
    asks hid r \<Longrightarrow> link hid (Some h) None [] (r @ [closed_msg hid])"

section \<open>The interface keeps the invariant\<close>

inductive_cases link_SomeE: "link hid (Some h) l q r"
inductive_cases link_leaseE: "link hid h (Some l) q r"

lemma client_send_Ok:
  "ipc_sync_client_send m code hid s d = Ok (out, m') \<Longrightarrow> out = [Sync_Msg code hid s d]"
  by (auto simp: ipc_sync_client_send_def split: prod.splits if_splits)

lemma client_send_not_failed [simp]:
  "ipc_sync_client_send m code hid s d \<noteq> Assertion_Failed"
  by (auto simp: ipc_sync_client_send_def split: prod.splits)

lemma downs_append:
  "downs hid a q c [] \<Longrightarrow> msg_code msg \<noteq> IPC_MSG_SYNC_CONFIRM_DOWNGRADE \<Longrightarrow>
     downs hid a (q @ [msg]) c [msg]"
  "downs hid a q c [] \<Longrightarrow> t \<noteq> SYNC_STATE_NONE \<Longrightarrow> t < c \<Longrightarrow>
     (c \<noteq> SYNC_STATE_EXCLUSIVE \<longrightarrow> d = []) \<Longrightarrow>
     downs hid a (q @ [Sync_Msg IPC_MSG_SYNC_CONFIRM_DOWNGRADE hid t d]) t []"
  by (induction q arbitrary: a) (auto split: if_splits)

lemma downs_le: "downs hid a q c rest \<Longrightarrow> c \<le> a"
proof (induction q arbitrary: a)
  case (Cons msg q)
  show ?case
  proof (cases "msg_code msg = IPC_MSG_SYNC_CONFIRM_DOWNGRADE")
    case True
    hence "c \<le> msg_state msg" "msg_state msg < a" using Cons by auto
    thus ?thesis by order
  qed (use Cons.prems in auto)
qed simp

lemma handle_ok_unlocked:
  assumes "handle_ok h" "sh_thread h = Unlocked"
  shows "\<not> sh_used h" "sh_client_req h = SYNC_STATE_NONE" "sh_server_req h = SYNC_STATE_NONE"
  using assms by (auto simp: handle_ok_def)

lemma handle_ok_new: "handle_ok new_sync_handle"
  by (simp add: handle_ok_def new_sync_handle_def)

lemma sync_lock_cases:
  assumes "sync_lock m True hid s n h = Ok (h', out)" "handle_ok h" "sh_thread h = Unlocked"
  obtains
    (at_once) "s \<in> {SYNC_STATE_SHARED, SYNC_STATE_EXCLUSIVE}" "s \<le> sh_cur h"
      "h' = h\<lparr>sh_used := True, sh_thread := Locked s None\<rparr>" "out = []"
  | (waits) "s \<in> {SYNC_STATE_SHARED, SYNC_STATE_EXCLUSIVE}" "sh_cur h < s"
      "sh_phase h \<in> {SYNC_PHASE_NEW, SYNC_PHASE_OPEN}"
      "h' = h\<lparr>sh_used := True, sh_client_req := s, sh_phase := SYNC_PHASE_OPEN,
             sh_thread := Waiting s n, sh_waiters := sh_waiters h + 1\<rparr>"
      "out = [upgrade_msg hid s]"
proof -
  have s: "s \<in> {SYNC_STATE_SHARED, SYNC_STATE_EXCLUSIVE}"
    using assms(1) by (auto simp: sync_lock_def asserting_Ok)
  note u = handle_ok_unlocked [OF assms(2,3)]
  have "sh_client_req h < s" using u s by (auto simp: sync_state_order)
  show ?thesis
  proof (cases "sh_cur h < s")
    case True
    hence l: "sync_lock_loop m hid s n (h\<lparr>sh_used := True\<rparr>) = Ok (h', out)"
      using assms(1) by (simp add: sync_lock_def asserting_Ok)
    hence "sh_phase h \<in> {SYNC_PHASE_NEW, SYNC_PHASE_OPEN}"
      by (cases "sh_phase h") (simp_all add: sync_lock_loop_def)
    moreover from this have "h' = h\<lparr>sh_used := True, sh_client_req := s, sh_phase := SYNC_PHASE_OPEN,
             sh_thread := Waiting s n, sh_waiters := sh_waiters h + 1\<rparr>"
      "out = [upgrade_msg hid s]"
      using l \<open>sh_client_req h < s\<close>
      by (auto simp: sync_lock_loop_def and_then_Ok sync_wait_begin_def dest!: client_send_Ok)
    ultimately show ?thesis using that(2) s True by blast
  next
    case False
    hence "h' = h\<lparr>sh_used := True, sh_thread := Locked s None\<rparr>" "out = []"
      using assms(1) by (simp_all add: sync_lock_def asserting_Ok)
    thus ?thesis using that(1) s False by simp
  qed
qed

lemma link_lock:
  assumes lk: "link hid (Some h) l q r" and t: "sh_thread h = Unlocked" "sh_closer h = Nobody"
    and ok: "sync_lock m True hid s n h = Ok (h', out)"
  shows "link hid (Some h') l (q @ out) r"
proof -
  have h: "handle_ok h" using lk by (rule link_SomeE)
  note u = handle_ok_unlocked [OF h t(1)]
  from ok h t(1) show ?thesis
  proof (cases rule: sync_lock_cases)
    case at_once
    have o: "sh_phase h = SYNC_PHASE_OPEN"
      using h at_once(1,2) by (auto simp: handle_ok_def sync_state_order)
    have "handle_ok h'" using h t u at_once o by (simp add: handle_ok_def)
    with lk show ?thesis unfolding at_once(3,4) using o u by (cases) (auto intro: idle)
  next
    case waits
    have s: "s \<noteq> SYNC_STATE_NONE" using waits(1) by auto
    have "handle_ok h'" using h t u waits by (simp add: handle_ok_def)
    with lk show ?thesis unfolding waits(4,5) using waits(1-3) u s h
      by (cases) (auto intro!: first again downs_append(1) simp: handle_ok_def)
  qed
qed

text \<open>Steps that only change what a thread is doing.\<close>

lemma link_threads:
  assumes "link hid (Some h) l q r" "handle_ok h'" "sh_phase h' = sh_phase h"
    "sh_client_req h' = sh_client_req h" "sh_cur h' = sh_cur h" "sh_data h' = sh_data h"
  shows "link hid (Some h') l q r"
  using assms(1) by cases (use assms(2-) in \<open>auto intro: link.intros\<close>)

lemma handle_ok_waiting:
  assumes "handle_ok h" "sh_thread h = Waiting s n"
  shows "sh_phase h = SYNC_PHASE_OPEN" "sh_closer h = Nobody" "sh_waiters h = 1" "sh_used h"
    "s \<in> {SYNC_STATE_SHARED, SYNC_STATE_EXCLUSIVE}"
    "sh_client_req h = s \<and> sh_cur h < s \<or> sh_client_req h = SYNC_STATE_NONE \<and> s \<le> sh_cur h"
proof -
  show p: "sh_phase h = SYNC_PHASE_OPEN" using assms by (auto simp: handle_ok_def)
  show c: "sh_closer h = Nobody" using assms p by (auto simp: handle_ok_def)
  show "sh_waiters h = 1" "sh_used h" "s \<in> {SYNC_STATE_SHARED, SYNC_STATE_EXCLUSIVE}"
    using assms c by (simp_all add: handle_ok_def)
  show "sh_client_req h = s \<and> sh_cur h < s \<or> sh_client_req h = SYNC_STATE_NONE \<and> s \<le> sh_cur h"
    using assms by (auto simp: handle_ok_def)
qed

lemma sync_lock_wake_cases:
  assumes "sync_lock_wake m hid s n h = Ok (h', out)" "handle_ok h" "sh_thread h = Waiting s n"
  obtains
    (acquired) "s \<le> sh_cur h" "sh_client_req h = SYNC_STATE_NONE" "out = []"
      "\<exists>ret. sync_lock_data n h = Ok ret \<and>
         h' = h\<lparr>sh_waiters := 0, sh_event := False, sh_thread := Locked s ret\<rparr>"
  | (again) "sh_client_req h = s" "sh_cur h < s" "out = []" "h' = h\<lparr>sh_event := False\<rparr>"
proof -
  note w = handle_ok_waiting [OF assms(2,3)]
  show ?thesis
  proof (cases "sh_cur h < s")
    case True
    hence "sh_client_req h = s" using w(6) by auto
    moreover from this have "out = []" "h' = h\<lparr>sh_event := False\<rparr>"
      using assms(1,3) w(1,3) True
      by (auto simp: sync_lock_wake_def sync_wait_end_def Let_def sync_lock_loop_def
          sync_wait_begin_def)
    ultimately show ?thesis using that(2) True by blast
  next
    case False
    hence c: "sh_client_req h = SYNC_STATE_NONE" "s \<le> sh_cur h" using w(6) by auto
    have e: "sync_lock_data n (h\<lparr>sh_waiters := 0, sh_event := False\<rparr>) = sync_lock_data n h"
      by (simp add: sync_lock_data_def)
    have "out = [] \<and> (\<exists>ret. sync_lock_data n h = Ok ret \<and>
         h' = h\<lparr>sh_waiters := 0, sh_event := False, sh_thread := Locked s ret\<rparr>)"
      using assms(1) w(3) False
      by (auto simp: sync_lock_wake_def sync_wait_end_def Let_def and_then_Ok e)
    thus ?thesis using that(1) c by blast
  qed
qed

lemma link_wake:
  assumes lk: "link hid (Some h) l q r" and t: "sh_thread h = Waiting s n"
    and ok: "sync_lock_wake m hid s n h = Ok (h', out)"
  shows "link hid (Some h') l (q @ out) r"
proof -
  have h: "handle_ok h" using lk by (rule link_SomeE)
  note w = handle_ok_waiting [OF h t]
  from ok h t show ?thesis
  proof (cases rule: sync_lock_wake_cases)
    case acquired
    then obtain ret where h': "h' = h\<lparr>sh_waiters := 0, sh_event := False,
        sh_thread := Locked s ret\<rparr>" by blast
    have "handle_ok h'" unfolding h' using h t w acquired(1,2) by (simp add: handle_ok_def)
    thus ?thesis unfolding acquired(3) append_Nil2 h' by (rule link_threads [OF lk]) simp_all
  next
    case again
    have "handle_ok h'" unfolding again(4) using h t w again(1,2)
      by (auto simp: handle_ok_def)
    thus ?thesis unfolding again(3,4) append_Nil2 by (rule link_threads [OF lk]) simp_all
  qed
qed

text \<open>A downgrade of an idle handle sends the state and, from exclusive mode, the data.\<close>

lemma sync_downgrade_Ok:
  assumes "sync_downgrade m hid h = Ok (h', out, m')"
  shows "h' = h\<lparr>sh_cur := sh_server_req h, sh_server_req := SYNC_STATE_NONE\<rparr>"
    "out = [Sync_Msg IPC_MSG_SYNC_CONFIRM_DOWNGRADE hid (sh_server_req h)
       (if sh_cur h = SYNC_STATE_EXCLUSIVE then sh_data h else [])]"
    "sh_server_req h \<noteq> SYNC_STATE_NONE" "sh_server_req h < sh_cur h"
    "sh_phase h = SYNC_PHASE_OPEN" "\<not> sh_used h"
  using assms
  by (auto simp: sync_downgrade_def asserting_Ok and_then_Ok Let_def dest!: client_send_Ok)

lemma link_downgrade:
  assumes lk: "link hid (Some h) l q r" and p: "sh_phase h = SYNC_PHASE_OPEN"
    "sh_client_req h = SYNC_STATE_NONE"
    and t: "t \<noteq> SYNC_STATE_NONE" "t < sh_cur h" "sh_thread h = Unlocked"
    and d: "sh_cur h \<noteq> SYNC_STATE_EXCLUSIVE \<longrightarrow> d = []"
  shows "link hid (Some (h\<lparr>sh_cur := t\<rparr>)) l
    (q @ [Sync_Msg IPC_MSG_SYNC_CONFIRM_DOWNGRADE hid t d]) r"
proof -
  have h: "handle_ok h" using lk by (rule link_SomeE)
  have h': "handle_ok (h\<lparr>sh_cur := t\<rparr>)"
    using h p t handle_ok_unlocked [OF h t(3)] by (simp add: handle_ok_def)
  from lk show ?thesis
    by cases (use h' p t d in \<open>auto intro!: idle downs_append(2)\<close>)
qed

lemma client_update_data_Ok:
  "client_update_handle_data m h d = Ok (h', m') \<Longrightarrow> h' = h\<lparr>sh_data := d\<rparr>"
  by (auto simp: client_update_handle_data_def asserting_Ok split: prod.splits if_splits)

lemma link_data_change:
  assumes lk: "link hid (Some h) l q r" and o: "sh_phase h = SYNC_PHASE_OPEN" "l \<noteq> None"
  shows "link hid (Some (h\<lparr>sh_data := d\<rparr>)) l q r"
proof -
  have h: "handle_ok h" using lk by (rule link_SomeE)
  have "handle_ok (h\<lparr>sh_data := d\<rparr>)" using h o by (auto simp: handle_ok_def)
  with lk show ?thesis by (cases) (use o in \<open>auto intro: link.intros\<close>)
qed

lemma handle_ok_locked:
  assumes "handle_ok h" "sh_thread h = Locked s ret"
  shows "sh_phase h = SYNC_PHASE_OPEN" "sh_closer h = Nobody" "sh_waiters h = 0" "sh_used h"
    "s \<in> {SYNC_STATE_SHARED, SYNC_STATE_EXCLUSIVE}" "s \<le> sh_cur h"
    "sh_client_req h = SYNC_STATE_NONE"
proof -
  show p: "sh_phase h = SYNC_PHASE_OPEN" using assms by (auto simp: handle_ok_def)
  show c: "sh_closer h = Nobody" using assms p by (auto simp: handle_ok_def)
  show "sh_waiters h = 0" "sh_used h" "s \<in> {SYNC_STATE_SHARED, SYNC_STATE_EXCLUSIVE}"
    "s \<le> sh_cur h" "sh_client_req h = SYNC_STATE_NONE"
    using assms c by (auto simp: handle_ok_def)
qed

lemma link_lease:
  assumes "link hid (Some h) l q r" "sh_phase h = SYNC_PHASE_OPEN"
    "sh_client_req h = SYNC_STATE_NONE"
  shows "l \<noteq> None"
  using assms(1) by cases (use assms(2,3) in auto)

text \<open>
  The handle after \<open>sync_unlock\<close>: the new data, and the downgrade the server asked for while
  the handle was in use.
\<close>

lemma sync_unlock_cases:
  assumes "sync_unlock m True hid d h = Ok (h', out)" "handle_ok h" "sh_thread h = Locked s ret"
  obtains
    (kept) "sh_server_req h = SYNC_STATE_NONE" "out = []"
      "h' = h\<lparr>sh_data := if d = [] then sh_data h else d, sh_used := False,
             sh_thread := Unlocked\<rparr>"
  | (downgraded) "sh_server_req h \<noteq> SYNC_STATE_NONE" "sh_server_req h < sh_cur h"
      "h' = h\<lparr>sh_data := if d = [] then sh_data h else d, sh_used := False,
             sh_thread := Unlocked, sh_server_req := SYNC_STATE_NONE,
             sh_cur := sh_server_req h\<rparr>"
      "out = [Sync_Msg IPC_MSG_SYNC_CONFIRM_DOWNGRADE hid (sh_server_req h)
        (if sh_cur h = SYNC_STATE_EXCLUSIVE then if d = [] then sh_data h else d else [])]"
proof -
  let ?g = "h\<lparr>sh_data := if d = [] then sh_data h else d, sh_used := False,
    sh_thread := Unlocked\<rparr>"
  note w = handle_ok_locked [OF assms(2,3)]
  obtain h1 m1 where u: "(if d \<noteq> [] then client_update_handle_data m h d else Ok (h, m))
      = Ok (h1, m1)"
    using assms(1) by (auto simp: sync_unlock_def asserting_Ok and_then_Ok)
  hence "h1 = h\<lparr>sh_data := if d = [] then sh_data h else d\<rparr>"
    by (auto dest: client_update_data_Ok split: if_splits)
  hence r: "(if sh_phase h = SYNC_PHASE_OPEN \<and> sh_server_req h < sh_cur h
      \<and> sh_server_req h \<noteq> SYNC_STATE_NONE
    then and_then (sync_downgrade m1 hid ?g) (\<lambda>(h, out, m). Ok (h, out))
    else Ok (?g, [])) = Ok (h', out)"
    using assms(1) w(4) unfolding sync_unlock_def u by (simp add: asserting_Ok Let_def)
  show ?thesis
  proof (cases "sh_server_req h = SYNC_STATE_NONE")
    case True
    thus ?thesis using r that(1) by simp
  next
    case False
    hence lt: "sh_server_req h < sh_cur h" using assms(2) by (simp add: handle_ok_def)
    then obtain m2 where "sync_downgrade m1 hid ?g = Ok (h', out, m2)"
      using r w(1) False by (auto simp: and_then_Ok)
    from sync_downgrade_Ok [OF this] show ?thesis using that(2) False lt by simp
  qed
qed

lemma link_unlock:
  assumes lk: "link hid (Some h) l q r" and t: "sh_thread h = Locked s ret"
    and ok: "sync_unlock m True hid d h = Ok (h', out)"
  shows "link hid (Some h') l (q @ out) r"
proof -
  have h: "handle_ok h" using lk by (rule link_SomeE)
  note w = handle_ok_locked [OF h t]
  let ?d = "if d = [] then sh_data h else d"
  let ?g = "h\<lparr>sh_data := ?d, sh_used := False, sh_thread := Unlocked,
    sh_server_req := SYNC_STATE_NONE\<rparr>"
  have 1: "link hid (Some (h\<lparr>sh_data := ?d\<rparr>)) l q r"
    by (rule link_data_change [OF lk w(1) link_lease [OF lk w(1,7)]])
  have "handle_ok ?g" using h t w by (simp add: handle_ok_def)
  hence g: "link hid (Some ?g) l q r" by (rule link_threads [OF 1]) simp_all
  from ok h t show ?thesis
  proof (cases rule: sync_unlock_cases)
    case kept
    have "h' = ?g" unfolding kept(3) using kept(1) by simp
    thus ?thesis using g kept(2) by simp
  next
    case downgraded
    have h': "h' = ?g\<lparr>sh_cur := sh_server_req h\<rparr>" unfolding downgraded(3) by simp
    show ?thesis unfolding downgraded(4) h'
      by (rule link_downgrade [OF g]) (use w downgraded(1,2) in simp_all)
  qed
qed

text \<open>Closing. A handle that is not open leaves the table at once.\<close>

lemma sync_request_close_Ok:
  assumes "sync_request_close m hid h = Ok (h', out)"
  shows "h' = h\<lparr>sh_phase := SYNC_PHASE_CLOSING, sh_cur := SYNC_STATE_INVALID\<rparr>"
    "out = [close_msg hid (sh_cur h)
       (if sh_cur h = SYNC_STATE_EXCLUSIVE then sh_data h else [])]"
  using assms unfolding sync_request_close_def send_request_close_def
  by (auto simp: and_then_Ok Let_def dest!: client_send_Ok)

lemma link_close:
  assumes lk: "link hid (Some h) l q r" and t: "sh_thread h = Unlocked" "sh_closer h = Nobody"
    and p: "sh_phase h = SYNC_PHASE_OPEN" and ok: "sync_request_close m hid h = Ok (h', out)"
  shows "link hid (Some h') l (q @ out) r"
proof -
  have h: "handle_ok h" using lk by (rule link_SomeE)
  note u = handle_ok_unlocked [OF h t(1)]
  have h': "handle_ok h'" unfolding sync_request_close_Ok(1) [OF ok]
    using h t u by (simp add: handle_ok_def)
  have c: "sh_cur h \<noteq> SYNC_STATE_NONE" using h by (simp add: handle_ok_def)
  let ?msg = "close_msg hid (sh_cur h) (if sh_cur h = SYNC_STATE_EXCLUSIVE then sh_data h else [])"
  have "link hid (Some h') l (q @ [?msg]) r"
    if "l = Some l'" "lease_client_req l' = SYNC_STATE_NONE" "asks hid r"
      "downs hid (lease_cur l') q (sh_cur h) []" for l'
    unfolding that(1)
    by (rule closing [OF h' _ _ that(2) downs_append(1) [OF that(4)] c])
      (use that(3) u(2) sync_request_close_Ok(1) [OF ok] in auto)
  with lk show ?thesis unfolding sync_request_close_Ok(2) [OF ok]
    by cases (use p u(2) in auto)
qed

lemma link_closer:
  assumes lk: "link hid (Some h) l q r" and t: "sh_thread h = Unlocked" "sh_closer h = Nobody"
    and p: "sh_phase h = SYNC_PHASE_CLOSING" "c \<noteq> Nobody"
  shows "link hid (Some (sync_wait_begin (h\<lparr>sh_closer := c\<rparr>))) l q r"
proof -
  have h: "handle_ok h" using lk by (rule link_SomeE)
  have "handle_ok (sync_wait_begin (h\<lparr>sh_closer := c\<rparr>))"
    using h t p handle_ok_unlocked [OF h t(1)] by (simp add: handle_ok_def sync_wait_begin_def)
  thus ?thesis by (rule link_threads [OF lk]) (simp_all add: sync_wait_begin_def)
qed

lemma link_destroy:
  assumes lk: "link hid (Some h) l q r" and t: "sh_thread h = Unlocked" "sh_closer h = Nobody"
    and p: "sh_phase h \<noteq> SYNC_PHASE_CLOSING" and ok: "sync_destroy m True hid h = Ok (h', out)"
  shows "link hid h' l (q @ out) r"
proof (cases "sh_phase h = SYNC_PHASE_OPEN")
  case True
  obtain h1 where c: "sync_request_close m hid h = Ok (h1, out)"
    and h': "h' = Some (sync_wait_begin (h1\<lparr>sh_closer := In_Destroy\<rparr>))"
    using ok True by (auto simp: sync_destroy_def asserting_Ok and_then_Ok)
  show ?thesis unfolding h'
    by (rule link_closer [OF link_close [OF lk t True c]])
      (use t sync_request_close_Ok(1) [OF c] in simp_all)
next
  case False
  have "h' = None" "out = []" using ok False by (auto simp: sync_destroy_def asserting_Ok)
  with lk show ?thesis by cases (use p False in \<open>auto intro: absent\<close>)
qed

lemma handle_ok_closer:
  assumes "handle_ok h" "sh_closer h \<noteq> Nobody"
  shows "sh_thread h = Unlocked" "sh_waiters h = 1"
    "sh_phase h = SYNC_PHASE_CLOSING \<or> sh_phase h = SYNC_PHASE_CLOSED"
proof -
  show p: "sh_phase h = SYNC_PHASE_CLOSING \<or> sh_phase h = SYNC_PHASE_CLOSED"
    using assms by (simp add: handle_ok_def)
  show t: "sh_thread h = Unlocked" using assms p by (auto simp: handle_ok_def)
  show "sh_waiters h = 1" using assms t by (simp add: handle_ok_def)
qed

text \<open>The wait of a closing thread: it goes on until the handle is closed.\<close>

lemma link_close_wake:
  assumes lk: "link hid (Some h) l q r" and c: "sh_closer h \<noteq> Nobody"
  shows "sh_phase h \<noteq> SYNC_PHASE_CLOSED \<Longrightarrow>
      link hid (Some (sync_wait_begin (sync_wait_end h))) l q r"
    and "sh_phase h = SYNC_PHASE_CLOSED \<Longrightarrow>
      link hid (Some ((sync_wait_end h)\<lparr>sh_closer := Nobody\<rparr>)) l q r \<and> link hid None l q r"
proof -
  have h: "handle_ok h" using lk by (rule link_SomeE)
  note w = handle_ok_closer [OF h c]
  note u = handle_ok_unlocked [OF h w(1)]
  assume p: "sh_phase h \<noteq> SYNC_PHASE_CLOSED"
  have "handle_ok (sync_wait_begin (sync_wait_end h))" using h w u p c
    by (auto simp: handle_ok_def sync_wait_begin_def sync_wait_end_def Let_def)
  thus "link hid (Some (sync_wait_begin (sync_wait_end h))) l q r"
    by (rule link_threads [OF lk]) (simp_all add: sync_wait_begin_def sync_wait_end_def Let_def)
next
  have h: "handle_ok h" using lk by (rule link_SomeE)
  note w = handle_ok_closer [OF h c]
  note u = handle_ok_unlocked [OF h w(1)]
  assume p: "sh_phase h = SYNC_PHASE_CLOSED"
  have "handle_ok ((sync_wait_end h)\<lparr>sh_closer := Nobody\<rparr>)" using h w u p c
    by (auto simp: handle_ok_def sync_wait_end_def Let_def)
  hence "link hid (Some ((sync_wait_end h)\<lparr>sh_closer := Nobody\<rparr>)) l q r"
    by (rule link_threads [OF lk]) (simp_all add: sync_wait_end_def Let_def)
  moreover from lk have "link hid None l q r"
    by cases (use p in \<open>auto intro: absent\<close>)
  ultimately show "link hid (Some ((sync_wait_end h)\<lparr>sh_closer := Nobody\<rparr>)) l q r
      \<and> link hid None l q r" ..
qed

lemma sync_wait_end_phase [simp]: "sh_phase (sync_wait_end h) = sh_phase h"
  by (simp add: sync_wait_end_def Let_def)

lemma link_destroy_wake:
  "link hid (Some h) l q r \<Longrightarrow> sh_closer h = In_Destroy \<Longrightarrow> link hid (sync_destroy_wake h) l q r"
  using link_close_wake [of hid h l q r] by (simp add: sync_destroy_wake_def Let_def)

lemma link_shutdown_wake:
  "link hid (Some h) l q r \<Longrightarrow> sh_closer h = In_Shutdown \<Longrightarrow>
   link hid (Some (shutdown_wake h)) l q r"
  using link_close_wake [of hid h l q r] by (simp add: shutdown_wake_def Let_def)

lemma link_shutdown_close:
  assumes "link hid (Some h) l q r" "sh_thread h = Unlocked" "sh_closer h = Nobody"
    and "shutdown_close m True hid h = Ok (h', out)"
  shows "link hid (Some h') l (q @ out) r"
  using assms(4) link_close [OF assms(1-3)] assms(1)
  by (cases "sh_phase h = SYNC_PHASE_OPEN") (auto simp: shutdown_close_def)

lemma link_shutdown_wait:
  assumes "link hid (Some h) l q r" "sh_thread h = Unlocked" "sh_closer h = Nobody"
    and "sh_phase h \<noteq> SYNC_PHASE_OPEN"
  shows "link hid (Some (shutdown_wait h)) l q r"
proof (cases "sh_phase h = SYNC_PHASE_CLOSING")
  case True
  thus ?thesis using link_closer [OF assms(1-3) True, of In_Shutdown]
    by (simp add: shutdown_wait_def)
next
  case False
  thus ?thesis using assms(1,4) by (cases "sh_phase h") (simp_all add: shutdown_wait_def)
qed

section \<open>The messages of the server keep the invariant\<close>

lemma asks_Cons:
  "asks hid (msg # r) \<longleftrightarrow> asks hid r \<and> msg_code msg = IPC_MSG_SYNC_REQUEST_DOWNGRADE \<and>
     msg_id msg = hid \<and> msg_data msg = [] \<and>
     msg_state msg \<in> {SYNC_STATE_INVALID, SYNC_STATE_SHARED}"
  by (cases msg) (auto simp: asks_def)

lemma asks_simps [simp]:
  "asks hid []"
  "asks hid (r1 @ r2) \<longleftrightarrow> asks hid r1 \<and> asks hid r2"
  by (auto simp: asks_def)

text \<open>What the first message to a process can be, and the stage the handle is then in.\<close>

lemma link_ask:
  assumes "link hid h l q (Sync_Msg IPC_MSG_SYNC_REQUEST_DOWNGRADE hid' t d # r)"
  obtains h' where "h = Some h'" "d = []" "t \<in> {SYNC_STATE_INVALID, SYNC_STATE_SHARED}"
    "link hid h l q r"
proof -
  have 1: "h \<noteq> None \<and> d = [] \<and> t \<in> {SYNC_STATE_INVALID, SYNC_STATE_SHARED}"
    using assms by cases (auto simp: asks_Cons Cons_eq_append_conv)
  have "link hid h l q r" using assms
  proof cases
    case (confirmed h s l r1 r2 d)
    then obtain r1' where "r = r1' @ granted_msg hid s d # r2" "asks hid r1'"
      by (auto simp: asks_Cons Cons_eq_append_conv)
    thus ?thesis using confirmed by (blast intro: link.confirmed)
  next
    case (closed h r1)
    then obtain r1' where "r = r1' @ [closed_msg hid]" "asks hid r1'"
      by (auto simp: asks_Cons Cons_eq_append_conv)
    thus ?thesis using closed by (blast intro: link.closed)
  qed (auto simp: asks_Cons intro: link.intros)
  thus ?thesis using 1 that by blast
qed

lemma link_grant:
  assumes "link hid h l q (Sync_Msg IPC_MSG_SYNC_CONFIRM_UPGRADE hid' s d # r)"
  obtains h' l' where "h = Some h'" "l = Some l'" "handle_ok h'" "sh_phase h' = SYNC_PHASE_OPEN"
    "sh_client_req h' = s" "s \<noteq> SYNC_STATE_NONE" "lease_client_req l' = SYNC_STATE_NONE"
    "lease_cur l' = s" "q = []" "asks hid r"
  using assms by cases (auto simp: asks_Cons Cons_eq_append_conv)

lemma link_closed:
  assumes "link hid h l q (Sync_Msg IPC_MSG_SYNC_CONFIRM_CLOSE hid' s d # r)"
  obtains h' where "h = Some h'" "l = None" "handle_ok h'" "sh_phase h' = SYNC_PHASE_CLOSING"
    "sh_client_req h' = SYNC_STATE_NONE" "q = []" "r = []"
  using assms by cases (auto simp: asks_Cons Cons_eq_append_conv)

lemma do_request_downgrade_cases:
  assumes "do_request_downgrade m hid t h = Ok (h', out)"
  obtains
    (ignored) "h' = h" "out = []"
  | (later) "sh_phase h = SYNC_PHASE_OPEN" "t < sh_cur h" "sh_used h"
      "h' = h\<lparr>sh_server_req := t\<rparr>" "out = []"
  | (now) "sh_phase h = SYNC_PHASE_OPEN" "t < sh_cur h" "\<not> sh_used h"
      "h' = h\<lparr>sh_cur := t, sh_server_req := SYNC_STATE_NONE\<rparr>"
      "out = [Sync_Msg IPC_MSG_SYNC_CONFIRM_DOWNGRADE hid t
         (if sh_cur h = SYNC_STATE_EXCLUSIVE then sh_data h else [])]"
proof (cases "sh_phase h = SYNC_PHASE_OPEN \<and> sh_cur h > t
    \<and> (sh_server_req h > t \<or> sh_server_req h = SYNC_STATE_NONE)")
  case c: True
  show ?thesis
  proof (cases "sh_used h")
    case True
    thus ?thesis using assms c that(2) by (simp add: do_request_downgrade_def)
  next
    case False
    then obtain m' where "sync_downgrade m hid (h\<lparr>sh_server_req := t\<rparr>) = Ok (h', out, m')"
      using assms c by (auto simp: do_request_downgrade_def and_then_Ok)
    from sync_downgrade_Ok(1,2) [OF this] show ?thesis using c False that(3) by simp
  qed
next
  case False
  hence "h' = h \<and> out = []"
    using assms unfolding do_request_downgrade_def if_not_P [OF False] by simp
  thus ?thesis using that(1) by simp
qed

lemma link_do_request_downgrade:
  assumes lk: "link hid (Some h) l q r" and t: "t \<noteq> SYNC_STATE_NONE"
    and ok: "do_request_downgrade m hid t h = Ok (h', out)"
  shows "link hid (Some h') l (q @ out) r"
proof -
  have h: "handle_ok h" using lk by (rule link_SomeE)
  from ok show ?thesis
  proof (cases rule: do_request_downgrade_cases)
    case ignored
    thus ?thesis using lk by simp
  next
    case later
    have "handle_ok h'" unfolding later(4) using h later(1-3) by (simp add: handle_ok_def)
    thus ?thesis unfolding later(4,5) append_Nil2 by (rule link_threads [OF lk]) simp_all
  next
    case now
    have u: "sh_thread h = Unlocked" using h now(3) by (simp add: handle_ok_def)
    note n = handle_ok_unlocked [OF h u]
    have h': "h' = h\<lparr>sh_cur := t\<rparr>" unfolding now(4) using n(3) by simp
    show ?thesis unfolding now(5) h'
      by (rule link_downgrade [OF lk]) (use now u n t in simp_all)
  qed
qed

text \<open>A confirmed upgrade wakes the thread that waits for it.\<close>

lemma do_confirm_upgrade_Ok:
  assumes h: "handle_ok h" "sh_phase h = SYNC_PHASE_OPEN" "sh_client_req h = s"
    "s \<noteq> SYNC_STATE_NONE" and ok: "do_confirm_upgrade m s d h = Ok h'"
  shows "h' = h\<lparr>sh_cur := s, sh_client_req := SYNC_STATE_NONE, sh_event := True,
      sh_data := if d = [] then sh_data h else d\<rparr>" "handle_ok h'"
proof -
  have "(\<exists>n. sh_thread h = Waiting s n) \<and> sh_cur h < s"
    using h(1,3,4) unfolding handle_ok_def by blast
  then obtain n where t: "sh_thread h = Waiting s n" "sh_cur h < s" by blast
  note w = handle_ok_waiting [OF h(1) t(1)]
  have n: "sync_notify (h\<lparr>sh_cur := s, sh_client_req := SYNC_STATE_NONE\<rparr>) =
      h\<lparr>sh_cur := s, sh_client_req := SYNC_STATE_NONE, sh_event := True\<rparr>"
    using w(3) by (simp add: sync_notify_def)
  show h': "h' = h\<lparr>sh_cur := s, sh_client_req := SYNC_STATE_NONE, sh_event := True,
      sh_data := if d = [] then sh_data h else d\<rparr>"
  proof (cases "d = []")
    case True
    thus ?thesis using ok h(2) t(2) n by (auto simp: do_confirm_upgrade_def Let_def)
  next
    case False
    then obtain m' where "client_update_handle_data m
        (h\<lparr>sh_cur := s, sh_client_req := SYNC_STATE_NONE, sh_event := True\<rparr>) d = Ok (h', m')"
      using ok h(2) t(2) n by (auto simp: do_confirm_upgrade_def Let_def and_then_Ok)
    from client_update_data_Ok [OF this] show ?thesis using False by simp
  qed
  show "handle_ok h'" unfolding h' using h t w by (auto simp: handle_ok_def)
qed

lemma link_do_confirm_upgrade:
  assumes lk: "link hid (Some h) l q (Sync_Msg IPC_MSG_SYNC_CONFIRM_UPGRADE hid s d # r)"
    and ok: "do_confirm_upgrade m s d h = Ok h'"
  shows "link hid (Some h') l q r"
proof -
  obtain l' where 1: "l = Some l'" "handle_ok h" "sh_phase h = SYNC_PHASE_OPEN"
    "sh_client_req h = s" "s \<noteq> SYNC_STATE_NONE" "lease_client_req l' = SYNC_STATE_NONE"
    "lease_cur l' = s" "q = []" "asks hid r"
    using lk by (rule link_grant) simp
  note c = do_confirm_upgrade_Ok [OF 1(2-5) ok]
  show ?thesis unfolding 1(1,8)
    by (rule idle [OF c(2)]) (use 1 c(1) in simp_all)
qed

lemma link_do_confirm_close:
  assumes lk: "link hid (Some h) l q (Sync_Msg IPC_MSG_SYNC_CONFIRM_CLOSE hid s d # r)"
  shows "link hid (Some (do_confirm_close h)) l q r"
proof -
  have 1: "l = None" "handle_ok h" "sh_phase h = SYNC_PHASE_CLOSING"
    "sh_client_req h = SYNC_STATE_NONE" "q = []" "r = []"
    by (rule link_closed [OF lk], simp)+
  have "handle_ok (do_confirm_close h)"
    using 1(2,3) by (auto simp: handle_ok_def do_confirm_close_def sync_notify_def)
  thus ?thesis unfolding 1(1,5,6)
    by (rule unregistered) (use 1(3,4) in \<open>auto simp: do_confirm_close_def sync_notify_def\<close>)
qed

text \<open>
  The handler as a whole: it changes the handle the message is about, sends messages about
  that handle only, and never meets an unknown handle.
\<close>

lemma client_message_asserts:
  "handle_ok h \<Longrightarrow> t \<noteq> SYNC_STATE_NONE \<Longrightarrow> do_request_downgrade m hid t h \<noteq> Assertion_Failed"
  "do_confirm_upgrade m s d h \<noteq> Assertion_Failed"
  by (auto simp: do_request_downgrade_def do_confirm_upgrade_def sync_downgrade_def
      client_update_handle_data_def outcome_simps Let_def split: prod.splits if_splits)

lemma link_message_codes:
  assumes "link hid h l q (msg # r)"
  shows "h \<noteq> None" "msg_code msg \<in> {IPC_MSG_SYNC_REQUEST_DOWNGRADE, IPC_MSG_SYNC_CONFIRM_UPGRADE,
      IPC_MSG_SYNC_CONFIRM_CLOSE}"
proof -
  show "h \<noteq> None" using assms by cases (auto simp: asks_Cons Cons_eq_append_conv)
  show "msg_code msg \<in> {IPC_MSG_SYNC_REQUEST_DOWNGRADE, IPC_MSG_SYNC_CONFIRM_UPGRADE,
      IPC_MSG_SYNC_CONFIRM_CLOSE}"
    using assms by cases (auto simp: asks_Cons Cons_eq_append_conv)
qed

lemma do_request_downgrade_ids:
  "do_request_downgrade m hid t h = Ok (h', out) \<Longrightarrow> \<forall>x\<in>set out. msg_id x = hid"
  by (erule do_request_downgrade_cases) simp_all

lemma link_client_message:
  assumes lk: "link hid (tbl hid) l q (msg # r)" and i: "msg_id msg = hid"
  shows "sync_client_message_callback m True tbl msg \<noteq> Assertion_Failed"
    and "sync_client_message_callback m True tbl msg = Ok (tbl', out) \<Longrightarrow>
      \<exists>h'. tbl' = tbl(hid \<mapsto> h') \<and> link hid (Some h') l (q @ out) r \<and>
        (\<forall>x\<in>set out. msg_id x = hid)"
proof -
  obtain h where h: "tbl hid = Some h" using link_message_codes(1) [OF lk] by auto
  have ok: "handle_ok h" using lk unfolding h by (rule link_SomeE)
  obtain code t d where msg: "msg = Sync_Msg code hid t d" using i by (cases msg) simp
  note lk' = lk [unfolded h msg]
  have codes: "code = IPC_MSG_SYNC_REQUEST_DOWNGRADE \<or> code = IPC_MSG_SYNC_CONFIRM_UPGRADE
      \<or> code = IPC_MSG_SYNC_CONFIRM_CLOSE" using link_message_codes(2) [OF lk] msg by auto
  have ask: "d = []" "t \<noteq> SYNC_STATE_NONE" "link hid (Some h) l q r"
    if "code = IPC_MSG_SYNC_REQUEST_DOWNGRADE"
    using lk' unfolding that by (auto elim: link_ask)
  show "sync_client_message_callback m True tbl msg \<noteq> Assertion_Failed"
    using codes ask(1,2) client_message_asserts ok unfolding msg sync_client_message_callback_def
    by (auto simp: h outcome_simps)
  assume c: "sync_client_message_callback m True tbl msg = Ok (tbl', out)"
  from codes show "\<exists>h'. tbl' = tbl(hid \<mapsto> h') \<and> link hid (Some h') l (q @ out) r \<and>
        (\<forall>x\<in>set out. msg_id x = hid)"
  proof (elim disjE)
    assume code: "code = IPC_MSG_SYNC_REQUEST_DOWNGRADE"
    then obtain h' where "do_request_downgrade m hid t h = Ok (h', out)" "tbl' = tbl(hid \<mapsto> h')"
      using c h by (auto simp: sync_client_message_callback_def msg outcome_simps)
    thus ?thesis
      using link_do_request_downgrade [OF ask(3,2)] do_request_downgrade_ids code by blast
  next
    assume code: "code = IPC_MSG_SYNC_CONFIRM_UPGRADE"
    then obtain h' where "do_confirm_upgrade m t d h = Ok h'" "tbl' = tbl(hid \<mapsto> h')" "out = []"
      using c h by (auto simp: sync_client_message_callback_def msg outcome_simps)
    thus ?thesis using link_do_confirm_upgrade [OF lk' [unfolded code]] by auto
  next
    assume code: "code = IPC_MSG_SYNC_CONFIRM_CLOSE"
    hence "tbl' = tbl(hid \<mapsto> do_confirm_close h)" "out = []"
      using c h by (auto simp: sync_client_message_callback_def msg outcome_simps)
    thus ?thesis using link_do_confirm_close [OF lk' [unfolded code]] by auto
  qed
qed

end
