(* ===== verification/Sync_Invariant.thy ===== *)
theory Sync_Invariant
  imports Sync_System
begin

text \<open>
  The server's part of the invariant of the sync engine: the lease of a process on a handle, the
  tables of handles and clients, and what each message handler of the server does to the
  leases of the handle, seen from every process.
\<close>

section \<open>The server and one link\<close>

lemma link_granted:
  assumes "link hid h (Some l) q r" "granted hid data e l l' msgs"
  shows "link hid h (Some l') q (r @ msgs)"
proof (cases "l' = l \<and> msgs = []")
  case True
  thus ?thesis using assms(1) by simp
next
  case False
  hence g: "lease_client_req l \<in> {SYNC_STATE_SHARED, SYNC_STATE_EXCLUSIVE}"
    "l' = l\<lparr>lease_cur := lease_client_req l, lease_client_req := SYNC_STATE_NONE\<rparr>"
    "msgs = [granted_msg hid (lease_client_req l) data]"
    using assms(2) unfolding granted_def by blast+
  from assms(1) show ?thesis
  proof cases
    case (requested h' s)
    have "link hid (Some h') (Some l') [] (r @ granted_msg hid s data # [])"
      by (rule confirmed) (use requested g in simp_all)
    thus ?thesis using requested g by simp
  qed (use g(1) in auto)
qed

lemma link_asked:
  assumes lk: "link hid h (Some l) q r" and a: "asked hid l l' msgs"
  shows "link hid h (Some l') q (r @ msgs)"
proof -
  note f = asked_fields [OF a]
  have m: "asks hid msgs" using a unfolding asked_def asks_def by auto
  from lk show ?thesis
  proof cases
    case (confirmed h' s r1 r2 d)
    have "link hid (Some h') (Some l') [] (r1 @ granted_msg hid s d # (r2 @ msgs))"
      by (rule link.confirmed) (use confirmed f m in simp_all)
    thus ?thesis using confirmed by simp
  qed (use f m in \<open>auto intro: link.intros\<close>)
qed

lemma link_served:
  assumes "link hid h (Some l) q r" "served hid data e l l' msgs"
  shows "link hid h (Some l') q (r @ msgs)"
proof -
  obtain l1 m1 m2 where "granted hid data e l l1 m1" "asked hid l1 l' m2" "msgs = m1 @ m2"
    using assms(2) unfolding served_def by blast
  thus ?thesis using link_asked [OF link_granted [OF assms(1)]] by simp
qed

lemma granted_ids: "granted hid data e l l' msgs \<Longrightarrow> \<forall>x\<in>set msgs. msg_id x = hid"
  by (auto simp: granted_def)

lemma asked_ids: "asked hid l l' msgs \<Longrightarrow> \<forall>x\<in>set msgs. msg_id x = hid"
  by (auto simp: asked_def)

lemma served_ids: "served hid data e l l' msgs \<Longrightarrow> \<forall>x\<in>set msgs. msg_id x = hid"
  unfolding served_def using granted_ids asked_ids by fastforce

lemma served_fields: "served hid data e l l' msgs \<Longrightarrow> lease_client l' = lease_client l"
  unfolding served_def granted_def asked_def by auto

text \<open>The first message to the server, and what the lease looks like after it.\<close>

definition new_lease :: "u32 \<Rightarrow> server_lease" where
  "new_lease v = \<lparr>lease_client = v, lease_cur = SYNC_STATE_INVALID,
     lease_client_req = SYNC_STATE_NONE, lease_server_req = SYNC_STATE_NONE\<rparr>"

lemma handle_ok_request:
  assumes "handle_ok h" "sh_client_req h = s" "s \<noteq> SYNC_STATE_NONE"
  shows "s \<in> {SYNC_STATE_SHARED, SYNC_STATE_EXCLUSIVE}" "sh_cur h < s"
  using assms unfolding handle_ok_def by (metis lock_thread.inject(1))+

lemma link_upgrade_msg:
  assumes "link hid h l (Sync_Msg IPC_MSG_SYNC_REQUEST_UPGRADE hid' s d # q) r"
  shows "d = []" "s \<in> {SYNC_STATE_SHARED, SYNC_STATE_EXCLUSIVE}" "q = []"
    "lease_client_req (case l of None \<Rightarrow> new_lease v | Some l \<Rightarrow> l) = SYNC_STATE_NONE"
    "lease_cur (case l of None \<Rightarrow> new_lease v | Some l \<Rightarrow> l) < s"
    "link hid h (Some ((case l of None \<Rightarrow> new_lease v | Some l \<Rightarrow> l)\<lparr>lease_client_req := s\<rparr>)) [] r"
proof -
  let ?l = "case l of None \<Rightarrow> new_lease v | Some l \<Rightarrow> l"
  obtain h' where h: "h = Some h'" "handle_ok h'" "sh_phase h' = SYNC_PHASE_OPEN"
    "sh_client_req h' = s" "s \<noteq> SYNC_STATE_NONE" "lease_client_req ?l = SYNC_STATE_NONE"
    "lease_cur ?l = sh_cur h'" "asks hid r" "d = []" "q = []"
    using assms by cases (auto simp: new_lease_def)
  note rq = handle_ok_request [OF h(2,4,5)]
  show "d = []" "s \<in> {SYNC_STATE_SHARED, SYNC_STATE_EXCLUSIVE}" "q = []"
    "lease_client_req ?l = SYNC_STATE_NONE" "lease_cur ?l < s" using h rq by auto
  show "link hid h (Some (?l\<lparr>lease_client_req := s\<rparr>)) [] r"
    unfolding h(1) by (rule requested [OF h(2-5)]) (use h in simp_all)
qed

lemma link_downgrade_msg:
  assumes "link hid h l (Sync_Msg IPC_MSG_SYNC_CONFIRM_DOWNGRADE hid' t d # q) r"
  obtains l' where "l = Some l'" "t \<in> {SYNC_STATE_INVALID, SYNC_STATE_SHARED}"
    "t < lease_cur l'" "lease_cur l' \<noteq> SYNC_STATE_EXCLUSIVE \<longrightarrow> d = []"
    "lease_client_req l' = SYNC_STATE_NONE"
    "\<And>l''. lease_cur l'' = t \<Longrightarrow> lease_client_req l'' = SYNC_STATE_NONE \<Longrightarrow>
       link hid h (Some l'') q r"
proof -
  have "\<exists>l'. l = Some l' \<and> t \<noteq> SYNC_STATE_NONE \<and> t < lease_cur l' \<and>
    (lease_cur l' \<noteq> SYNC_STATE_EXCLUSIVE \<longrightarrow> d = []) \<and> lease_client_req l' = SYNC_STATE_NONE \<and>
    (\<forall>l''. lease_cur l'' = t \<longrightarrow> lease_client_req l'' = SYNC_STATE_NONE \<longrightarrow>
       link hid h (Some l'') q r)"
    using assms by cases (auto intro: link.intros)
  moreover have "t \<in> {SYNC_STATE_INVALID, SYNC_STATE_SHARED}"
    if "t \<noteq> SYNC_STATE_NONE" "t < x" for x
    using that by (cases t; cases x) (auto simp: sync_state_order)
  ultimately show ?thesis using that by blast
qed

lemma link_close_msg:
  assumes "link hid h l (Sync_Msg IPC_MSG_SYNC_REQUEST_CLOSE hid' s d # q) r"
  obtains l' where "l = Some l'" "lease_cur l' = s" "s \<noteq> SYNC_STATE_NONE"
    "s \<noteq> SYNC_STATE_EXCLUSIVE \<longrightarrow> d = []" "q = []" "link hid h None [] (r @ [closed_msg hid])"
proof -
  have "\<exists>l'. l = Some l' \<and> lease_cur l' = s \<and> s \<noteq> SYNC_STATE_NONE \<and>
    (s \<noteq> SYNC_STATE_EXCLUSIVE \<longrightarrow> d = []) \<and> q = [] \<and> link hid h None [] (r @ [closed_msg hid])"
    using assms by cases (auto intro: link.intros)
  thus ?thesis using that by blast
qed

lemma link_up_codes:
  assumes "link hid h l (msg # q) r"
  shows "msg_code msg \<in> {IPC_MSG_SYNC_REQUEST_UPGRADE, IPC_MSG_SYNC_CONFIRM_DOWNGRADE,
      IPC_MSG_SYNC_REQUEST_CLOSE}"
  using assms by cases (auto split: if_splits)

section \<open>The leases of a handle, by process\<close>

definition lease_in :: "u32 \<Rightarrow> server_lease list \<Rightarrow> server_lease option" where
  "lease_in v ls = find (\<lambda>l. lease_client l = v) ls"

definition lease_of :: "server_state \<Rightarrow> u32 \<Rightarrow> u64 \<Rightarrow> server_lease option" where
  "lease_of st v hid =
     (case server_handles st hid of None \<Rightarrow> None | Some h \<Rightarrow> lease_in v (srv_leases h))"

lemma lease_in_simps [simp]:
  "lease_in v [] = None"
  "lease_in v (l # ls) = (if lease_client l = v then Some l else lease_in v ls)"
  by (simp_all add: lease_in_def)

lemma lease_in_append:
  "lease_in v (xs @ ys) = (case lease_in v xs of None \<Rightarrow> lease_in v ys | Some l \<Rightarrow> Some l)"
  by (induction xs) auto

lemma lease_in_None: "lease_in v ls = None \<longleftrightarrow> v \<notin> lease_client ` set ls"
  by (induction ls) auto

lemma lease_in_Some: "lease_in v ls = Some l \<Longrightarrow> l \<in> set ls \<and> lease_client l = v"
  by (induction ls) (auto split: if_splits)

lemma lease_in_set:
  "distinct (map lease_client ls) \<Longrightarrow> l \<in> set ls \<Longrightarrow> lease_in (lease_client l) ls = Some l"
  by (induction ls) force+

lemma lease_split:
  assumes "distinct (map lease_client ls)" "lease_in v ls = Some l"
  obtains xs ys where "ls = xs @ l # ys" "lease_client l = v"
    "v \<notin> lease_client ` set xs" "v \<notin> lease_client ` set ys"
proof -
  obtain xs ys where "ls = xs @ l # ys" using lease_in_Some [OF assms(2)] split_list by metis
  thus ?thesis using that assms lease_in_Some [OF assms(2)] by auto
qed

lemma lease_split_ops:
  assumes "v \<notin> lease_client ` set xs" "v \<notin> lease_client ` set ys" "lease_client l = v"
    "lease_client l' = v"
  shows "set_lease l' (xs @ l # ys) = xs @ l' # ys"
    "[x \<leftarrow> xs @ l # ys. lease_client x \<noteq> v] = xs @ ys"
    "move_to_tail v (xs @ l # ys) = xs @ ys @ [l]"
proof -
  have m: "map (\<lambda>x. if lease_client x = lease_client l' then l' else x) zs = zs"
    "[x \<leftarrow> zs. lease_client x \<noteq> v] = zs" "[x \<leftarrow> zs. lease_client x = v] = []"
    if "v \<notin> lease_client ` set zs" for zs
    using that assms(4) by (induction zs) auto
  show "set_lease l' (xs @ l # ys) = xs @ l' # ys"
    "[x \<leftarrow> xs @ l # ys. lease_client x \<noteq> v] = xs @ ys"
    "move_to_tail v (xs @ l # ys) = xs @ ys @ [l]"
    using m [OF assms(1)] m [OF assms(2)] assms(3,4)
    by (simp_all add: set_lease_def move_to_tail_def)
qed

lemma lease_split_in:
  assumes "v \<notin> lease_client ` set xs" "v \<notin> lease_client ` set ys" "lease_client l = v"
    "lease_client l' = v"
  shows "lease_in w (xs @ l' # ys) = (if w = v then Some l' else lease_in w (xs @ l # ys))"
    "lease_in w (xs @ ys @ [l']) = (if w = v then Some l' else lease_in w (xs @ l # ys))"
    "lease_in w (xs @ ys) = (if w = v then None else lease_in w (xs @ l # ys))"
  using assms unfolding lease_in_None [symmetric]
  by (auto simp: lease_in_append split: option.splits)

text \<open>
  A lease may be replaced by one in a lower or the same state, added in the invalid state, or
  dropped.
\<close>

lemma leases_ok_replace:
  assumes "leases_ok (xs @ l # ys)" "lease_ok l'" "lease_client l' = lease_client l"
    "lease_cur l' \<le> lease_cur l"
  shows "leases_ok (xs @ l' # ys)"
proof -
  have c: "num_cur SYNC_STATE_EXCLUSIVE [l'] \<le> num_cur SYNC_STATE_EXCLUSIVE [l]"
    "num_cur SYNC_STATE_SHARED [l'] \<le> num_cur SYNC_STATE_SHARED [l]
       + num_cur SYNC_STATE_EXCLUSIVE [l] - num_cur SYNC_STATE_EXCLUSIVE [l']"
    using assms(4) by (cases "lease_cur l"; cases "lease_cur l'"; simp add: sync_state_order)+
  have "exclusion (num_cur SYNC_STATE_SHARED (xs @ l' # ys))
      (num_cur SYNC_STATE_EXCLUSIVE (xs @ l' # ys))"
    using assms(1) c unfolding leases_ok_def exclusion_def by (auto split: if_splits)
  thus ?thesis using assms(1-3) unfolding leases_ok_def by simp
qed

lemma leases_ok_drop: "leases_ok (xs @ l # ys) \<Longrightarrow> leases_ok (xs @ ys)"
  by (auto simp: leases_ok_def exclusion_def split: if_splits)

lemma leases_ok_add:
  assumes "leases_ok ls" "lease_ok l" "lease_cur l = SYNC_STATE_INVALID" "lease_in (lease_client l) ls = None"
  shows "leases_ok (ls @ [l])"
  using assms by (auto simp: leases_ok_def lease_in_None)

lemma leases_ok_tail: "leases_ok (xs @ l # ys) \<longleftrightarrow> leases_ok (xs @ ys @ [l])"
  by (rule leases_ok_perm) simp

text \<open>The result of \<open>process_handle\<close> by process.\<close>

definition view_served ::
  "u64 \<Rightarrow> u8 list \<Rightarrow> (u32 \<Rightarrow> server_lease option) \<Rightarrow> server_handle \<Rightarrow> sent \<Rightarrow> bool" where
  "view_served hid data f h out \<longleftrightarrow>
     srv_data h = data \<and> leases_ok (srv_leases h) \<and>
     (\<exists>e. (e = 0 \<longrightarrow> (\<forall>w l. f w = Some l \<longrightarrow> lease_cur l \<noteq> SYNC_STATE_EXCLUSIVE)) \<and>
       (\<forall>w. case f w of
          None \<Rightarrow> lease_in w (srv_leases h) = None \<and> to_client w out = []
        | Some l \<Rightarrow> (\<exists>l'. lease_in w (srv_leases h) = Some l' \<and>
                       served hid data e l l' (to_client w out))))"

lemma process_handle_view:
  assumes ok: "process_handle m hid h = Ok (h', out, m')" and l: "leases_ok (srv_leases h)"
  shows "view_served hid (srv_data h) (\<lambda>w. lease_in w (srv_leases h)) h' out"
proof -
  let ?e = "num_cur SYNC_STATE_EXCLUSIVE (srv_leases h)"
  have d: "distinct (map lease_client (srv_leases h))" using l by (simp add: leases_ok_def)
  note s = process_handle_served [OF ok d]
  have ok': "leases_ok (srv_leases h')" by (rule process_handle_counted [OF ok l])
  hence d': "distinct (map lease_client (srv_leases h'))" by (simp add: leases_ok_def)
  have none: "lease_in w (srv_leases h') = None \<and> to_client w out = []"
    if "lease_in w (srv_leases h) = None" for w
  proof -
    have w: "w \<notin> lease_client ` set (srv_leases h)" using that lease_in_None by blast
    hence "w \<notin> lease_client ` set (srv_leases h')" using s(4) by (metis list.set_map)
    moreover have "w \<notin> fst ` set out" using w s(3) by blast
    ultimately show ?thesis using to_client_none lease_in_None by blast
  qed
  have some: "\<exists>l'. lease_in w (srv_leases h') = Some l' \<and>
      served hid (srv_data h) ?e l l' (to_client w out)"
    if w: "lease_in w (srv_leases h) = Some l" for w l
  proof -
    obtain i where i: "i < length (srv_leases h)" "srv_leases h ! i = l" "lease_client l = w"
      using lease_in_Some [OF w] by (auto simp: in_set_conv_nth)
    have len: "length (srv_leases h') = length (srv_leases h)" using s(4) by (metis length_map)
    have c: "lease_client (srv_leases h' ! i) = w"
      using s(4) i len by (metis nth_map)
    have "served hid (srv_data h) ?e l (srv_leases h' ! i) (to_client w out)"
      using list_all2_nthD [OF s(2) i(1)] i by simp
    moreover have "lease_in w (srv_leases h') = Some (srv_leases h' ! i)"
      using lease_in_set [OF d', of "srv_leases h' ! i"] i(1) len c by simp
    ultimately show ?thesis by blast
  qed
  have e: "\<forall>w l. lease_in w (srv_leases h) = Some l \<longrightarrow> lease_cur l \<noteq> SYNC_STATE_EXCLUSIVE"
    if "?e = 0"
    using that lease_in_Some unfolding num_cur_0 by blast
  show ?thesis unfolding view_served_def
    by (intro conjI exI [of _ ?e] allI impI s(1) ok')
      (use e none some in \<open>auto split: option.split\<close>)
qed

section \<open>The handlers of the server\<close>

definition old_handle :: "server_state \<Rightarrow> u64 \<Rightarrow> server_handle" where
  "old_handle st hid =
     (case server_handles st hid of None \<Rightarrow> \<lparr>srv_data = [], srv_leases = []\<rparr> | Some h \<Rightarrow> h)"

definition handles_ok :: "server_state \<Rightarrow> bool" where
  "handles_ok st \<longleftrightarrow> (\<forall>hid h. server_handles st hid = Some h \<longrightarrow>
     leases_ok (srv_leases h) \<and> srv_leases h \<noteq> [])"

lemma lease_of_old: "lease_of st v hid = lease_in v (srv_leases (old_handle st hid))"
  by (simp add: lease_of_def old_handle_def split: option.split)

lemma handles_ok_old: "handles_ok st \<Longrightarrow> leases_ok (srv_leases (old_handle st hid))"
  by (auto simp: handles_ok_def old_handle_def leases_ok_def exclusion_def split: option.split)

lemma find_handle_create:
  assumes "server_find_handle m st hid True = (Some h, st', m')"
  shows "h = old_handle st hid" "server_clients st' = server_clients st"
    "server_handles st' = (server_handles st)(hid \<mapsto> old_handle st hid)"
  using assms
  by (auto simp: server_find_handle_def old_handle_def Let_def
      split: option.splits prod.splits if_splits)

lemma find_lease_existing:
  "lease_in v (srv_leases h) = Some l \<Longrightarrow> find_lease m st hid h v c = (Some (l, h), st, m)"
  by (simp add: find_lease_def lease_in_def)

lemma find_lease_create:
  assumes "find_lease m st hid h v True = (Some (l, h'), st', m')"
    and "lease_in v (srv_leases h) = None"
  shows "l = new_lease v" "h' = h\<lparr>srv_leases := srv_leases h @ [new_lease v]\<rparr>"
    "server_handles st' = (server_handles st)(hid \<mapsto> h')"
    "server_clients st' = (server_clients st)(v \<mapsto>
       (case server_clients st v of None \<Rightarrow> [] | Some ids \<Rightarrow> ids) @ [hid])"
  using assms
  by (auto simp: find_lease_def lease_in_def find_client_def new_lease_def Let_def
      split: option.splits prod.splits if_splits)

lemma new_lease_ok [simp]:
  "lease_ok (new_lease v)" "lease_client (new_lease v) = v"
  "lease_cur (new_lease v) = SYNC_STATE_INVALID"
  "lease_client_req (new_lease v) = SYNC_STATE_NONE"
  by (simp_all add: new_lease_def lease_ok_def)

text \<open>The table of clients follows the leases.\<close>

definition clients_ok :: "server_state \<Rightarrow> bool" where
  "clients_ok st \<longleftrightarrow> (\<forall>v.
     case server_clients st v of
       None \<Rightarrow> (\<forall>hid. lease_of st v hid = None)
     | Some ids \<Rightarrow> ids \<noteq> [] \<and> distinct ids \<and> set ids = {hid. lease_of st v hid \<noteq> None})"

text \<open>
  The effect of a handler: the leases \<open>f\<close> of the handle after the direct effect of the
  message are served; other handles are untouched; the table of clients follows.
\<close>

definition clients_follow ::
  "server_state \<Rightarrow> u64 \<Rightarrow> (u32 \<Rightarrow> server_lease option) \<Rightarrow> server_state \<Rightarrow> bool" where
  "clients_follow st hid f st' \<longleftrightarrow> (\<forall>v. server_clients st' v =
     (if lease_of st v hid = None \<and> f v \<noteq> None
      then Some ((case server_clients st v of None \<Rightarrow> [] | Some ids \<Rightarrow> ids) @ [hid])
      else if lease_of st v hid \<noteq> None \<and> f v = None
      then (case server_clients st v of
              None \<Rightarrow> None
            | Some ids \<Rightarrow> if remove1 hid ids = [] then None else Some (remove1 hid ids))
      else server_clients st v))"

definition handler_view ::
  "server_state \<Rightarrow> u64 \<Rightarrow> u8 list \<Rightarrow> (u32 \<Rightarrow> server_lease option) \<Rightarrow> server_state \<Rightarrow> sent \<Rightarrow> bool"
  where
  "handler_view st hid data f st' out \<longleftrightarrow>
     (\<exists>h. server_handles st' = (server_handles st)(hid \<mapsto> h) \<and> view_served hid data f h out) \<and>
     clients_follow st hid f st'"

text \<open>
  \<open>find_handle\<close> and \<open>find_lease\<close> with \<open>create\<close> set: the handle \<open>h1\<close> has the lease \<open>l\<close> of the
  process, and once a handle is stored back the tables are those of the old state but for
  this handle and the client's list.
\<close>

lemma find_or_create:
  assumes fh: "server_find_handle m st hid True = (Some h0, st1, m1)"
    and fl: "find_lease m1 st1 hid h0 v True = (Some (l1, h1), st2, m2)" and st: "handles_ok st"
    and l: "l = (case lease_of st v hid of None \<Rightarrow> new_lease v | Some l \<Rightarrow> l)"
  shows "l1 = l" "leases_ok (srv_leases h1)" "srv_data h1 = srv_data (old_handle st hid)"
    "lease_in v (srv_leases h1) = Some l"
    "w \<noteq> v \<Longrightarrow> lease_in w (srv_leases h1) = lease_of st w hid"
    "server_handles (store_handle hid h' st2) = (server_handles st)(hid \<mapsto> h')"
    "server_clients (store_handle hid h' st2) =
      (if lease_of st v hid = None then (server_clients st)(v \<mapsto>
         (case server_clients st v of None \<Rightarrow> [] | Some ids \<Rightarrow> ids) @ [hid])
       else server_clients st)"
proof -
  let ?h = "old_handle st hid"
  note f = find_handle_create [OF fh]
  note fl' = fl [unfolded f(1)]
  have lo: "leases_ok (srv_leases ?h)" by (rule handles_ok_old [OF st])
  note lf = l [unfolded lease_of_old]
  have "l1 = l \<and> leases_ok (srv_leases h1) \<and> srv_data h1 = srv_data ?h \<and>
      lease_in v (srv_leases h1) = Some l \<and>
      (\<forall>w. w \<noteq> v \<longrightarrow> lease_in w (srv_leases h1) = lease_in w (srv_leases ?h)) \<and>
      server_handles (store_handle hid h' st2) = (server_handles st)(hid \<mapsto> h') \<and>
      server_clients (store_handle hid h' st2) =
        (if lease_in v (srv_leases ?h) = None then (server_clients st)(v \<mapsto>
           (case server_clients st v of None \<Rightarrow> [] | Some ids \<Rightarrow> ids) @ [hid])
         else server_clients st)" for h'
  proof (cases "lease_in v (srv_leases ?h)")
    case None
    note n = find_lease_create [OF fl' None]
    have "leases_ok (srv_leases ?h @ [new_lease v])"
      by (rule leases_ok_add) (use lo None in simp_all)
    thus ?thesis using None n f(2,3) lf
      by (auto simp: lease_in_append store_handle_def split: option.split)
  next
    case (Some l2)
    thus ?thesis using fl' find_lease_existing [OF Some] lf lo f(2,3)
      by (auto simp: store_handle_def)
  qed
  thus "l1 = l" "leases_ok (srv_leases h1)" "srv_data h1 = srv_data ?h"
    "lease_in v (srv_leases h1) = Some l"
    "w \<noteq> v \<Longrightarrow> lease_in w (srv_leases h1) = lease_of st w hid"
    "server_handles (store_handle hid h' st2) = (server_handles st)(hid \<mapsto> h')"
    "server_clients (store_handle hid h' st2) =
      (if lease_of st v hid = None then (server_clients st)(v \<mapsto>
         (case server_clients st v of None \<Rightarrow> [] | Some ids \<Rightarrow> ids) @ [hid])
       else server_clients st)"
    unfolding lease_of_old by blast+
qed

lemma do_request_upgrade_view:
  assumes ok: "do_request_upgrade m st v hid s = Ok (st', out)" and st: "handles_ok st"
    and l: "l = (case lease_of st v hid of None \<Rightarrow> new_lease v | Some l \<Rightarrow> l)"
  shows "handler_view st hid (srv_data (old_handle st hid))
    ((\<lambda>w. lease_of st w hid)(v \<mapsto> l\<lparr>lease_client_req := s\<rparr>)) st' out"
proof -
  let ?h = "old_handle st hid" and ?l = "l\<lparr>lease_client_req := s\<rparr>"
  obtain h0 st1 m1 where fh: "server_find_handle m st hid True = (Some h0, st1, m1)"
    using ok by (cases "server_find_handle m st hid True")
      (auto simp: do_request_upgrade_def asserting_Ok split: option.splits)
  obtain l1 h1 st2 m2 where fl: "find_lease m1 st1 hid h0 v True = (Some (l1, h1), st2, m2)"
    using ok fh by (cases "find_lease m1 st1 hid h0 v True")
      (auto simp: do_request_upgrade_def asserting_Ok split: option.splits)
  note f = find_or_create [OF fh fl st l]
  obtain h' m3 where s: "lease_cur l < s"
    and ph: "process_handle m2 hid (h1\<lparr>srv_leases := move_to_tail v
        (set_lease ?l (srv_leases h1))\<rparr>) = Ok (h', out, m3)"
    and st': "st' = store_handle hid h' st2"
    using ok fh fl f(1) by (auto simp: do_request_upgrade_def asserting_Ok and_then_Ok Let_def)
  have c: "lease_client l = v" using lease_in_Some [OF f(4)] by simp
  have d1: "distinct (map lease_client (srv_leases h1))" using f(2) by (simp add: leases_ok_def)
  obtain xs ys where xy: "srv_leases h1 = xs @ l # ys" "v \<notin> lease_client ` set xs"
    "v \<notin> lease_client ` set ys"
    using lease_split [OF d1 f(4)] by metis
  have mv: "move_to_tail v (set_lease ?l (srv_leases h1)) = xs @ ys @ [?l]"
    using lease_split_ops [OF xy(2,3)] c unfolding xy(1) by simp
  have lok: "lease_ok ?l" using f(2) s unfolding xy(1) leases_ok_def lease_ok_def by simp
  have "leases_ok (xs @ ?l # ys)"
    by (rule leases_ok_replace [of xs l ys]) (use f(2) lok xy(1) in simp_all)
  hence lt: "leases_ok (xs @ ys @ [?l])" using leases_ok_tail by blast
  have "lease_in w (xs @ ys @ [?l]) = (if w = v then Some ?l else lease_of st w hid)" for w
    using f(5) [of w] lease_split_in(2) [OF xy(2,3) c, of ?l w] c unfolding xy(1) by simp
  hence fe: "(\<lambda>w. lease_in w (xs @ ys @ [?l])) = (\<lambda>w. lease_of st w hid)(v \<mapsto> ?l)" by auto
  have vw: "view_served hid (srv_data ?h) ((\<lambda>w. lease_of st w hid)(v \<mapsto> ?l)) h' out"
    using process_handle_view [OF ph] f(3) lt fe unfolding mv by simp
  show ?thesis unfolding handler_view_def clients_follow_def st' f(6,7) using vw by auto
qed

lemma server_data_Ok:
  "server_update_handle_data m h d = Ok (h', m') \<Longrightarrow> h' = h\<lparr>srv_data := d\<rparr>"
  by (auto simp: server_update_handle_data_def split: prod.splits if_splits)

lemma existing_lease:
  assumes "lease_of st v hid = Some l"
  shows "server_handles st hid = Some (old_handle st hid)"
    "server_find_handle m st hid c = (Some (old_handle st hid), st, m)"
    "find_lease m st hid (old_handle st hid) v c = (Some (l, old_handle st hid), st, m)"
proof -
  show 1: "server_handles st hid = Some (old_handle st hid)"
    using assms by (auto simp: lease_of_def old_handle_def split: option.splits)
  show "server_find_handle m st hid c = (Some (old_handle st hid), st, m)"
    using 1 by (simp add: server_find_handle_def)
  show "find_lease m st hid (old_handle st hid) v c = (Some (l, old_handle st hid), st, m)"
    by (rule find_lease_existing) (use assms in \<open>simp add: lease_of_old\<close>)
qed

lemma do_confirm_downgrade_view:
  assumes ok: "do_confirm_downgrade m st v hid t d = Ok (st', out)" and st: "handles_ok st"
    and l: "lease_of st v hid = Some l" "lease_client_req l = SYNC_STATE_NONE"
  obtains l' where "lease_cur l' = t" "lease_client_req l' = SYNC_STATE_NONE"
    "handler_view st hid
      (if lease_cur l = SYNC_STATE_EXCLUSIVE then d else srv_data (old_handle st hid))
      ((\<lambda>w. lease_of st w hid)(v \<mapsto> l')) st' out"
proof -
  let ?h = "old_handle st hid"
  let ?d = "if lease_cur l = SYNC_STATE_EXCLUSIVE then d else srv_data ?h"
  define l' where "l' = (if t \<le> lease_server_req l
    then l\<lparr>lease_cur := t, lease_server_req := SYNC_STATE_NONE\<rparr> else l\<lparr>lease_cur := t\<rparr>)"
  note e = existing_lease [OF l(1)]
  have t: "t = SYNC_STATE_INVALID \<or> t = SYNC_STATE_SHARED" "t < lease_cur l"
    using ok by (auto simp: do_confirm_downgrade_def e asserting_Ok)
  obtain h2 m1 where u: "(if lease_cur l = SYNC_STATE_EXCLUSIVE then
      server_update_handle_data m ?h d else asserting (d = []) (Ok (?h, m))) = Ok (h2, m1)"
    using ok by (auto simp: do_confirm_downgrade_def e asserting_Ok and_then_Ok)
  hence h2: "h2 = ?h\<lparr>srv_data := ?d\<rparr>" by (auto simp: asserting_Ok dest: server_data_Ok split: if_splits)
  have "and_then (process_handle m1 hid (h2\<lparr>srv_leases := set_lease l' (srv_leases h2)\<rparr>))
      (\<lambda>(h, out, m). Ok (store_handle hid h st, out)) = Ok (st', out)"
    using ok t u unfolding do_confirm_downgrade_def l'_def
    by (simp add: e asserting_Ok Let_def)
  then obtain h' m2 where ph: "process_handle m1 hid
      (?h\<lparr>srv_data := ?d, srv_leases := set_lease l' (srv_leases ?h)\<rparr>) = Ok (h', out, m2)"
    and st': "st' = store_handle hid h' st"
    unfolding h2 by (auto simp: and_then_Ok)
  have c: "lease_client l = v" using lease_in_Some l(1) unfolding lease_of_old by blast
  have c': "lease_client l' = v" using c by (simp add: l'_def)
  have lo: "leases_ok (srv_leases ?h)" by (rule handles_ok_old [OF st])
  hence d1: "distinct (map lease_client (srv_leases ?h))" by (simp add: leases_ok_def)
  obtain xs ys where xy: "srv_leases ?h = xs @ l # ys" "v \<notin> lease_client ` set xs"
    "v \<notin> lease_client ` set ys"
    using lease_split [OF d1] l(1) unfolding lease_of_old by metis
  have mv: "set_lease l' (srv_leases ?h) = xs @ l' # ys"
    using lease_split_ops(1) [OF xy(2,3) c c'] unfolding xy(1) .
  have lok: "lease_ok l'" using lo t l(2) unfolding xy(1) leases_ok_def lease_ok_def l'_def by auto
  have lt: "leases_ok (xs @ l' # ys)"
    by (rule leases_ok_replace [of xs l ys]) (use lo lok xy(1) t c c' in \<open>auto simp: l'_def\<close>)
  have "lease_in w (xs @ l' # ys) = (if w = v then Some l' else lease_of st w hid)" for w
    using lease_split_in(1) [OF xy(2,3) c c', of w] unfolding lease_of_old xy(1) .
  hence fe: "(\<lambda>w. lease_in w (xs @ l' # ys)) = (\<lambda>w. lease_of st w hid)(v \<mapsto> l')" by auto
  have "view_served hid ?d ((\<lambda>w. lease_of st w hid)(v \<mapsto> l')) h' out"
    using process_handle_view [OF ph] lt fe unfolding mv by simp
  hence "handler_view st hid ?d ((\<lambda>w. lease_of st w hid)(v \<mapsto> l')) st' out"
    unfolding handler_view_def clients_follow_def st' using l(1) by (auto simp: store_handle_def)
  thus ?thesis using that [of l'] l(2) by (simp add: l'_def split: if_splits)
qed

text \<open>
  Closing: the lease goes, the client is told, and the handle goes with its last lease.
\<close>

lemma do_request_close_view:
  assumes ok: "do_request_close m st v hid s d = Ok (st', out)" and st: "handles_ok st"
    and l: "lease_of st v hid = Some l"
  obtains
    (last) "\<forall>w. w \<noteq> v \<longrightarrow> lease_of st w hid = None" "out = [(v, closed_msg hid)]"
      "server_handles st' = (server_handles st)(hid := None)"
      "clients_follow st hid (\<lambda>w. None) st'"
  | (others) out' w where "out = (v, closed_msg hid) # out'" "w \<noteq> v" "lease_of st w hid \<noteq> None"
      "handler_view st hid
        (if s = SYNC_STATE_EXCLUSIVE then d else srv_data (old_handle st hid))
        ((\<lambda>w. lease_of st w hid)(v := None)) st' out'"
proof -
  let ?h = "old_handle st hid"
  let ?d = "if s = SYNC_STATE_EXCLUSIVE then d else srv_data ?h"
  let ?ls = "[x \<leftarrow> srv_leases ?h. lease_client x \<noteq> v]"
  note e = existing_lease [OF l]
  obtain h2 m1 where u: "(if s = SYNC_STATE_EXCLUSIVE then
      server_update_handle_data m ?h d else asserting (d = []) (Ok (?h, m))) = Ok (h2, m1)"
    using ok by (auto simp: do_request_close_def e asserting_Ok and_then_Ok)
  hence h2: "h2 = ?h\<lparr>srv_data := ?d\<rparr>" by (auto simp: asserting_Ok dest: server_data_Ok split: if_splits)
  hence hl: "srv_leases h2 = srv_leases ?h" by simp
  have lv: "lease_in v (srv_leases ?h) = Some l" using l unfolding lease_of_old .
  have c: "lease_client l = v" using lease_in_Some [OF lv] by simp
  obtain closed m2 where sc: "send_confirm_close m1 hid v = Ok (closed, m2)"
    using ok u c by (auto simp: do_request_close_def e asserting_Ok and_then_Ok)
  note cl = send_Ok(3) [OF sc]
  let ?st = "drop_client_lease v hid st"
  have r: "(if ?ls = [] then Ok (?st\<lparr>server_handles := (server_handles ?st)(hid := None)\<rparr>, closed)
    else and_then (process_handle m2 hid (h2\<lparr>srv_leases := ?ls\<rparr>))
      (\<lambda>(h, out, m). Ok (store_handle hid h ?st, closed @ out))) = Ok (st', out)"
    using ok u sc c hl unfolding do_request_close_def
    by (cases "?ls = []") (simp_all add: e asserting_Ok Let_def)
  have lo: "leases_ok (srv_leases ?h)" by (rule handles_ok_old [OF st])
  hence d1: "distinct (map lease_client (srv_leases ?h))" by (simp add: leases_ok_def)
  obtain xs ys where xy: "srv_leases ?h = xs @ l # ys" "v \<notin> lease_client ` set xs"
    "v \<notin> lease_client ` set ys" using lease_split [OF d1 lv] by metis
  have ls: "?ls = xs @ ys" using lease_split_ops(2) [OF xy(2,3) c c] unfolding xy(1) .
  have lw: "lease_in w ?ls = (if w = v then None else lease_of st w hid)" for w
    unfolding ls using lease_split_in(3) [OF xy(2,3) c c, of w] unfolding lease_of_old xy(1) .
  have cf: "clients_follow st hid f st''"
    if "server_clients st'' = server_clients ?st" "f v = None"
      "\<forall>w. w \<noteq> v \<longrightarrow> f w = lease_of st w hid" for f st''
    unfolding clients_follow_def that(1)
  proof
    fix w
    show "server_clients ?st w =
      (if lease_of st w hid = None \<and> f w \<noteq> None
       then Some ((case server_clients st w of None \<Rightarrow> [] | Some ids \<Rightarrow> ids) @ [hid])
       else if lease_of st w hid \<noteq> None \<and> f w = None
       then (case server_clients st w of
               None \<Rightarrow> None
             | Some ids \<Rightarrow> if remove1 hid ids = [] then None else Some (remove1 hid ids))
       else server_clients st w)"
      using that(2,3) l
      by (cases "w = v") (auto simp: drop_client_lease_def Let_def split: option.split)
  qed
  show ?thesis
  proof (cases "?ls = []")
    case True
    have "lease_of st w hid = None" if "w \<noteq> v" for w using lw [of w] that True by simp
    moreover have "st' = ?st\<lparr>server_handles := (server_handles ?st)(hid := None)\<rparr>" "out = closed"
      using r True by simp_all
    moreover have "server_handles ?st = server_handles st"
      by (simp add: drop_client_lease_def Let_def split: option.split)
    ultimately show ?thesis using that(1) cl cf [of st' "\<lambda>_. None"] by simp
  next
    case False
    then obtain h' out' m3 where ph: "process_handle m2 hid (h2\<lparr>srv_leases := ?ls\<rparr>) = Ok (h', out', m3)"
      and st': "st' = store_handle hid h' ?st" "out = closed @ out'"
      using r by (auto simp: and_then_Ok)
    have "leases_ok ?ls" unfolding ls by (rule leases_ok_drop) (use lo xy(1) in simp)
    hence "view_served hid ?d (\<lambda>w. lease_in w ?ls) h' out'"
      using process_handle_view [OF ph] unfolding h2 by simp
    moreover have "(\<lambda>w. lease_in w ?ls) = (\<lambda>w. lease_of st w hid)(v := None)" using lw by auto
    moreover have "server_handles st' = (server_handles st)(hid \<mapsto> h')"
      by (simp add: st' store_handle_def drop_client_lease_def Let_def split: option.split)
    moreover have "clients_follow st hid ((\<lambda>w. lease_of st w hid)(v := None)) st'"
      by (rule cf) (simp_all add: st' store_handle_def)
    ultimately have "handler_view st hid ?d ((\<lambda>w. lease_of st w hid)(v := None)) st' out'"
      unfolding handler_view_def by auto
    moreover obtain w where "w \<noteq> v" "lease_of st w hid \<noteq> None"
    proof -
      have "lease_client (hd ?ls) \<in> lease_client ` set ?ls" using False by (intro imageI) (rule hd_in_set)
      hence "lease_in (lease_client (hd ?ls)) ?ls \<noteq> None" using lease_in_None by blast
      thus ?thesis using that [of "lease_client (hd ?ls)"] lw by (auto split: if_splits)
    qed
    ultimately show ?thesis using that(2) cl st'(2) by simp
  qed
qed

end
