(* ===== verification/Sync_Correct.thy ===== *)
theory Sync_Correct
  imports Sync_Invariant
begin

text \<open>
  The data of one handle in one process: it is the latest wherever the process may read it, and
  the steps of the process and its messages keep this so.
\<close>

section \<open>The data of one handle in one process\<close>

text \<open>
  \<open>d\<close> is the latest data. A process that may read has it, a request that is being granted
  carries it, and so does the first message from a process that gives up exclusive mode.
\<close>

definition handle_data :: "u8 list \<Rightarrow> sync_handle \<Rightarrow> bool" where
  "handle_data d h \<longleftrightarrow>
     (SYNC_STATE_SHARED \<le> sh_cur h \<longrightarrow> sh_data h = d) \<and>
     (d = [] \<longrightarrow> sh_phase h \<in> {SYNC_PHASE_NEW, SYNC_PHASE_OPEN} \<longrightarrow> sh_data h = []) \<and>
     (\<forall>s d'. sh_thread h = Locked s (Some d') \<longrightarrow> d' = d)"

fun up_data :: "u8 list \<Rightarrow> sync_msg list \<Rightarrow> bool" where
  "up_data d [] = True"
| "up_data d (msg # q) \<longleftrightarrow>
     (msg_code msg \<in> {IPC_MSG_SYNC_CONFIRM_DOWNGRADE, IPC_MSG_SYNC_REQUEST_CLOSE} \<longrightarrow>
        msg_data msg = d)"

definition link_data ::
  "u8 list \<Rightarrow> sync_handle option \<Rightarrow> server_lease option \<Rightarrow> sync_msg list \<Rightarrow> sync_msg list \<Rightarrow> bool"
  where
  "link_data d h l q r \<longleftrightarrow>
     (\<forall>h'. h = Some h' \<longrightarrow> handle_data d h') \<and>
     (\<forall>msg\<in>set r. msg_code msg = IPC_MSG_SYNC_CONFIRM_UPGRADE \<longrightarrow> msg_data msg = d) \<and>
     (\<forall>l'. l = Some l' \<longrightarrow> lease_cur l' = SYNC_STATE_EXCLUSIVE \<longrightarrow> up_data d q)"

lemma up_data_append: "up_data d q \<Longrightarrow> (q = [] \<Longrightarrow> up_data d out) \<Longrightarrow> up_data d (q @ out)"
  by (cases q) auto

lemma link_data_client:
  assumes "link_data d (Some h) l q r" "handle_data d h'"
    and "\<And>l'. l = Some l' \<Longrightarrow> lease_cur l' = SYNC_STATE_EXCLUSIVE \<Longrightarrow> q = [] \<Longrightarrow> up_data d out"
  shows "link_data d (Some h') l (q @ out) r"
  using assms up_data_append unfolding link_data_def by blast

lemma downs_top: "downs hid a q c rest \<Longrightarrow> q \<noteq> [] \<Longrightarrow> rest = [] \<Longrightarrow> c < a"
  using downs_le by (cases q) (force split: if_splits)+

text \<open>The stage of an open handle without a request.\<close>

lemma link_idle:
  assumes "link hid (Some h) l q r" "sh_phase h = SYNC_PHASE_OPEN"
    "sh_client_req h = SYNC_STATE_NONE"
  obtains l' where "l = Some l'" "downs hid (lease_cur l') q (sh_cur h) []" "asks hid r"
  using assms(1) by cases (use assms(2,3) in auto)

lemma link_data_down:
  assumes lk: "link hid (Some h) l q r" "sh_phase h = SYNC_PHASE_OPEN"
    "sh_client_req h = SYNC_STATE_NONE" and d: "handle_data d h"
    and out: "out = [Sync_Msg code hid t (if sh_cur h = SYNC_STATE_EXCLUSIVE then sh_data h else [])]"
    and l: "l = Some l'" "lease_cur l' = SYNC_STATE_EXCLUSIVE" "q = []"
  shows "up_data d out"
proof -
  have "sh_cur h = SYNC_STATE_EXCLUSIVE"
    by (rule link_idle [OF lk]) (use l in simp)
  thus ?thesis using d unfolding out handle_data_def by (simp add: sync_state_order)
qed

lemma handle_data_cong:
  "handle_data d h \<Longrightarrow> sh_cur h' \<le> sh_cur h \<Longrightarrow> sh_data h' = sh_data h \<Longrightarrow>
   sh_phase h' \<in> {SYNC_PHASE_NEW, SYNC_PHASE_OPEN} \<longrightarrow> sh_phase h \<in> {SYNC_PHASE_NEW, SYNC_PHASE_OPEN} \<Longrightarrow>
   (\<And>s d'. sh_thread h' = Locked s (Some d') \<Longrightarrow> sh_thread h = sh_thread h') \<Longrightarrow> handle_data d h'"
  unfolding handle_data_def by (metis order.trans)

lemma link_data_lock:
  assumes lk: "link hid (Some h) l q r" and d: "link_data d (Some h) l q r"
    and t: "sh_thread h = Unlocked" and ok: "sync_lock m True hid s n h = Ok (h', out)"
  shows "link_data d (Some h') l (q @ out) r"
proof -
  have h: "handle_ok h" using lk by (rule link_SomeE)
  have hd: "handle_data d h" using d by (simp add: link_data_def)
  from ok h t show ?thesis
  proof (cases rule: sync_lock_cases)
    case at_once
    have "handle_data d h'" unfolding at_once(3) by (rule handle_data_cong [OF hd]) simp_all
    thus ?thesis by (rule link_data_client [OF d]) (simp add: at_once(4))
  next
    case waits
    have "handle_data d h'" unfolding waits(4)
      by (rule handle_data_cong [OF hd]) (use waits(3) in simp_all)
    thus ?thesis by (rule link_data_client [OF d]) (simp add: waits(5))
  qed
qed

lemma link_data_wake:
  assumes lk: "link hid (Some h) l q r" and d: "link_data d (Some h) l q r"
    and t: "sh_thread h = Waiting s n" and ok: "sync_lock_wake m hid s n h = Ok (h', out)"
  shows "link_data d (Some h') l (q @ out) r"
proof -
  have h: "handle_ok h" using lk by (rule link_SomeE)
  have hd: "handle_data d h" using d by (simp add: link_data_def)
  from ok h t show ?thesis
  proof (cases rule: sync_lock_wake_cases)
    case acquired
    then obtain ret where ret: "sync_lock_data n h = Ok ret" and h': "h' = h\<lparr>sh_waiters := 0,
        sh_event := False, sh_thread := Locked s ret\<rparr>" by blast
    have "SYNC_STATE_SHARED \<le> s"
      using handle_ok_waiting(5) [OF h t] by (auto simp: sync_state_order)
    hence "sh_data h = d" using hd acquired(1) unfolding handle_data_def by (meson order.trans)
    hence "handle_data d h'" unfolding h' using hd ret
      by (auto simp: handle_data_def sync_lock_data_def split: if_splits)
    thus ?thesis by (rule link_data_client [OF d]) (simp add: acquired(3))
  next
    case again
    have "handle_data d h'" unfolding again(4) by (rule handle_data_cong [OF hd]) simp_all
    thus ?thesis by (rule link_data_client [OF d]) (simp add: again(3))
  qed
qed

lemma link_data_close:
  assumes lk: "link hid (Some h) l q r" and d: "link_data d (Some h) l q r"
    and p: "sh_phase h = SYNC_PHASE_OPEN" "sh_thread h = Unlocked"
    and ok: "sync_request_close m hid h = Ok (h', out)"
  shows "link_data d (Some h') l (q @ out) r"
proof -
  have h: "handle_ok h" using lk by (rule link_SomeE)
  note u = handle_ok_unlocked [OF h p(2)]
  have hd: "handle_data d h" using d by (simp add: link_data_def)
  note c = sync_request_close_Ok [OF ok]
  have "handle_data d h'" unfolding c(1) using p by (simp add: handle_data_def sync_state_order)
  thus ?thesis
    by (rule link_data_client [OF d]) (rule link_data_down [OF lk p(1) u(2) hd c(2)])
qed

text \<open>
  \<open>sync_unlock\<close> makes its data the latest. If that changes anything, the process has the
  handle in exclusive mode.
\<close>

lemma unlock_exclusive:
  assumes h: "handle_ok h" "handle_data d h" "sh_thread h = Locked s ret"
    and w: "s = SYNC_STATE_EXCLUSIVE \<or> new = [] \<or> new = sh_data h"
  shows "sh_data h = d" "(if new = [] then d else new) \<noteq> d \<Longrightarrow> sh_cur h = SYNC_STATE_EXCLUSIVE"
proof -
  note k = handle_ok_locked [OF h(1,3)]
  have "SYNC_STATE_SHARED \<le> sh_cur h" using k(5,6) by (auto simp: sync_state_order)
  thus d: "sh_data h = d" using h(2) by (simp add: handle_data_def)
  assume "(if new = [] then d else new) \<noteq> d"
  hence "s = SYNC_STATE_EXCLUSIVE" using w d by auto
  thus "sh_cur h = SYNC_STATE_EXCLUSIVE"
    using k(6) by (cases "sh_cur h") (auto simp: sync_state_order)
qed

lemma link_data_unlock:
  assumes lk: "link hid (Some h) l q r" and d: "link_data d (Some h) l q r"
    and t: "sh_thread h = Locked s ret"
    and w: "s = SYNC_STATE_EXCLUSIVE \<or> new = [] \<or> new = sh_data h"
    and ok: "sync_unlock m True hid new h = Ok (h', out)"
  shows "link_data (if new = [] then d else new) (Some h') l (q @ out) r"
proof -
  let ?d = "if new = [] then d else new"
  have h: "handle_ok h" using lk by (rule link_SomeE)
  note k = handle_ok_locked [OF h t]
  have hd: "handle_data d h" using d by (simp add: link_data_def)
  note x = unlock_exclusive [OF h hd t w]
  obtain l' where l: "l = Some l'" "downs hid (lease_cur l') q (sh_cur h) []" "asks hid r"
    by (rule link_idle [OF lk k(1,7)])
  have q: "?d = d" if "q \<noteq> []" "lease_cur l' = SYNC_STATE_EXCLUSIVE"
    using downs_top [OF l(2) that(1)] that(2) x(2) by fastforce
  have hd': "handle_data ?d (h'\<lparr>sh_cur := c\<rparr>)"
    if "sh_data h' = ?d" "sh_thread h' = Unlocked" for c
    using that by (simp add: handle_data_def)
  have r: "msg_code msg \<noteq> IPC_MSG_SYNC_CONFIRM_UPGRADE" if "msg \<in> set r" for msg
    using l(3) that unfolding asks_def by auto
  have up: "up_data ?d (q @ out)" if e: "lease_cur l' = SYNC_STATE_EXCLUSIVE"
    and o: "out = [] \<or> msg_data (hd out) = (if sh_cur h = SYNC_STATE_EXCLUSIVE then ?d else [])"
  proof (cases "q = []")
    case True
    hence "sh_cur h = SYNC_STATE_EXCLUSIVE" using l(2) e by simp
    thus ?thesis using True o by (cases out) auto
  next
    case False
    have "up_data d q" using d l(1) e by (simp add: link_data_def)
    thus ?thesis using up_data_append [of ?d q out] q [OF False e] False by simp
  qed
  from ok h t show ?thesis
  proof (cases rule: sync_unlock_cases)
    case kept
    have "handle_data ?d h'" unfolding kept(3) using x(1) by (simp add: handle_data_def)
    thus ?thesis using up r l(1) kept(2) by (simp add: link_data_def)
  next
    case downgraded
    have "handle_data ?d h'" unfolding downgraded(3) using x(1) by (simp add: handle_data_def)
    moreover have "out = [] \<or> msg_data (hd out) = (if sh_cur h = SYNC_STATE_EXCLUSIVE then ?d else [])"
      unfolding downgraded(4) using x(1) by simp
    ultimately show ?thesis using up r l(1) by (simp add: link_data_def)
  qed
qed

text \<open>The comment on \<open>cur_state\<close>: the state of a handle is at most that of its lease.\<close>

lemma link_cur_le:
  assumes "link hid (Some h) l q r"
  shows "case l of None \<Rightarrow> sh_cur h = SYNC_STATE_INVALID | Some l' \<Rightarrow> sh_cur h \<le> lease_cur l'"
  using assms
proof cases
  case (confirmed s l' r1 r2 d)
  thus ?thesis using handle_ok_request(2) [of h s] by simp
next
  case (closing l' s d)
  have "sh_cur h = SYNC_STATE_INVALID" using closing by (simp add: handle_ok_def)
  moreover have "SYNC_STATE_INVALID \<le> s" using closing by (cases s) (auto simp: sync_state_order)
  ultimately show ?thesis using closing downs_le order.trans by fastforce
qed (auto simp: handle_ok_def dest: downs_le)

text \<open>A process without the right to read is not affected by new data.\<close>

lemma link_data_invalid:
  assumes lk: "link hid h l q r" and l: "\<And>l'. l = Some l' \<Longrightarrow> lease_cur l' = SYNC_STATE_INVALID"
    and d: "d \<noteq> []"
  shows "link_data d h l q r"
proof -
  have low: "sh_cur h' < SYNC_STATE_SHARED" if "h = Some h'" for h'
    using link_cur_le [OF lk [unfolded that]] l
    by (cases l; cases "sh_cur h'") (auto simp: sync_state_order)
  have "handle_data d h'" if "h = Some h'" for h'
  proof -
    have "handle_ok h'" using lk unfolding that by (rule link_SomeE)
    hence "sh_thread h' \<noteq> Locked s ret" for s ret
      using handle_ok_locked(5,6) [of h' s ret] low [OF that] by (auto simp: sync_state_order)
    thus ?thesis using low [OF that] d by (auto simp: handle_data_def)
  qed
  moreover have "msg_code msg \<noteq> IPC_MSG_SYNC_CONFIRM_UPGRADE" if "msg \<in> set r" for msg
    using lk
  proof cases
    case (confirmed h' s l' r1 r2 d')
    thus ?thesis using l [of l'] handle_ok_request(1) [of h' s] by auto
  qed (use that in \<open>auto simp: asks_def\<close>)
  ultimately show ?thesis using l by (auto simp: link_data_def)
qed

lemma link_data_unregistered:
  assumes "link hid h None q r" shows "link_data [] h None q r"
  using assms
proof cases
  case (unregistered h')
  thus ?thesis by (auto simp: link_data_def handle_data_def handle_ok_def sync_state_order)
next
  case (first h' s)
  have "sh_thread h' \<noteq> Locked x y" for x y
    using handle_ok_locked(7) [of h' x y] first by auto
  thus ?thesis using first by (auto simp: link_data_def handle_data_def)
next
  case (closed h' r')
  thus ?thesis
    by (auto simp: link_data_def handle_data_def handle_ok_def sync_state_order asks_def)
qed (simp add: link_data_def)

text \<open>The messages of the server.\<close>

lemma link_data_tail: "link_data d h l q (msg # r) \<Longrightarrow> link_data d h l q r"
  by (simp add: link_data_def)

lemma link_data_do_request_downgrade:
  assumes lk: "link hid (Some h) l q r" and d: "link_data d (Some h) l q r"
    and ok: "do_request_downgrade m hid t h = Ok (h', out)"
  shows "link_data d (Some h') l (q @ out) r"
proof -
  have h: "handle_ok h" using lk by (rule link_SomeE)
  have hd: "handle_data d h" using d by (simp add: link_data_def)
  from ok show ?thesis
  proof (cases rule: do_request_downgrade_cases)
    case ignored
    thus ?thesis using d by simp
  next
    case later
    have "handle_data d h'" unfolding later(4) by (rule handle_data_cong [OF hd]) simp_all
    thus ?thesis by (rule link_data_client [OF d]) (simp add: later(5))
  next
    case now
    have u: "sh_thread h = Unlocked" using h now(3) by (simp add: handle_ok_def)
    note n = handle_ok_unlocked [OF h u]
    have "handle_data d h'" unfolding now(4)
      by (rule handle_data_cong [OF hd]) (use now(2) in simp_all)
    thus ?thesis
      by (rule link_data_client [OF d]) (rule link_data_down [OF lk now(1) n(2) hd now(5)])
  qed
qed

lemma link_data_do_confirm_upgrade:
  assumes lk: "link hid (Some h) l q (Sync_Msg IPC_MSG_SYNC_CONFIRM_UPGRADE hid s x # r)"
    and d: "link_data d (Some h) l q (Sync_Msg IPC_MSG_SYNC_CONFIRM_UPGRADE hid s x # r)"
    and ok: "do_confirm_upgrade m s x h = Ok h'"
  shows "link_data d (Some h') l q r"
proof -
  have 1: "handle_ok h" "sh_phase h = SYNC_PHASE_OPEN" "sh_client_req h = s"
    "s \<noteq> SYNC_STATE_NONE" by (rule link_grant [OF lk], simp)+
  note c = do_confirm_upgrade_Ok [OF 1 ok]
  have x: "x = d" and hd: "handle_data d h" using d by (simp_all add: link_data_def)
  have "sh_data h' = d" using c(1) x hd 1(2) by (auto simp: handle_data_def)
  moreover have "sh_thread h \<noteq> Locked y z" for y z
    using handle_ok_locked(7) [OF 1(1), of y z] 1(3,4) by auto
  hence "sh_thread h' \<noteq> Locked y z" for y z using c(1) by simp
  ultimately have "handle_data d h'" by (simp add: handle_data_def)
  thus ?thesis using d by (simp add: link_data_def)
qed

lemma link_data_do_confirm_close:
  assumes lk: "link hid (Some h) l q (Sync_Msg IPC_MSG_SYNC_CONFIRM_CLOSE hid s x # r)"
    and d: "link_data d (Some h) l q (Sync_Msg IPC_MSG_SYNC_CONFIRM_CLOSE hid s x # r)"
  shows "link_data d (Some (do_confirm_close h)) l q r"
proof -
  have 1: "handle_ok h" "sh_phase h = SYNC_PHASE_CLOSING" by (rule link_closed [OF lk], simp)+
  have "handle_data d (do_confirm_close h)" using 1
    by (auto simp: handle_data_def handle_ok_def do_confirm_close_def sync_notify_def
        sync_state_order)
  thus ?thesis using d by (simp add: link_data_def)
qed

lemma link_data_client_message:
  assumes lk: "link hid (tbl hid) l q (msg # r)" and i: "msg_id msg = hid"
    and d: "link_data d (tbl hid) l q (msg # r)"
    and ok: "sync_client_message_callback m True tbl msg = Ok (tbl', out)"
  shows "link_data d (tbl' hid) l (q @ out) r"
proof -
  obtain h where h: "tbl hid = Some h" using link_message_codes(1) [OF lk] by auto
  obtain code t x where msg: "msg = Sync_Msg code hid t x" using i by (cases msg) simp
  note lk' = lk [unfolded h msg] and d' = d [unfolded h msg]
  have codes: "code = IPC_MSG_SYNC_REQUEST_DOWNGRADE \<or> code = IPC_MSG_SYNC_CONFIRM_UPGRADE
      \<or> code = IPC_MSG_SYNC_CONFIRM_CLOSE" using link_message_codes(2) [OF lk] msg by auto
  from codes show ?thesis
  proof (elim disjE)
    assume code: "code = IPC_MSG_SYNC_REQUEST_DOWNGRADE"
    have "link hid (Some h) l q r" using lk' unfolding code by (rule link_ask)
    moreover obtain h' where "do_request_downgrade m hid t h = Ok (h', out)"
      "tbl' hid = Some h'"
      using ok h code by (auto simp: sync_client_message_callback_def msg outcome_simps)
    ultimately show ?thesis
      using link_data_do_request_downgrade link_data_tail [OF d'] by metis
  next
    assume code: "code = IPC_MSG_SYNC_CONFIRM_UPGRADE"
    then obtain h' where "do_confirm_upgrade m t x h = Ok h'" "tbl' hid = Some h'" "out = []"
      using ok h by (auto simp: sync_client_message_callback_def msg outcome_simps)
    thus ?thesis
      using link_data_do_confirm_upgrade [OF lk' [unfolded code] d' [unfolded code]] by simp
  next
    assume code: "code = IPC_MSG_SYNC_CONFIRM_CLOSE"
    hence "tbl' hid = Some (do_confirm_close h)" "out = []"
      using ok h by (auto simp: sync_client_message_callback_def msg outcome_simps)
    thus ?thesis
      using link_data_do_confirm_close [OF lk' [unfolded code] d' [unfolded code]] by simp
  qed
qed

text \<open>Serving a lease: the data sent with a grant is the latest.\<close>

lemma link_data_served:
  assumes lk: "link hid h (Some l) q r" and d: "link_data d h (Some l) q r"
    and s: "served hid data e l l' msgs" and e: "e = 0 \<Longrightarrow> data = d"
  shows "link_data d h (Some l') q (r @ msgs)"
proof -
  obtain l1 m1 m2 where g: "granted hid data e l l1 m1" and a: "asked hid l1 l' m2"
    and m: "msgs = m1 @ m2" using s unfolding served_def by blast
  have r: "\<forall>msg\<in>set msgs. msg_code msg = IPC_MSG_SYNC_CONFIRM_UPGRADE \<longrightarrow> msg_data msg = d"
    using g a e unfolding m granted_def asked_def by auto
  have "up_data d q" if "lease_cur l' = SYNC_STATE_EXCLUSIVE"
  proof (cases "l1 = l")
    case True
    thus ?thesis using d that asked_fields(1) [OF a] by (simp add: link_data_def)
  next
    case False
    hence "lease_client_req l \<in> {SYNC_STATE_SHARED, SYNC_STATE_EXCLUSIVE}"
      using g unfolding granted_def by blast
    with lk have "q = []" by cases auto
    thus ?thesis by simp
  qed
  thus ?thesis using d r by (auto simp: link_data_def)
qed

end
