(* ===== verification/Sync_Safety.thy ===== *)
theory Sync_Safety
  imports Sync_Correct
begin

text \<open>
  The invariant of the whole sync engine: every handle of every process is linked to its lease,
  the leases of a handle are well formed, and the data is the latest wherever a process may
  read it. Every step keeps it, so it holds in every reachable state.
\<close>

section \<open>The invariant\<close>

definition for_handle :: "u64 \<Rightarrow> sync_msg list \<Rightarrow> sync_msg list" where
  "for_handle hid q = [msg \<leftarrow> q. msg_id msg = hid]"

lemma for_handle_simps [simp]:
  "for_handle hid [] = []"
  "for_handle hid (msg # q) = (if msg_id msg = hid then msg # for_handle hid q else for_handle hid q)"
  "for_handle hid (q @ q') = for_handle hid q @ for_handle hid q'"
  by (simp_all add: for_handle_def)

lemma for_handle_all: "\<forall>x\<in>set out. msg_id x = hid \<Longrightarrow>
  for_handle j out = (if j = hid then out else [])"
  by (induction out) auto

abbreviation sys_link :: "sync_system \<Rightarrow> u32 \<Rightarrow> u64 \<Rightarrow> bool" where
  "sys_link s v hid \<equiv> link hid (sys_clients s v hid) (lease_of (sys_server s) v hid)
     (for_handle hid (up_queue s v)) (for_handle hid (down_queue s v))"

abbreviation sys_data :: "sync_system \<Rightarrow> u32 \<Rightarrow> u64 \<Rightarrow> bool" where
  "sys_data s v hid \<equiv> link_data (latest s hid) (sys_clients s v hid)
     (lease_of (sys_server s) v hid) (for_handle hid (up_queue s v))
     (for_handle hid (down_queue s v))"

text \<open>Without an exclusive lease the server has the latest data.\<close>

definition server_data :: "server_state \<Rightarrow> u64 \<Rightarrow> u8 list \<Rightarrow> bool" where
  "server_data st hid d \<longleftrightarrow>
     (\<forall>w l. lease_of st w hid = Some l \<longrightarrow> lease_cur l \<noteq> SYNC_STATE_EXCLUSIVE) \<longrightarrow>
     srv_data (old_handle st hid) = d"

definition sync_inv :: "sync_system \<Rightarrow> bool" where
  "sync_inv s \<longleftrightarrow> handles_ok (sys_server s) \<and> clients_ok (sys_server s) \<and>
     (\<forall>v. sys_clients s v 0 = None) \<and> (\<forall>v hid. sys_link s v hid \<and> sys_data s v hid) \<and>
     (\<forall>hid. server_data (sys_server s) hid (latest s hid))"

lemma sync_inv_start: "sync_inv sync_start"
  by (simp add: sync_inv_def sync_start_def server_start_def handles_ok_def clients_ok_def
      lease_of_def server_data_def old_handle_def link_data_def latest_def absent)

section \<open>Steps of a process\<close>

lemma sync_inv_client:
  assumes inv: "sync_inv s" and h: "sys_clients s v hid \<noteq> None"
    and ids: "\<forall>x\<in>set out. msg_id x = hid"
    and lk: "link hid h' (lease_of (sys_server s) v hid)
      (for_handle hid (up_queue s v) @ out) (for_handle hid (down_queue s v))"
    and dt: "link_data d h' (lease_of (sys_server s) v hid)
      (for_handle hid (up_queue s v) @ out) (for_handle hid (down_queue s v))"
    and oth: "d = latest s hid \<or> (\<forall>w. w \<noteq> v \<longrightarrow> link_data d (sys_clients s w hid)
      (lease_of (sys_server s) w hid) (for_handle hid (up_queue s w))
      (for_handle hid (down_queue s w))) \<and> server_data (sys_server s) hid d"
    and s': "sys_server s' = sys_server s" "down_queue s' = down_queue s"
      "sys_clients s' = sys_clients (client_update s v hid h' out)"
      "up_queue s' = up_queue (client_update s v hid h' out)" "latest s' = (latest s)(hid := d)"
  shows "sync_inv s'"
proof -
  let ?s = s'
  have u: "for_handle j (up_queue ?s w) = (if w = v \<and> j = hid then for_handle hid (up_queue s v) @ out
      else for_handle j (up_queue s w))" for j w
    using for_handle_all [OF ids] by (auto simp: s' client_update_def)
  have c: "sys_clients ?s w j = (if w = v \<and> j = hid then h' else sys_clients s w j)" for w j
    by (simp add: s' client_update_def)
  note rest = s'(1,2,5)
  have "hid \<noteq> 0" using inv h by (auto simp: sync_inv_def)
  hence z: "sys_clients ?s w 0 = None" for w using inv c by (simp add: sync_inv_def)
  have l: "sys_link ?s w j" for w j
    using inv lk unfolding u c rest by (simp add: sync_inv_def)
  have dd: "sys_data ?s w j" for w j
    using inv dt oth unfolding u c rest by (auto simp: sync_inv_def)
  have "server_data (sys_server ?s) j (latest ?s j)" for j
    using inv oth unfolding rest by (auto simp: sync_inv_def)
  thus ?thesis using inv z l dd unfolding sync_inv_def rest by simp
qed

lemma client_update_same:
  "sys_server (client_update s v hid h out) = sys_server s"
  "down_queue (client_update s v hid h out) = down_queue s"
  "latest (client_update s v hid h out) = (latest s)(hid := latest s hid)"
  by (simp_all add: client_update_def latest_def fun_eq_iff)

lemmas sync_inv_client_same =
  sync_inv_client [OF _ _ _ _ _ disjI1 [OF refl] client_update_same(1,2) refl refl
    client_update_same(3)]

text \<open>The messages a process sends are about the handle it works on.\<close>

lemma sync_client_ids:
  "sync_lock m b hid s n h = Ok (h', out) \<Longrightarrow> \<forall>x\<in>set out. msg_id x = hid"
  "sync_lock_wake m hid s n h = Ok (h', out) \<Longrightarrow> \<forall>x\<in>set out. msg_id x = hid"
  "sync_unlock m b hid d h = Ok (h', out) \<Longrightarrow> \<forall>x\<in>set out. msg_id x = hid"
  "sync_request_close m hid h = Ok (h', out) \<Longrightarrow> \<forall>x\<in>set out. msg_id x = hid"
  by (auto simp: sync_lock_def sync_lock_wake_def sync_lock_loop_def sync_unlock_def outcome_simps
      Let_def dest!: client_send_Ok sync_downgrade_Ok(2) sync_request_close_Ok(2) split: if_splits)

lemma sync_destroy_cases:
  assumes "sync_destroy m True hid h = Ok (h', out)"
  obtains (now) "sh_phase h \<noteq> SYNC_PHASE_OPEN" "h' = None" "out = []"
  | (later) h1 where "sh_phase h = SYNC_PHASE_OPEN" "sync_request_close m hid h = Ok (h1, out)"
      "h' = Some (sync_wait_begin (h1\<lparr>sh_closer := In_Destroy\<rparr>))"
  using assms
  by (cases "sh_phase h = SYNC_PHASE_OPEN") (auto simp: sync_destroy_def outcome_simps)

lemma handle_data_closer:
  "handle_data d h \<Longrightarrow> handle_data d (sync_wait_begin (h\<lparr>sh_closer := c\<rparr>))"
  "handle_data d h \<Longrightarrow> handle_data d (sync_wait_end h)"
  "handle_data d h \<Longrightarrow> handle_data d (sync_wait_begin h)"
  "handle_data d h \<Longrightarrow> handle_data d (h\<lparr>sh_closer := c\<rparr>)"
  by (simp_all add: handle_data_def sync_wait_begin_def sync_wait_end_def Let_def)

lemma link_data_handle:
  "link_data d (Some h) l q r \<Longrightarrow> handle_data d h' \<Longrightarrow> link_data d (Some h') l q r"
  "link_data d (Some h) l q r \<Longrightarrow> link_data d None l q r"
  by (simp_all add: link_data_def)

lemma sync_inv_unlock:
  assumes inv: "sync_inv s" and h: "sys_clients s v hid = Some h"
    and t: "sh_thread h = Locked state ret"
    and w: "state = SYNC_STATE_EXCLUSIVE \<or> data = [] \<or> data = sh_data h"
    and ok: "sync_unlock m True hid data h = Ok (h', out)"
  shows "sync_inv (write_data hid data (client_update s v hid (Some h') out))"
proof -
  let ?d = "if data = [] then latest s hid else data"
  have lk: "sys_link s v hid" and dt: "sys_data s v hid" using inv by (auto simp: sync_inv_def)
  note lk' = lk [unfolded h] and dt' = dt [unfolded h]
  have ho: "handle_ok h" using lk' by (rule link_SomeE)
  have hd: "handle_data (latest s hid) h" using dt' by (simp add: link_data_def)
  have oth: "?d = latest s hid \<or> (\<forall>x. x \<noteq> v \<longrightarrow> link_data ?d (sys_clients s x hid)
      (lease_of (sys_server s) x hid) (for_handle hid (up_queue s x))
      (for_handle hid (down_queue s x))) \<and> server_data (sys_server s) hid ?d"
  proof (cases "?d = latest s hid")
    case False
    have e: "sh_cur h = SYNC_STATE_EXCLUSIVE" using unlock_exclusive(2) [OF ho hd t w] False by blast
    obtain l where l: "lease_of (sys_server s) v hid = Some l"
      using link_lease [OF lk' handle_ok_locked(1,7) [OF ho t]] by auto
    have le: "lease_cur l = SYNC_STATE_EXCLUSIVE" using link_cur_le [OF lk'] e l
      by (cases "lease_cur l") (auto simp: sync_state_order)
    have inval: "lease_cur l' = SYNC_STATE_INVALID"
      if "x \<noteq> v" "lease_of (sys_server s) x hid = Some l'" for x l'
    proof -
      let ?ls = "srv_leases (old_handle (sys_server s) hid)"
      have ok: "leases_ok ?ls" using inv handles_ok_old by (simp add: sync_inv_def)
      have "l \<in> set ?ls" "l' \<in> set ?ls" "l \<noteq> l'" "lease_ok l'"
        using lease_in_Some l that ok unfolding lease_of_old leases_ok_def by blast+
      thus ?thesis using ok le exclusion_pair unfolding leases_ok_def lease_ok_def by blast
    qed
    have ne: "?d \<noteq> []" using False by (auto split: if_splits)
    have "link_data ?d (sys_clients s x hid) (lease_of (sys_server s) x hid)
        (for_handle hid (up_queue s x)) (for_handle hid (down_queue s x))" if "x \<noteq> v" for x
      by (rule link_data_invalid [where hid = hid, OF _ inval [OF that] ne]) (use inv in \<open>simp_all add: sync_inv_def\<close>)
    thus ?thesis using l le unfolding server_data_def by blast
  qed simp
  show ?thesis
    by (rule sync_inv_client [OF inv _ sync_client_ids(3) [OF ok] link_unlock [OF lk' t ok]
          link_data_unlock [OF lk' dt' t w ok] oth]) (simp_all add: h client_update_same(1,2))
qed

section \<open>Messages to the server\<close>

lemma clients_ok_follow:
  assumes ok: "clients_ok st" and cf: "clients_follow st hid f st'"
    and l: "\<And>w. lease_of st' w hid = None \<longleftrightarrow> f w = None"
      "\<And>w j. j \<noteq> hid \<Longrightarrow> lease_of st' w j = lease_of st w j"
  shows "clients_ok st'"
  unfolding clients_ok_def
proof
  fix w
  have set: "{j. lease_of st' w j \<noteq> None} = (if f w = None then {j. lease_of st w j \<noteq> None} - {hid}
      else insert hid {j. lease_of st w j \<noteq> None})"
  proof (intro set_eqI)
    fix j
    show "j \<in> {j. lease_of st' w j \<noteq> None} \<longleftrightarrow>
        j \<in> (if f w = None then {j. lease_of st w j \<noteq> None} - {hid}
          else insert hid {j. lease_of st w j \<noteq> None})"
      using l(1) [of w] l(2) [of j w] by (cases "j = hid") auto
  qed
  have c: "case server_clients st w of None \<Rightarrow> {j. lease_of st w j \<noteq> None} = {}
    | Some ids \<Rightarrow> ids \<noteq> [] \<and> distinct ids \<and> set ids = {j. lease_of st w j \<noteq> None}"
    using ok [unfolded clients_ok_def, rule_format, of w] by (auto split: option.splits)
  have "case server_clients st' w of None \<Rightarrow> {j. lease_of st' w j \<noteq> None} = {}
    | Some ids \<Rightarrow> ids \<noteq> [] \<and> distinct ids \<and> set ids = {j. lease_of st' w j \<noteq> None}"
  proof (cases "server_clients st w")
    case None
    hence "lease_of st w hid = None" using c by auto
    thus ?thesis using cf [unfolded clients_follow_def, rule_format, of w] None c
      unfolding set by auto
  next
    case (Some ids)
    have r: "set (remove1 hid ids) = set ids - {hid}" "distinct (remove1 hid ids)"
      using c Some by auto
    have e: "remove1 hid ids = [] \<longleftrightarrow> set ids - {hid} = {}" using r(1) by (metis set_empty)
    show ?thesis using cf [unfolded clients_follow_def, rule_format, of w] Some c r e
      unfolding set by (auto split: if_splits)
  qed
  thus "case server_clients st' w of None \<Rightarrow> \<forall>hid. lease_of st' w hid = None
    | Some ids \<Rightarrow> ids \<noteq> [] \<and> distinct ids \<and> set ids = {hid. lease_of st' w hid \<noteq> None}"
    by (auto split: option.splits)
qed

lemma view_served_None:
  assumes "view_served hid data f h out" "f w = None"
  shows "lease_in w (srv_leases h) = None" "to_client w out = []"
proof -
  obtain e where "case f w of
          None \<Rightarrow> lease_in w (srv_leases h) = None \<and> to_client w out = []
        | Some l \<Rightarrow> (\<exists>l'. lease_in w (srv_leases h) = Some l' \<and>
                       served hid data e l l' (to_client w out))"
    using assms(1) unfolding view_served_def by blast
  thus "lease_in w (srv_leases h) = None" "to_client w out = []" using assms(2) by simp_all
qed

lemma view_served_Some:
  assumes "view_served hid data f h out" "f w = Some l"
  obtains e l' where "e = 0 \<longrightarrow> (\<forall>w l. f w = Some l \<longrightarrow> lease_cur l \<noteq> SYNC_STATE_EXCLUSIVE)"
    "lease_in w (srv_leases h) = Some l'" "served hid data e l l' (to_client w out)"
proof -
  obtain e where e: "e = 0 \<longrightarrow> (\<forall>w l. f w = Some l \<longrightarrow> lease_cur l \<noteq> SYNC_STATE_EXCLUSIVE)"
    and all: "\<forall>w. case f w of
          None \<Rightarrow> lease_in w (srv_leases h) = None \<and> to_client w out = []
        | Some l \<Rightarrow> (\<exists>l'. lease_in w (srv_leases h) = Some l' \<and>
                       served hid data e l l' (to_client w out))"
    using assms(1) unfolding view_served_def by (elim conjE exE) (rule that)
  from all [rule_format, of w]
  have "\<exists>l'. lease_in w (srv_leases h) = Some l' \<and> served hid data e l l' (to_client w out)"
    using assms(2) by simp
  then obtain l' where "lease_in w (srv_leases h) = Some l'"
    "served hid data e l l' (to_client w out)" by blast
  thus ?thesis by (rule that [OF e])
qed

lemma view_served_lease:
  assumes v: "view_served hid data f h out"
  shows "lease_in w (srv_leases h) = None \<longleftrightarrow> f w = None"
    "\<forall>x\<in>set (to_client w out). msg_id x = hid"
proof -
  have "(lease_in w (srv_leases h) = None \<longleftrightarrow> f w = None) \<and>
      (\<forall>x\<in>set (to_client w out). msg_id x = hid)"
  proof (cases "f w")
    case None
    thus ?thesis using view_served_None [OF v None] by simp
  next
    case (Some l)
    obtain e l' where "lease_in w (srv_leases h) = Some l'"
      "served hid data e l l' (to_client w out)"
      by (rule view_served_Some [OF v Some])
    thus ?thesis using Some served_ids by auto
  qed
  thus "lease_in w (srv_leases h) = None \<longleftrightarrow> f w = None"
    "\<forall>x\<in>set (to_client w out). msg_id x = hid" by blast+
qed

lemma view_served_exclusive:
  assumes v: "view_served hid data f h out" and l: "f w = Some l" "lease_cur l = SYNC_STATE_EXCLUSIVE"
  shows "\<exists>l'. lease_in w (srv_leases h) = Some l' \<and> lease_cur l' = SYNC_STATE_EXCLUSIVE"
proof -
  obtain e l' where e: "e = 0 \<longrightarrow> (\<forall>w l. f w = Some l \<longrightarrow> lease_cur l \<noteq> SYNC_STATE_EXCLUSIVE)"
    and l': "lease_in w (srv_leases h) = Some l'" "served hid data e l l' (to_client w out)"
    by (rule view_served_Some [OF v l(1)])
  have "e \<noteq> 0" using e l by blast
  hence "lease_cur l' = lease_cur l"
    using l'(2) unfolding served_def granted_def by (auto dest: asked_fields(1))
  thus ?thesis using l'(1) l(2) by simp
qed

lemma view_served_link:
  assumes v: "view_served hid data f h out" and lk: "link hid c (f w) q r"
  shows "link hid c (lease_in w (srv_leases h)) q (r @ to_client w out)"
proof (cases "f w")
  case None
  thus ?thesis using lk view_served_None [OF v None] by simp
next
  case (Some l)
  obtain e l' where "lease_in w (srv_leases h) = Some l'" "served hid data e l l' (to_client w out)"
    by (rule view_served_Some [OF v Some])
  thus ?thesis using link_served [OF lk [unfolded Some]] by simp
qed

lemma view_served_data:
  assumes v: "view_served hid data f h out" and lk: "link hid c (f w) q r"
    and d: "link_data d c (f w) q r"
    and e: "(\<forall>w l. f w = Some l \<longrightarrow> lease_cur l \<noteq> SYNC_STATE_EXCLUSIVE) \<longrightarrow> data = d"
  shows "link_data d c (lease_in w (srv_leases h)) q (r @ to_client w out)"
proof (cases "f w")
  case None
  thus ?thesis using d view_served_None [OF v None] by simp
next
  case (Some l)
  obtain n l' where "n = 0 \<longrightarrow> (\<forall>w l. f w = Some l \<longrightarrow> lease_cur l \<noteq> SYNC_STATE_EXCLUSIVE)"
    "lease_in w (srv_leases h) = Some l'" "served hid data n l l' (to_client w out)"
    by (rule view_served_Some [OF v Some])
  thus ?thesis using link_data_served [OF lk [unfolded Some] d [unfolded Some]] e by simp
qed

text \<open>
  A message of process \<open>v\<close> that leaves the handle on the server: \<open>f\<close> are the leases after its
  direct effect, \<open>first\<close> the messages sent before the leases are served.
\<close>

lemma sync_inv_served:
  assumes inv: "sync_inv s" and q: "up_queue s v = msg # rest" and hid: "hid = msg_id msg"
    and hv: "handler_view (sys_server s) hid data f st out"
    and pre: "\<forall>x\<in>set pre. fst x = v \<and> msg_id (snd x) = hid"
    and f: "\<And>w. w \<noteq> v \<Longrightarrow> f w = lease_of (sys_server s) w hid" "f w0 \<noteq> None"
    and lk: "link hid (sys_clients s v hid) (f v) (for_handle hid rest)
      (for_handle hid (down_queue s v) @ to_client v pre)"
    and dt: "link_data (latest s hid) (sys_clients s v hid) (f v) (for_handle hid rest)
      (for_handle hid (down_queue s v) @ to_client v pre)"
    and e: "(\<forall>w l. f w = Some l \<longrightarrow> lease_cur l \<noteq> SYNC_STATE_EXCLUSIVE) \<longrightarrow> data = latest s hid"
  shows "sync_inv (server_update s v rest st (pre @ out))"
proof -
  let ?s = "server_update s v rest st (pre @ out)"
  obtain h where h: "server_handles st = (server_handles (sys_server s))(hid \<mapsto> h)"
    and vs: "view_served hid data f h out" and cf: "clients_follow (sys_server s) hid f st"
    using hv unfolding handler_view_def by blast
  have lo: "lease_of st w j = (if j = hid then lease_in w (srv_leases h)
      else lease_of (sys_server s) w j)" for w j
    by (simp add: lease_of_def h)
  have ids: "\<forall>x\<in>set (to_client w (pre @ out)). msg_id x = hid" for w
    using pre view_served_lease(2) [OF vs] by (auto simp: to_client_def)
  have tp: "to_client w pre = []" if "w \<noteq> v" for w
    using pre that by (auto simp: to_client_def filter_empty_conv)
  have up: "for_handle j (up_queue ?s w) = (if w = v \<and> j = hid then for_handle hid rest
      else for_handle j (up_queue s w))" for w j
    using q hid by (auto simp: server_update_def)
  have dn: "for_handle j (down_queue ?s w) = for_handle j (down_queue s w) @
      (if j = hid then to_client w pre @ to_client w out else [])" for w j
    using for_handle_all [OF ids [of w], of j] by (simp add: server_update_def)
  have old: "handles_ok (sys_server s)" "clients_ok (sys_server s)" "sys_clients s w 0 = None"
    "sys_link s w j" "sys_data s w j" "server_data (sys_server s) j (latest s j)" for w j
    using inv by (auto simp: sync_inv_def)
  have lt: "latest ?s j = latest s j" for j
    using h by (auto simp: server_update_def latest_def)
  have ser: "sys_server ?s = st" "sys_clients ?s = sys_clients s"
    by (simp_all add: server_update_def)
  have "sys_link ?s w j \<and> sys_data ?s w j" for w j
  proof (cases "j = hid")
    case False
    thus ?thesis using old(4,5) [where w = w and j = j] unfolding ser up dn lo lt by simp
  next
    case j: True
    have "link hid (sys_clients s w hid) (f w) (if w = v then for_handle hid rest
          else for_handle hid (up_queue s w)) (for_handle hid (down_queue s w) @ to_client w pre)
      \<and> link_data (latest s hid) (sys_clients s w hid) (f w) (if w = v then for_handle hid rest
          else for_handle hid (up_queue s w)) (for_handle hid (down_queue s w) @ to_client w pre)"
      using lk dt f(1) [of w] old(4,5) [where w = w and j = hid] tp [of w] by (cases "w = v") auto
    thus ?thesis using view_served_link [OF vs] view_served_data [OF vs _ _ e]
      unfolding ser up dn lo lt j by (simp add: append_assoc [symmetric] del: append_assoc)
  qed
  moreover have "handles_ok st"
  proof -
    have "leases_ok (srv_leases h)" using vs by (simp add: view_served_def)
    moreover have "srv_leases h \<noteq> []" using f(2) view_served_lease(1) [OF vs, of w0] by auto
    ultimately show ?thesis using old(1) unfolding handles_ok_def h by (auto split: if_splits)
  qed
  moreover have "clients_ok st"
    by (rule clients_ok_follow [OF old(2) cf]) (simp_all add: lo view_served_lease(1) [OF vs])
  moreover have "server_data st j (latest s j)" for j
  proof (cases "j = hid")
    case True
    have "srv_data (old_handle st hid) = data" using vs h
      by (simp add: old_handle_def view_served_def)
    moreover have "(\<forall>w l. f w = Some l \<longrightarrow> lease_cur l \<noteq> SYNC_STATE_EXCLUSIVE)"
      if "\<forall>w l. lease_in w (srv_leases h) = Some l \<longrightarrow> lease_cur l \<noteq> SYNC_STATE_EXCLUSIVE"
      using view_served_exclusive [OF vs] that by blast
    ultimately show ?thesis unfolding server_data_def lo True using e by simp
  next
    case False
    thus ?thesis using old(6) [where j = j] h unfolding server_data_def lo
      by (simp add: old_handle_def)
  qed
  ultimately show ?thesis using old(3) unfolding sync_inv_def ser lt by simp
qed

text \<open>The last lease of a handle is closed: the handle is forgotten with its data.\<close>

lemma sync_inv_last:
  assumes inv: "sync_inv s" and q: "up_queue s v = msg # rest" and hid: "hid = msg_id msg"
    and st: "server_handles st = (server_handles (sys_server s))(hid := None)"
      "clients_follow (sys_server s) hid (\<lambda>w. None) st"
    and oth: "\<forall>w. w \<noteq> v \<longrightarrow> lease_of (sys_server s) w hid = None"
    and lk: "link hid (sys_clients s v hid) None (for_handle hid rest)
      (for_handle hid (down_queue s v) @ [closed_msg hid])"
  shows "sync_inv (server_update s v rest st [(v, closed_msg hid)])"
proof -
  let ?s = "server_update s v rest st [(v, closed_msg hid)]"
  have lo: "lease_of st w j = (if j = hid then None else lease_of (sys_server s) w j)" for w j
    by (simp add: lease_of_def st(1))
  have up: "for_handle j (up_queue ?s w) = (if w = v \<and> j = hid then for_handle hid rest
      else for_handle j (up_queue s w))" for w j
    using q hid by (auto simp: server_update_def)
  have dn: "for_handle j (down_queue ?s w) = for_handle j (down_queue s w) @
      (if j = hid \<and> w = v then [closed_msg hid] else [])" for w j
    by (auto simp: server_update_def)
  have old: "handles_ok (sys_server s)" "clients_ok (sys_server s)" "sys_clients s w 0 = None"
    "sys_link s w j" "sys_data s w j" "server_data (sys_server s) j (latest s j)" for w j
    using inv by (auto simp: sync_inv_def)
  have lt: "latest ?s j = (if j = hid then [] else latest s j)" for j
  proof (cases "j = hid \<and> server_handles (sys_server s) j = None")
    case True
    moreover hence "latest s j = []" using old(6) [where j = j]
      by (auto simp: server_data_def lease_of_def old_handle_def)
    ultimately show ?thesis using st(1) by (auto simp: server_update_def latest_def)
  qed (auto simp: server_update_def latest_def st(1))
  have ser: "sys_server ?s = st" "sys_clients ?s = sys_clients s"
    by (simp_all add: server_update_def)
  have "sys_link ?s w j \<and> sys_data ?s w j" for w j
  proof (cases "j = hid")
    case False
    thus ?thesis using old(4,5) [where w = w and j = j] unfolding ser up dn lo lt by simp
  next
    case j: True
    have "sys_link ?s w hid"
      using lk oth old(4) [where w = w and j = hid] unfolding ser up dn lo by (cases "w = v") auto
    moreover from this have "sys_data ?s w hid"
      using link_data_unregistered unfolding ser lo lt by auto
    ultimately show ?thesis unfolding j by blast
  qed
  moreover have "handles_ok st"
    using old(1) unfolding handles_ok_def st(1) by (auto split: if_splits)
  moreover have "clients_ok st"
    by (rule clients_ok_follow [OF old(2) st(2)]) (simp_all add: lo)
  moreover have "server_data st j (latest ?s j)" for j
    using old(6) [where j = j] unfolding server_data_def lo lt
    by (auto simp: old_handle_def st(1))
  ultimately show ?thesis using old(3) unfolding sync_inv_def ser by simp
qed

text \<open>Every message to the server keeps the invariant.\<close>

lemma sync_inv_server_message:
  assumes inv: "sync_inv s" and q: "up_queue s v = msg # rest"
    and ok: "sync_server_message_callback m (sys_server s) v msg = Ok (st, out)"
  shows "sync_inv (server_update s v rest st out)"
proof -
  obtain code hid t d where msg: "msg = Sync_Msg code hid t d" by (cases msg)
  let ?srv = "sys_server s" and ?c = "sys_clients s v hid"
  let ?q = "for_handle hid rest" and ?r = "for_handle hid (down_queue s v)"
  let ?f = "\<lambda>w. lease_of ?srv w hid"
  have hs: "handles_ok ?srv" using inv by (simp add: sync_inv_def)
  have lk: "link hid ?c (?f v) (msg # ?q) ?r" and dt: "link_data (latest s hid) ?c (?f v) (msg # ?q) ?r"
    and sd: "server_data ?srv hid (latest s hid)"
    using inv q msg by (auto simp: sync_inv_def dest!: spec [of _ v] spec [of _ hid])
  have hid: "hid = msg_id msg" using msg by simp
  note served = sync_inv_served [OF inv q hid]
  from link_up_codes [OF lk] msg consider "code = IPC_MSG_SYNC_REQUEST_UPGRADE"
    | "code = IPC_MSG_SYNC_CONFIRM_DOWNGRADE" | "code = IPC_MSG_SYNC_REQUEST_CLOSE" by auto
  thus ?thesis
  proof cases
    case 1
    define l where "l = (case ?f v of None \<Rightarrow> new_lease v | Some l \<Rightarrow> l)"
    have "do_request_upgrade m ?srv v hid t = Ok (st, out)"
      using ok 1 by (simp add: sync_server_message_callback_def msg asserting_Ok)
    note hv = do_request_upgrade_view [OF this hs l_def]
    note u = link_upgrade_msg(3) [OF lk [unfolded msg 1]]
      link_upgrade_msg(6) [OF lk [unfolded msg 1], of v, folded l_def]
    have "link_data (latest s hid) ?c (Some (l\<lparr>lease_client_req := t\<rparr>)) [] ?r"
      using dt by (simp add: link_data_def)
    moreover have "srv_data (old_handle ?srv hid) = latest s hid"
      if "\<forall>w x. (?f(v \<mapsto> l\<lparr>lease_client_req := t\<rparr>)) w = Some x \<longrightarrow> lease_cur x \<noteq> SYNC_STATE_EXCLUSIVE"
    proof -
      have "lease_cur x \<noteq> SYNC_STATE_EXCLUSIVE" if x: "?f w = Some x" for w x
        using that \<open>\<forall>w x. _ w = Some x \<longrightarrow> _ x\<close> [rule_format, of w]
        by (cases "w = v") (auto simp: l_def)
      thus ?thesis using sd unfolding server_data_def by blast
    qed
    ultimately show ?thesis
      using served [OF hv, of "[]" v] u by simp
  next
    case 2
    hence ok': "do_confirm_downgrade m ?srv v hid t d = Ok (st, out)"
      using ok by (simp add: sync_server_message_callback_def msg)
    obtain l where l0: "?f v = Some l" and t: "t \<in> {SYNC_STATE_INVALID, SYNC_STATE_SHARED}"
      "t < lease_cur l" "lease_cur l \<noteq> SYNC_STATE_EXCLUSIVE \<longrightarrow> d = []"
      and l1: "lease_client_req l = SYNC_STATE_NONE"
      and nx: "\<And>x. lease_cur x = t \<Longrightarrow> lease_client_req x = SYNC_STATE_NONE \<Longrightarrow>
        link hid ?c (Some x) ?q ?r"
      by (rule link_downgrade_msg [OF lk [unfolded msg 2]]) (rule that)
    note l = l0 l1
    obtain l' where l': "lease_cur l' = t" "lease_client_req l' = SYNC_STATE_NONE"
      and hv: "handler_view ?srv hid (if lease_cur l = SYNC_STATE_EXCLUSIVE then d
        else srv_data (old_handle ?srv hid)) (?f(v \<mapsto> l')) st out"
      by (rule do_confirm_downgrade_view [OF ok' hs l])
    have "link_data (latest s hid) ?c (Some l') ?q ?r"
      using dt t l'(1) by (auto simp: link_data_def)
    moreover have "(if lease_cur l = SYNC_STATE_EXCLUSIVE then d else srv_data (old_handle ?srv hid))
        = latest s hid"
      if o: "\<forall>w x. (?f(v \<mapsto> l')) w = Some x \<longrightarrow> lease_cur x \<noteq> SYNC_STATE_EXCLUSIVE"
    proof (cases "lease_cur l = SYNC_STATE_EXCLUSIVE")
      case True
      thus ?thesis using dt l msg 2 by (simp add: link_data_def)
    next
      case False
      have "lease_cur x \<noteq> SYNC_STATE_EXCLUSIVE" if "?f w = Some x" for w x
        using that o [rule_format, of w x] False l(1) by (cases "w = v") auto
      thus ?thesis using sd False unfolding server_data_def by auto
    qed
    ultimately show ?thesis using served [OF hv, of "[]" v] nx [OF l'] by simp
  next
    case 3
    hence ok': "do_request_close m ?srv v hid t d = Ok (st, out)"
      using ok by (simp add: sync_server_message_callback_def msg)
    obtain l where l: "?f v = Some l" "lease_cur l = t" and q': "?q = []"
      and nx: "link hid ?c None [] (?r @ [closed_msg hid])"
      by (rule link_close_msg [OF lk [unfolded msg 3]])
    from ok' hs l(1) show ?thesis
    proof (cases rule: do_request_close_view)
      case last
      show ?thesis unfolding last(2)
        by (rule sync_inv_last [OF inv q hid last(3,4,1)]) (use nx q' in simp)
    next
      case (others out' w)
      have "link_data (latest s hid) ?c None ?q (?r @ [closed_msg hid])"
        using dt by (auto simp: link_data_def)
      moreover have "(if t = SYNC_STATE_EXCLUSIVE then d else srv_data (old_handle ?srv hid))
          = latest s hid"
        if o: "\<forall>w x. (?f(v := None)) w = Some x \<longrightarrow> lease_cur x \<noteq> SYNC_STATE_EXCLUSIVE"
      proof (cases "t = SYNC_STATE_EXCLUSIVE")
        case True
        thus ?thesis using dt l msg 3 by (simp add: link_data_def)
      next
        case False
        have "lease_cur x \<noteq> SYNC_STATE_EXCLUSIVE" if "?f w = Some x" for w x
          using that o [rule_format, of w x] False l by (cases "w = v") auto
        thus ?thesis using sd False unfolding server_data_def by auto
      qed
      ultimately show ?thesis
        using served [OF others(4), of "[(v, closed_msg hid)]" w] nx q' others(1-3) by simp
    qed
  qed
qed

section \<open>Every step keeps the invariant\<close>

lemma sync_inv_client_message:
  assumes inv: "sync_inv s" and q: "down_queue s v = msg # rest"
    and ok: "sync_client_message_callback m True (sys_clients s v) msg = Ok (tbl, out)"
  shows "sync_inv (client_receive s v rest tbl out)"
proof -
  let ?s = "client_receive s v rest tbl out"
  define hid where hid: "hid = msg_id msg"
  have old: "sys_link s w j" "sys_data s w j" "sys_clients s w 0 = None" for w j
    using inv by (auto simp: sync_inv_def)
  have fh: "for_handle hid (down_queue s v) = msg # for_handle hid rest" using q hid by simp
  note lk = old(1) [where w = v and j = hid, unfolded fh]
  note dt = old(2) [where w = v and j = hid, unfolded fh]
  obtain h' where t: "tbl = (sys_clients s v)(hid \<mapsto> h')" and ids: "\<forall>x\<in>set out. msg_id x = hid"
    and lk': "link hid (Some h') (lease_of (sys_server s) v hid)
      (for_handle hid (up_queue s v) @ out) (for_handle hid rest)"
    using link_client_message(2) [OF lk hid [symmetric] ok] by blast
  note dt' = link_data_client_message [OF lk hid [symmetric] dt ok]
  have nz: "hid \<noteq> 0" using link_message_codes(1) [OF lk] old(3) by auto
  have u: "for_handle j (up_queue ?s w) = (if w = v \<and> j = hid
      then for_handle hid (up_queue s v) @ out else for_handle j (up_queue s w))" for j w
    using for_handle_all [OF ids] by (auto simp: client_receive_def)
  have c: "sys_clients ?s w j = (if w = v \<and> j = hid then Some h' else sys_clients s w j)" for w j
    by (simp add: client_receive_def t)
  have dn: "for_handle j (down_queue ?s w) = (if w = v \<and> j = hid then for_handle hid rest
      else for_handle j (down_queue s w))" for w j
    using q hid by (auto simp: client_receive_def)
  have rest: "sys_server ?s = sys_server s" "latest ?s = latest s"
    by (simp_all add: client_receive_def latest_def fun_eq_iff)
  have "sys_link ?s w j \<and> sys_data ?s w j" for w j
    using old(1,2) [where w = w and j = j] lk' dt' t unfolding u c dn rest by auto
  moreover have "sys_clients ?s w 0 = None" for w using old(3) c nz by simp
  ultimately show ?thesis using inv unfolding sync_inv_def rest by simp
qed

lemma sync_inv_create:
  assumes inv: "sync_inv s" and ok: "sync_init m e (sys_clients s v) hid = Ok (Inr tbl)"
  shows "sync_inv (s\<lparr>sys_clients := (sys_clients s)(v := tbl)\<rparr>)"
proof -
  have t: "tbl = (sys_clients s v)(hid \<mapsto> new_sync_handle)" "hid \<noteq> 0" "sys_clients s v hid = None"
    using ok by (auto simp: sync_init_def asserting_Ok split: prod.splits if_splits option.splits)
  have old: "sys_link s w j" "sys_data s w j" for w j using inv by (auto simp: sync_inv_def)
  have a: "lease_of (sys_server s) v hid = None" "for_handle hid (up_queue s v) = []"
    "for_handle hid (down_queue s v) = []"
    using old(1) [where w = v and j = hid] unfolding t(3) by (cases, simp)+
  have n: "link hid (Some new_sync_handle) None [] []"
    by (rule unregistered [OF handle_ok_new]) (simp_all add: new_sync_handle_def)
  have d: "link_data x (Some new_sync_handle) None [] []" for x
    by (simp add: link_data_def handle_data_def new_sync_handle_def sync_state_order)
  let ?s = "s\<lparr>sys_clients := (sys_clients s)(v := tbl)\<rparr>"
  have "sys_link ?s w j \<and> sys_data ?s w j" for w j
    using old [where w = w and j = j] n d a t(1) by (cases "w = v \<and> j = hid") auto
  thus ?thesis using inv t unfolding sync_inv_def by simp
qed

lemma sync_inv_links:
  assumes "sync_inv s" shows "sys_link s v hid" "sys_data s v hid"
  using assms by (auto simp: sync_inv_def)

lemma sync_inv_lock:
  assumes inv: "sync_inv s" and h: "sys_clients s v hid = Some h"
    and t: "sh_thread h = Unlocked" "sh_closer h = Nobody"
    and ok: "sync_lock m True hid state n h = Ok (h', out)"
  shows "sync_inv (client_update s v hid (Some h') out)"
proof -
  note o = sync_inv_links [OF inv, of hid v, unfolded h]
  show ?thesis
    by (rule sync_inv_client_same [OF inv _ sync_client_ids(1) [OF ok]
          link_lock [OF o(1) t ok] link_data_lock [OF o t(1) ok]]) (simp add: h)
qed

lemma sync_inv_wake:
  assumes inv: "sync_inv s" and h: "sys_clients s v hid = Some h"
    and t: "sh_thread h = Waiting state n"
    and ok: "sync_lock_wake m hid state n h = Ok (h', out)"
  shows "sync_inv (client_update s v hid (Some h') out)"
proof -
  note o = sync_inv_links [OF inv, of hid v, unfolded h]
  show ?thesis
    by (rule sync_inv_client_same [OF inv _ sync_client_ids(2) [OF ok]
          link_wake [OF o(1) t ok] link_data_wake [OF o t ok]]) (simp add: h)
qed

lemma sync_inv_destroy:
  assumes inv: "sync_inv s" and h: "sys_clients s v hid = Some h"
    and t: "sh_thread h = Unlocked" "sh_closer h = Nobody" "sh_phase h \<noteq> SYNC_PHASE_CLOSING"
    and ok: "sync_destroy m True hid h = Ok (h', out)"
  shows "sync_inv (client_update s v hid h' out)"
proof -
  note o = sync_inv_links [OF inv, of hid v, unfolded h]
  note lk = link_destroy [OF o(1) t ok]
  from ok show ?thesis
  proof (cases rule: sync_destroy_cases)
    case now
    show ?thesis
      by (rule sync_inv_client_same [OF inv _ _ lk])
        (use h now link_data_handle(2) [OF o(2)] in simp_all)
  next
    case (later h1)
    note d1 = link_data_close [OF o later(1) t(1) later(2)]
    have "handle_data (latest s hid) (sync_wait_begin (h1\<lparr>sh_closer := In_Destroy\<rparr>))"
      by (rule handle_data_closer(1)) (use d1 in \<open>simp add: link_data_def\<close>)
    note d2 = link_data_handle(1) [OF d1 this, folded later(3)]
    show ?thesis
      by (rule sync_inv_client_same [OF inv _ sync_client_ids(4) [OF later(2)] lk d2])
        (simp add: h)
  qed
qed

lemma sync_inv_shutdown_close:
  assumes inv: "sync_inv s" and h: "sys_clients s v hid = Some h"
    and t: "sh_thread h = Unlocked" "sh_closer h = Nobody"
    and ok: "shutdown_close m True hid h = Ok (h', out)"
  shows "sync_inv (client_update s v hid (Some h') out)"
proof -
  note o = sync_inv_links [OF inv, of hid v, unfolded h]
  note lk = link_shutdown_close [OF o(1) t ok]
  have "(\<forall>x\<in>set out. msg_id x = hid) \<and> link_data (latest s hid) (Some h')
      (lease_of (sys_server s) v hid) (for_handle hid (up_queue s v) @ out)
      (for_handle hid (down_queue s v))"
    using ok o(2) link_data_close [OF o _ t(1)] sync_client_ids(4)
    by (cases "sh_phase h = SYNC_PHASE_OPEN") (auto simp: shutdown_close_def)
  thus ?thesis using sync_inv_client_same [OF inv _ _ lk] h by simp
qed

text \<open>The waits of the closing threads send nothing and leave the data alone.\<close>

lemma sync_inv_waits:
  assumes inv: "sync_inv s" and h: "sys_clients s v hid = Some h"
  shows "sh_closer h = In_Destroy \<Longrightarrow> sync_inv (client_update s v hid (sync_destroy_wake h) [])"
    and "sh_thread h = Unlocked \<Longrightarrow> sh_closer h = Nobody \<Longrightarrow> sh_phase h \<noteq> SYNC_PHASE_OPEN \<Longrightarrow>
      sync_inv (client_update s v hid (Some (shutdown_wait h)) [])"
    and "sh_closer h = In_Shutdown \<Longrightarrow>
      sync_inv (client_update s v hid (Some (shutdown_wake h)) [])"
proof -
  note o = sync_inv_links [OF inv, of hid v, unfolded h]
  have hd: "handle_data (latest s hid) h" using o(2) by (simp add: link_data_def)
  note c = handle_data_closer
  have "link_data (latest s hid) (sync_destroy_wake h) (lease_of (sys_server s) v hid)
      (for_handle hid (up_queue s v)) (for_handle hid (down_queue s v))"
    using o(2) c(2,3) by (auto simp: sync_destroy_wake_def Let_def link_data_def)
  thus "sync_inv (client_update s v hid (sync_destroy_wake h) [])" if "sh_closer h = In_Destroy"
    using sync_inv_client_same [OF inv, of v hid "[]"] link_destroy_wake [OF o(1) that] h by simp
  have "handle_data (latest s hid) (shutdown_wait h)"
    using hd c(1) by (simp add: shutdown_wait_def)
  note d = link_data_handle(1) [OF o(2) this]
  show "sync_inv (client_update s v hid (Some (shutdown_wait h)) [])"
    if "sh_thread h = Unlocked" "sh_closer h = Nobody" "sh_phase h \<noteq> SYNC_PHASE_OPEN"
    using sync_inv_client_same [OF inv, of v hid "[]"] d link_shutdown_wait [OF o(1) that] h by simp
  have "handle_data (latest s hid) (shutdown_wake h)"
    using hd c(2-4) by (simp add: shutdown_wake_def Let_def)
  note d = link_data_handle(1) [OF o(2) this]
  show "sync_inv (client_update s v hid (Some (shutdown_wake h)) [])"
    if "sh_closer h = In_Shutdown"
    using sync_inv_client_same [OF inv, of v hid "[]"] d link_shutdown_wake [OF o(1) that] h by simp
qed

lemma sync_step_inv:
  assumes "sync_step s s'" "sync_inv s" shows "sync_inv s'"
  using assms
proof cases
  case (unlock v hid h state ret data m h' out)
  show ?thesis unfolding unlock(1) by (rule sync_inv_unlock [OF assms(2) unlock(2-5)])
qed (blast intro: sync_inv_create sync_inv_lock sync_inv_wake sync_inv_destroy
    sync_inv_shutdown_close sync_inv_waits sync_inv_server_message sync_inv_client_message)+

lemma sync_reachable_inv: "sync_reachable s \<Longrightarrow> sync_inv s"
  by (induction rule: sync_reachable.induct) (auto intro: sync_inv_start sync_step_inv)

end
