(* ===== verification/Sync_Properties.thy ===== *)
theory Sync_Properties
  imports Sync_Safety
begin

text \<open>
  The guarantees of the sync engine. Runs of the engine can be computed: an action picks the
  process, the handle and the arguments of a step, and \<open>sync_run\<close> performs a list of actions,
  so a reachable state is the result of a run.
\<close>

section \<open>Runs\<close>

datatype sync_action =
    Create u32 u64
  | Lock u32 u64 sync_state nat
  | Wake u32 u64
  | Unlock u32 u64 "u8 list"
  | Destroy u32 u64
  | Destroy_Wake u32 u64
  | Server_Receive u32
  | Client_Receive u32

definition on_handle ::
  "sync_system \<Rightarrow> u32 \<Rightarrow> u64 \<Rightarrow> (sync_handle \<Rightarrow> sync_system option) \<Rightarrow> sync_system option" where
  "on_handle s v hid f = (case sys_clients s v hid of None \<Rightarrow> None | Some h \<Rightarrow> f h)"

fun sync_act :: "sync_action \<Rightarrow> sync_system \<Rightarrow> sync_system option" where
  "sync_act (Create v hid) s =
     (case sync_init [] None (sys_clients s v) hid of
        Ok (Inr tbl) \<Rightarrow> Some (s\<lparr>sys_clients := (sys_clients s)(v := tbl)\<rparr>)
      | _ \<Rightarrow> None)"
| "sync_act (Lock v hid state n) s =
     on_handle s v hid (\<lambda>h.
       if sh_thread h = Unlocked \<and> sh_closer h = Nobody
       then (case sync_lock [] True hid state n h of
               Ok (h', out) \<Rightarrow> Some (client_update s v hid (Some h') out) | _ \<Rightarrow> None)
       else None)"
| "sync_act (Wake v hid) s =
     on_handle s v hid (\<lambda>h.
       case sh_thread h of
         Waiting state n \<Rightarrow>
           if sh_event h
           then (case sync_lock_wake [] hid state n h of
                   Ok (h', out) \<Rightarrow> Some (client_update s v hid (Some h') out) | _ \<Rightarrow> None)
           else None
       | _ \<Rightarrow> None)"
| "sync_act (Unlock v hid data) s =
     on_handle s v hid (\<lambda>h.
       case sh_thread h of
         Locked state ret \<Rightarrow>
           if state = SYNC_STATE_EXCLUSIVE \<or> data = [] \<or> data = sh_data h
           then (case sync_unlock [] True hid data h of
                   Ok (h', out) \<Rightarrow> Some (write_data hid data (client_update s v hid (Some h') out))
                 | _ \<Rightarrow> None)
           else None
       | _ \<Rightarrow> None)"
| "sync_act (Destroy v hid) s =
     on_handle s v hid (\<lambda>h.
       if sh_thread h = Unlocked \<and> sh_closer h = Nobody \<and> sh_phase h \<noteq> SYNC_PHASE_CLOSING
       then (case sync_destroy [] True hid h of
               Ok (h', out) \<Rightarrow> Some (client_update s v hid h' out) | _ \<Rightarrow> None)
       else None)"
| "sync_act (Destroy_Wake v hid) s =
     on_handle s v hid (\<lambda>h.
       if sh_closer h = In_Destroy \<and> sh_event h
       then Some (client_update s v hid (sync_destroy_wake h) []) else None)"
| "sync_act (Server_Receive v) s =
     (case up_queue s v of
        [] \<Rightarrow> None
      | msg # rest \<Rightarrow>
          (case sync_server_message_callback [] (sys_server s) v msg of
             Ok (st, out) \<Rightarrow> Some (server_update s v rest st out) | _ \<Rightarrow> None))"
| "sync_act (Client_Receive v) s =
     (case down_queue s v of
        [] \<Rightarrow> None
      | msg # rest \<Rightarrow>
          (case sync_client_message_callback [] True (sys_clients s v) msg of
             Ok (tbl, out) \<Rightarrow> Some (client_receive s v rest tbl out) | _ \<Rightarrow> None))"

fun sync_run :: "sync_action list \<Rightarrow> sync_system \<Rightarrow> sync_system option" where
  "sync_run [] s = Some s"
| "sync_run (a # as) s = (case sync_act a s of None \<Rightarrow> None | Some s' \<Rightarrow> sync_run as s')"

lemma sync_act_step:
  assumes "sync_act a s = Some s'" shows "sync_step s s'"
proof (cases a)
  case (Unlock v hid data)
  then obtain h state ret h' out where h: "sys_clients s v hid = Some h"
    "sh_thread h = Locked state ret" "state = SYNC_STATE_EXCLUSIVE \<or> data = [] \<or> data = sh_data h"
    "sync_unlock [] True hid data h = Ok (h', out)"
    and s': "s' = write_data hid data (client_update s v hid (Some h') out)"
    using assms by (simp add: on_handle_def split: option.splits lock_thread.splits outcome.splits
        prod.splits if_split_asm)
  show ?thesis unfolding s' by (rule sync_step.unlock [OF h])
qed (use assms in \<open>auto simp: on_handle_def intro: sync_step.intros
      split: option.splits outcome.splits sum.splits if_splits lock_thread.splits list.splits\<close>)

lemma sync_run_reachable: "sync_run as s = Some s' \<Longrightarrow> sync_reachable s \<Longrightarrow> sync_reachable s'"
proof (induction as arbitrary: s)
  case (Cons a as)
  thus ?case using sync_act_step sync_reachable.step by (fastforce split: option.splits)
qed simp

section \<open>No assertion fails and no handle is unknown\<close>

lemma changed_leases_ok:
  assumes ok: "leases_ok ls" and l: "lease_in v ls = Some l"
    and l': "lease_ok l'" "lease_client l' = v" "lease_cur l' \<le> lease_cur l"
  shows "leases_ok (set_lease l' ls)" "leases_ok (move_to_tail v (set_lease l' ls))"
    "leases_ok [x \<leftarrow> ls. lease_client x \<noteq> v]"
proof -
  have d: "distinct (map lease_client ls)" using ok by (simp add: leases_ok_def)
  obtain xs ys where xy: "ls = xs @ l # ys" "v \<notin> lease_client ` set xs"
    "v \<notin> lease_client ` set ys" "lease_client l = v"
    using lease_split [OF d l] by metis
  note o = lease_split_ops [OF xy(2,3,4) l'(2)]
  have "leases_ok (xs @ l' # ys)"
    by (rule leases_ok_replace [of xs l ys]) (use ok xy l' in simp_all)
  thus "leases_ok (set_lease l' ls)" "leases_ok (move_to_tail v (set_lease l' ls))"
    using o(1) lease_split_ops(3) [OF xy(2,3) l'(2) l'(2)] leases_ok_tail unfolding xy(1) by simp_all
  show "leases_ok [x \<leftarrow> ls. lease_client x \<noteq> v]"
    using leases_ok_drop ok o(2) unfolding xy(1) by metis
qed

lemma do_request_upgrade_asserts:
  assumes st: "handles_ok st" and l: "l = (case lease_of st v hid of None \<Rightarrow> new_lease v | Some l \<Rightarrow> l)"
    and s: "s \<in> {SYNC_STATE_SHARED, SYNC_STATE_EXCLUSIVE}" "lease_cur l < s"
  shows "do_request_upgrade m st v hid s \<noteq> Assertion_Failed"
proof -
  have "leases_ok (move_to_tail v (set_lease (l1\<lparr>lease_client_req := s\<rparr>) (srv_leases h1)))
      \<and> lease_cur l1 < s"
    if fh: "server_find_handle m st hid True = (Some h0, st1, m1)"
      and fl: "find_lease m1 st1 hid h0 v True = (Some (l1, h1), st2, m2)" for h0 st1 m1 l1 h1 st2 m2
  proof -
    note f = find_or_create [OF fh fl st l]
    have i: "l \<in> set (srv_leases h1)" "lease_client l = v" using lease_in_Some [OF f(4)] by auto
    hence "lease_ok l" using f(2) by (simp add: leases_ok_def)
    hence "lease_ok (l\<lparr>lease_client_req := s\<rparr>)" using s(2) by (simp add: lease_ok_def)
    thus ?thesis using changed_leases_ok(2) [OF f(2,4)] i(2) f(1) s(2) by simp
  qed
  thus ?thesis using s(1) process_handle_asserts unfolding do_request_upgrade_def
    by (auto simp: outcome_simps Let_def split: option.splits prod.splits)
qed

lemma do_confirm_downgrade_asserts:
  assumes st: "handles_ok st" and l: "lease_of st v hid = Some l" "lease_client_req l = SYNC_STATE_NONE"
    and t: "t \<in> {SYNC_STATE_INVALID, SYNC_STATE_SHARED}" "t < lease_cur l"
      "lease_cur l \<noteq> SYNC_STATE_EXCLUSIVE \<longrightarrow> d = []"
  shows "do_confirm_downgrade m st v hid t d \<noteq> Assertion_Failed"
proof -
  let ?h = "old_handle st hid"
  note e = existing_lease [OF l(1)]
  have lo: "leases_ok (srv_leases ?h)" by (rule handles_ok_old [OF st])
  have li: "lease_in v (srv_leases ?h) = Some l" using l(1) by (simp add: lease_of_old)
  have c: "lease_client l = v" using lease_in_Some [OF li] by simp
  let ?l = "\<lambda>x. if t \<le> lease_server_req l
    then l\<lparr>lease_cur := t, lease_server_req := SYNC_STATE_NONE\<rparr> else l\<lparr>lease_cur := t\<rparr>"
  have "lease_ok (?l x)" for x using l(2) t lo lease_in_Some [OF li]
    by (auto simp: lease_ok_def leases_ok_def)
  hence "leases_ok (set_lease (?l x) (srv_leases ?h))" for x
    using changed_leases_ok(1) [OF lo li, of "?l x"] c t(2) by (simp split: if_splits)
  thus ?thesis using t process_handle_asserts unfolding do_confirm_downgrade_def
    by (auto simp: e outcome_simps Let_def server_update_handle_data_def
        dest!: server_data_Ok split: prod.splits if_splits)
qed

lemma do_request_close_asserts:
  assumes st: "handles_ok st" and l: "lease_of st v hid = Some l"
    and s: "s \<noteq> SYNC_STATE_NONE" "s \<noteq> SYNC_STATE_EXCLUSIVE \<longrightarrow> d = []"
  shows "do_request_close m st v hid s d \<noteq> Assertion_Failed"
proof -
  let ?h = "old_handle st hid"
  note e = existing_lease [OF l]
  have lo: "leases_ok (srv_leases ?h)" by (rule handles_ok_old [OF st])
  have li: "lease_in v (srv_leases ?h) = Some l" using l by (simp add: lease_of_old)
  have "lease_client l = v" "lease_ok l" using lease_in_Some [OF li] lo by (auto simp: leases_ok_def)
  hence "leases_ok [x \<leftarrow> srv_leases ?h. lease_client x \<noteq> v]"
    using changed_leases_ok(3) [OF lo li, of l] by simp
  moreover have "s = SYNC_STATE_INVALID \<or> s = SYNC_STATE_SHARED \<or> s = SYNC_STATE_EXCLUSIVE"
    using s(1) by (cases s) auto
  ultimately show ?thesis using s(2) process_handle_asserts unfolding do_request_close_def
    by (auto simp: e outcome_simps Let_def server_update_handle_data_def
        dest!: server_data_Ok split: prod.splits if_splits)
qed

lemma server_message_asserts:
  assumes st: "handles_ok st" and lk: "link hid c (lease_of st v hid) (msg # q) r"
    and i: "msg_id msg = hid"
  shows "sync_server_message_callback m st v msg \<noteq> Assertion_Failed"
proof -
  obtain code t d where msg: "msg = Sync_Msg code hid t d" using i by (cases msg) simp
  from link_up_codes [OF lk] msg consider "code = IPC_MSG_SYNC_REQUEST_UPGRADE"
    | "code = IPC_MSG_SYNC_CONFIRM_DOWNGRADE" | "code = IPC_MSG_SYNC_REQUEST_CLOSE" by auto
  thus ?thesis
  proof cases
    case 1
    note u = link_upgrade_msg [OF lk [unfolded msg 1]]
    show ?thesis using do_request_upgrade_asserts [OF st refl u(2,5)] u(1)
      by (simp add: sync_server_message_callback_def msg 1 outcome_simps)
  next
    case 2
    obtain l where "lease_of st v hid = Some l" "lease_client_req l = SYNC_STATE_NONE"
      "t \<in> {SYNC_STATE_INVALID, SYNC_STATE_SHARED}" "t < lease_cur l"
      "lease_cur l \<noteq> SYNC_STATE_EXCLUSIVE \<longrightarrow> d = []"
      by (rule link_downgrade_msg [OF lk [unfolded msg 2]])
    thus ?thesis using do_confirm_downgrade_asserts [OF st]
      by (simp add: sync_server_message_callback_def msg 2)
  next
    case 3
    obtain l where "lease_of st v hid = Some l" "t \<noteq> SYNC_STATE_NONE"
      "t \<noteq> SYNC_STATE_EXCLUSIVE \<longrightarrow> d = []"
      by (rule link_close_msg [OF lk [unfolded msg 3]])
    thus ?thesis using do_request_close_asserts [OF st]
      by (simp add: sync_server_message_callback_def msg 3)
  qed
qed

text \<open>
  With memory and with working channels (the empty list of outcomes) the server does not exit
  either: the messages it exits on, about an unknown handle or client or with an unknown
  code, do not occur.
\<close>

lemma send_succeeds:
  "send_confirm_upgrade [] hid d v s = Ok ([(v, granted_msg hid s d)], [])"
  "send_request_downgrade [] hid v s =
     Ok ([(v, Sync_Msg IPC_MSG_SYNC_REQUEST_DOWNGRADE hid s [])], [])"
  "send_confirm_close [] hid v = Ok ([(v, closed_msg hid)], [])"
  by (simp_all add: send_confirm_upgrade_def send_request_downgrade_def send_confirm_close_def
      ipc_sync_server_send_def)

lemma lease_loop_succeeds:
  assumes "\<And>k l. body k [] l \<noteq> Fatal" "\<And>k l l' out k' m. body k [] l = Ok (l', out, k', m) \<Longrightarrow> m = []"
  shows "lease_loop body k [] ls \<noteq> Fatal \<and>
    (\<forall>ls' out k' m. lease_loop body k [] ls = Ok (ls', out, k', m) \<longrightarrow> m = [])"
proof (induction ls arbitrary: k)
  case (Cons l ls)
  show ?case
  proof (cases "body k [] l")
    case (Ok x)
    obtain l' out k' m where x: "x = (l', out, k', m)" by (cases x)
    have "m = []" using assms(2) Ok x by blast
    thus ?thesis using Cons.IH [of k'] Ok x
      by (cases "lease_loop body k' [] ls") auto
  qed (use assms(1) in auto)
qed simp

lemma process_handle_succeeds: "process_handle [] hid h \<noteq> Fatal"
proof -
  have u: "upgrade_lease hid d k [] l \<noteq> Fatal"
    "upgrade_lease hid d k [] l = Ok (l', out, k', m) \<Longrightarrow> m = []" for d k l l' out k' m
    by (auto simp: upgrade_lease_def send_succeeds asserting_def split: if_splits)
  have i: "ask_invalid hid k [] l \<noteq> Fatal" "ask_invalid hid k [] l = Ok (l', out, k', m) \<Longrightarrow> m = []"
    and s: "ask_shared hid k [] l \<noteq> Fatal" "ask_shared hid k [] l = Ok (l', out, k', m) \<Longrightarrow> m = []"
    for k l l' out k' m
    by (auto simp: ask_invalid_def ask_shared_def send_succeeds split: if_splits)
  have g: "lease_loop (upgrade_lease hid (srv_data h)) k [] ls \<noteq> Fatal \<and>
      (\<forall>ls' out k' m. lease_loop (upgrade_lease hid (srv_data h)) k [] ls = Ok (ls', out, k', m)
        \<longrightarrow> m = [])" for k ls
    by (rule lease_loop_succeeds) (rule u(1), erule u(2))
  have loops: "lease_loop (ask_invalid hid) k [] ls \<noteq> Fatal"
    "lease_loop (ask_shared hid) k [] ls \<noteq> Fatal" for k ls
    by (rule conjunct1 [OF lease_loop_succeeds], rule i(1), erule i(2))
      (rule conjunct1 [OF lease_loop_succeeds], rule s(1), erule s(2))
  show ?thesis
  proof (cases "lease_loop (upgrade_lease hid (srv_data h)) (count_leases (srv_leases h)) []
      (srv_leases h)")
    case (Ok x)
    obtain ls out k m where x: "x = (ls, out, k, m)" by (cases x)
    have m: "m = []" using g Ok x by blast
    have a: "and_then r (\<lambda>(a, b, c, d). Ok (f a b c d)) = Fatal \<longleftrightarrow> r = Fatal" for r f
      by (cases r) auto
    show ?thesis unfolding process_handle_def Ok x m by (simp add: a loops)
  next
    case Fatal
    thus ?thesis using g by blast
  qed (simp add: process_handle_def)
qed

lemma server_update_succeeds:
  "(\<exists>h'. (if b then server_update_handle_data [] h d else asserting (d = []) (Ok (h, []))) = Ok (h', []))
   \<or> (if b then server_update_handle_data [] h d else asserting (d = []) (Ok (h, [])))
       = Assertion_Failed"
  by (auto simp: server_update_handle_data_def asserting_def)

lemma server_handlers_succeed:
  "do_request_upgrade [] st v hid s \<noteq> Fatal"
  "lease_of st v hid = Some l \<Longrightarrow> do_confirm_downgrade [] st v hid s d \<noteq> Fatal"
  "lease_of st v hid = Some l \<Longrightarrow> do_request_close [] st v hid s d \<noteq> Fatal"
proof -
  have f: "\<exists>h st'. server_find_handle [] st hid True = (Some h, st', [])"
    by (auto simp: server_find_handle_def Let_def split: option.split)
  have g: "\<exists>x st'. find_lease [] st1 hid h v True = (Some x, st', [])" for st1 h
    by (auto simp: find_lease_def find_client_def Let_def split: option.split)
  have p: "and_then (process_handle [] hid h) (\<lambda>(h, out, m). Ok (F h out)) \<noteq> Fatal" for h F
    using process_handle_succeeds [of hid h] by (cases "process_handle [] hid h") auto
  obtain h st1 where fh: "server_find_handle [] st hid True = (Some h, st1, [])" using f by blast
  obtain l' h' st2 where fl: "find_lease [] st1 hid h v True = (Some (l', h'), st2, [])"
    using g by (metis surj_pair)
  show "do_request_upgrade [] st v hid s \<noteq> Fatal"
    unfolding do_request_upgrade_def by (simp add: fh fl asserting_def Let_def p)
  assume l: "lease_of st v hid = Some l"
  note e = existing_lease [OF l]
  note u = server_update_succeeds [where h = "old_handle st hid" and d = d]
  show "do_confirm_downgrade [] st v hid s d \<noteq> Fatal"
    using u [where b = "lease_cur l = SYNC_STATE_EXCLUSIVE"]
    by (elim disjE exE) (simp_all add: do_confirm_downgrade_def e asserting_def Let_def p)
  show "do_request_close [] st v hid s d \<noteq> Fatal"
    using u [where b = "s = SYNC_STATE_EXCLUSIVE"]
    by (elim disjE exE) (simp_all add: do_request_close_def e asserting_def Let_def p send_succeeds)
qed

lemma server_message_succeeds:
  assumes lk: "link hid c (lease_of st v hid) (msg # q) r" and i: "msg_id msg = hid"
  shows "sync_server_message_callback [] st v msg \<noteq> Fatal"
proof -
  obtain code t d where msg: "msg = Sync_Msg code hid t d" using i by (cases msg) simp
  have l: "\<exists>l. lease_of st v hid = Some l"
    if "code = IPC_MSG_SYNC_CONFIRM_DOWNGRADE \<or> code = IPC_MSG_SYNC_REQUEST_CLOSE"
    using lk that msg by (auto elim: link_downgrade_msg link_close_msg)
  from link_up_codes [OF lk] msg consider "code = IPC_MSG_SYNC_REQUEST_UPGRADE"
    | "code = IPC_MSG_SYNC_CONFIRM_DOWNGRADE" | "code = IPC_MSG_SYNC_REQUEST_CLOSE" by auto
  thus ?thesis
    by cases (use l server_handlers_succeed in
        \<open>auto simp: sync_server_message_callback_def msg asserting_def\<close>)
qed

section \<open>The deletion of a handle\<close>

lemma handler_view_keeps: "handler_view st hid data f st' out \<Longrightarrow> server_handles st' hid \<noteq> None"
  by (auto simp: handler_view_def)

text \<open>A message changes the handle it is about and no other.\<close>

lemma server_message_frame:
  assumes "sync_server_message_callback m st v msg = Ok (st', out)" "j \<noteq> msg_id msg"
  shows "server_handles st' j = server_handles st j"
proof -
  obtain code hid t d where msg: "msg = Sync_Msg code hid t d" by (cases msg)
  have f: "server_handles st1 j = server_handles st j"
    if "server_find_handle m st hid c = (h, st1, m1)" for c h st1 m1
    using that assms(2) msg
    by (auto simp: server_find_handle_def Let_def split: option.splits prod.splits if_splits)
  have g: "server_handles st2 j = server_handles st1 j"
    if "find_lease m st1 hid h v c = (r, st2, m1)" for m st1 h c r st2 m1
    using that assms(2) msg
    by (auto simp: find_lease_def find_client_def Let_def
        split: option.splits prod.splits if_splits)
  have dr: "server_handles (drop_client_lease v hid x) = server_handles x" for x
    by (simp add: drop_client_lease_def Let_def split: option.split)
  have sh: "server_handles (store_handle hid h x) j = server_handles x j" for h x
    using assms(2) msg by (simp add: store_handle_def)
  show ?thesis
    using assms unfolding msg sync_server_message_callback_def
    by (cases code) (auto simp: do_request_upgrade_def do_confirm_downgrade_def do_request_close_def
        outcome_simps Let_def sh dr split: option.splits prod.splits if_splits dest!: f g)
qed

text \<open>The server deletes a handle only when it closes the last lease on it.\<close>

lemma deleted_by_last_close:
  assumes inv: "sync_inv s" and q: "up_queue s v = msg # rest"
    and ok: "sync_server_message_callback m (sys_server s) v msg = Ok (st, out)"
    and gone: "server_handles (sys_server s) hid \<noteq> None" "server_handles st hid = None"
  shows "\<exists>t d. msg = close_msg hid t d \<and> lease_of (sys_server s) v hid \<noteq> None \<and>
    (\<forall>w. w = v \<or> lease_of (sys_server s) w hid = None)"
proof -
  let ?srv = "sys_server s"
  have st: "handles_ok ?srv" using inv by (simp add: sync_inv_def)
  have i: "msg_id msg = hid" using server_message_frame [OF ok] gone by metis
  obtain code t d where msg: "msg = Sync_Msg code hid t d" using i by (cases msg) simp
  have lk: "link hid (sys_clients s v hid) (lease_of ?srv v hid) (msg # for_handle hid rest)
      (for_handle hid (down_queue s v))"
    using sync_inv_links(1) [OF inv, of hid v] q i by simp
  from link_up_codes [OF lk] msg consider "code = IPC_MSG_SYNC_REQUEST_UPGRADE"
    | "code = IPC_MSG_SYNC_CONFIRM_DOWNGRADE" | "code = IPC_MSG_SYNC_REQUEST_CLOSE" by auto
  thus ?thesis
  proof cases
    case 1
    have "do_request_upgrade m ?srv v hid t = Ok (st, out)"
      using ok 1 by (simp add: sync_server_message_callback_def msg asserting_Ok)
    from handler_view_keeps [OF do_request_upgrade_view [OF this st refl]] gone(2)
    show ?thesis by simp
  next
    case 2
    hence ok': "do_confirm_downgrade m ?srv v hid t d = Ok (st, out)"
      using ok by (simp add: sync_server_message_callback_def msg)
    obtain l where l: "lease_of ?srv v hid = Some l" "lease_client_req l = SYNC_STATE_NONE"
      by (rule link_downgrade_msg [OF lk [unfolded msg 2]])
    obtain l' where "handler_view ?srv hid
        (if lease_cur l = SYNC_STATE_EXCLUSIVE then d else srv_data (old_handle ?srv hid))
        ((\<lambda>w. lease_of ?srv w hid)(v \<mapsto> l')) st out"
      by (rule do_confirm_downgrade_view [OF ok' st l])
    from handler_view_keeps [OF this] gone(2) show ?thesis by simp
  next
    case 3
    hence ok': "do_request_close m ?srv v hid t d = Ok (st, out)"
      using ok by (simp add: sync_server_message_callback_def msg)
    obtain l where l: "lease_of ?srv v hid = Some l"
      by (rule link_close_msg [OF lk [unfolded msg 3]])
    from ok' st l show ?thesis
    proof (cases rule: do_request_close_view)
      case last
      thus ?thesis using msg 3 l by auto
    next
      case (others out' w)
      from handler_view_keeps [OF others(4)] gone(2) show ?thesis by simp
    qed
  qed
qed

lemma last_close_deletes:
  assumes inv: "sync_inv s"
    and ok: "sync_server_message_callback m (sys_server s) v (close_msg hid t d) = Ok (st, out)"
    and l: "lease_of (sys_server s) v hid = Some l"
    and only: "\<forall>w. w = v \<or> lease_of (sys_server s) w hid = None"
  shows "server_handles st hid = None"
proof -
  have st: "handles_ok (sys_server s)" using inv by (simp add: sync_inv_def)
  have "do_request_close m (sys_server s) v hid t d = Ok (st, out)"
    using ok by (simp add: sync_server_message_callback_def)
  from this st l show ?thesis
    by (cases rule: do_request_close_view) (use only in auto)
qed

section \<open>Two processes that upgrade at the same time\<close>

text \<open>What a message of process \<open>v\<close> does to the leases of the other processes.\<close>

lemma server_message_others:
  assumes st: "handles_ok st" and lk: "link hid c (lease_of st v hid) (msg # q) r"
    and i: "msg_id msg = hid" and ok: "sync_server_message_callback m st v msg = Ok (st', out)"
    and w: "w \<noteq> v" "lease_of st w hid \<noteq> None"
  obtains data f out' where "handler_view st hid data f st' out'"
    "\<And>x. x \<noteq> v \<Longrightarrow> f x = lease_of st x hid"
proof -
  obtain code t d where msg: "msg = Sync_Msg code hid t d" using i by (cases msg) simp
  from link_up_codes [OF lk] msg consider "code = IPC_MSG_SYNC_REQUEST_UPGRADE"
    | "code = IPC_MSG_SYNC_CONFIRM_DOWNGRADE" | "code = IPC_MSG_SYNC_REQUEST_CLOSE" by auto
  thus ?thesis
  proof cases
    case 1
    have "do_request_upgrade m st v hid t = Ok (st', out)"
      using ok 1 by (simp add: sync_server_message_callback_def msg asserting_Ok)
    from do_request_upgrade_view [OF this st refl] show ?thesis by (rule that) simp
  next
    case 2
    hence ok': "do_confirm_downgrade m st v hid t d = Ok (st', out)"
      using ok by (simp add: sync_server_message_callback_def msg)
    obtain l where l: "lease_of st v hid = Some l" "lease_client_req l = SYNC_STATE_NONE"
      by (rule link_downgrade_msg [OF lk [unfolded msg 2]])
    obtain l' where "handler_view st hid
        (if lease_cur l = SYNC_STATE_EXCLUSIVE then d else srv_data (old_handle st hid))
        ((\<lambda>w. lease_of st w hid)(v \<mapsto> l')) st' out"
      by (rule do_confirm_downgrade_view [OF ok' st l])
    thus ?thesis by (rule that) simp
  next
    case 3
    hence ok': "do_request_close m st v hid t d = Ok (st', out)"
      using ok by (simp add: sync_server_message_callback_def msg)
    obtain l where l: "lease_of st v hid = Some l"
      by (rule link_close_msg [OF lk [unfolded msg 3]])
    from ok' st l show ?thesis
    proof (cases rule: do_request_close_view)
      case last
      have "lease_of st w hid = None" using last(1) w(1) by blast
      thus ?thesis using w(2) by simp
    next
      case (others out' x)
      from others(4) show ?thesis by (rule that) simp
    qed
  qed
qed

text \<open>
  A process is stuck in an upgrade when its thread waits for exclusive mode with no
  notification, while its lease is in shared mode with the request pending.
\<close>

definition stuck :: "sync_system \<Rightarrow> u32 \<Rightarrow> u64 \<Rightarrow> bool" where
  "stuck s v hid \<longleftrightarrow>
     (case sys_clients s v hid of
        None \<Rightarrow> False
      | Some h \<Rightarrow> \<not> sh_event h \<and>
          (case sh_thread h of Waiting st n \<Rightarrow> st = SYNC_STATE_EXCLUSIVE | _ \<Rightarrow> False)) \<and>
     (case lease_of (sys_server s) v hid of
        None \<Rightarrow> False
      | Some l \<Rightarrow> lease_cur l = SYNC_STATE_SHARED \<and> lease_client_req l = SYNC_STATE_EXCLUSIVE)"

lemma stuckE:
  assumes "stuck s v hid"
  obtains h n l where "sys_clients s v hid = Some h" "\<not> sh_event h"
    "sh_thread h = Waiting SYNC_STATE_EXCLUSIVE n" "lease_of (sys_server s) v hid = Some l"
    "lease_cur l = SYNC_STATE_SHARED" "lease_client_req l = SYNC_STATE_EXCLUSIVE"
  using assms by (auto simp: stuck_def split: option.splits lock_thread.splits)

lemma stuck_link:
  assumes inv: "sync_inv s" and st: "stuck s v hid"
  shows "for_handle hid (up_queue s v) = []" "asks hid (for_handle hid (down_queue s v))"
proof -
  obtain h n l where h: "sys_clients s v hid = Some h" "lease_of (sys_server s) v hid = Some l"
    "lease_client_req l = SYNC_STATE_EXCLUSIVE"
    by (rule stuckE [OF st])
  note lk = sync_inv_links(1) [OF inv, of hid v, unfolded h(1,2)]
  show "for_handle hid (up_queue s v) = []" using lk by cases (use h(3) in auto)
  show "asks hid (for_handle hid (down_queue s v))" using lk by cases (use h(3) in auto)
qed

lemma stuck_server:
  assumes inv: "sync_inv s" and q: "up_queue s u = msg # rest"
    and ok: "sync_server_message_callback m (sys_server s) u msg = Ok (st, out)"
    and vw: "v \<noteq> w" "stuck s v hid" "stuck s w hid"
  shows "\<exists>l. lease_of st v hid = Some l \<and> lease_cur l = SYNC_STATE_SHARED \<and>
    lease_client_req l = SYNC_STATE_EXCLUSIVE"
proof -
  let ?srv = "sys_server s"
  obtain l where l: "lease_of ?srv v hid = Some l" "lease_cur l = SYNC_STATE_SHARED"
    "lease_client_req l = SYNC_STATE_EXCLUSIVE" by (rule stuckE [OF vw(2)])
  obtain k where k: "lease_of ?srv w hid = Some k" "lease_cur k = SYNC_STATE_SHARED"
    "lease_client_req k = SYNC_STATE_EXCLUSIVE" by (rule stuckE [OF vw(3)])
  have st: "handles_ok ?srv" using inv by (simp add: sync_inv_def)
  define j where "j = msg_id msg"
  have lk: "link j (sys_clients s u j) (lease_of ?srv u j) (msg # for_handle j rest)
      (for_handle j (down_queue s u))"
    using sync_inv_links(1) [OF inv, of j u] q j_def by simp
  have uv: "u \<noteq> v \<and> u \<noteq> w" if "j = hid"
    using stuck_link(1) [OF inv vw(2)] stuck_link(1) [OF inv vw(3)] q that j_def by auto
  show ?thesis
  proof (cases "j = hid")
    case False
    have "server_handles st hid = server_handles ?srv hid"
      using server_message_frame [OF ok] False j_def by simp
    thus ?thesis using l by (simp add: lease_of_def)
  next
    case True
    note lk' = lk [unfolded True]
    obtain data f out' where hv: "handler_view ?srv hid data f st out'"
      and f: "\<And>x. x \<noteq> u \<Longrightarrow> f x = lease_of ?srv x hid"
      by (rule server_message_others [OF st lk' _ ok, of v]) (use uv True j_def l in auto)
    obtain h where h: "server_handles st hid = Some h" and vs: "view_served hid data f h out'"
      using hv unfolding handler_view_def by auto
    have fv: "f v = Some l" "f w = Some k" using f uv True l k by auto
    obtain e1 l' where l': "lease_in v (srv_leases h) = Some l'"
      "served hid data e1 l l' (to_client v out')" by (rule view_served_Some [OF vs fv(1)])
    obtain e2 k' where k': "lease_in w (srv_leases h) = Some k'"
      "served hid data e2 k k' (to_client w out')" by (rule view_served_Some [OF vs fv(2)])
    have k'': "lease_cur k' \<in> {SYNC_STATE_SHARED, SYNC_STATE_EXCLUSIVE}"
      using k'(2) k unfolding served_def granted_def asked_def by auto
    have ls: "leases_ok (srv_leases h)" using vs by (simp add: view_served_def)
    have "lease_cur l' \<noteq> SYNC_STATE_EXCLUSIVE"
    proof
      assume "lease_cur l' = SYNC_STATE_EXCLUSIVE"
      moreover have "l' \<in> set (srv_leases h)" "k' \<in> set (srv_leases h)" "l' \<noteq> k'"
        using lease_in_Some [OF l'(1)] lease_in_Some [OF k'(1)] vw(1) by auto
      moreover have "lease_cur k' \<noteq> SYNC_STATE_NONE" using k'' by auto
      ultimately have "lease_cur k' = SYNC_STATE_INVALID"
        using exclusion_pair ls unfolding leases_ok_def by blast
      thus False using k'' by simp
    qed
    hence "lease_cur l' = SYNC_STATE_SHARED \<and> lease_client_req l' = SYNC_STATE_EXCLUSIVE"
      using l'(2) l unfolding served_def granted_def asked_def by auto
    thus ?thesis using h l'(1) by (simp add: lease_of_def)
  qed
qed

lemma stuck_client_message:
  assumes inv: "sync_inv s" and q: "down_queue s u = msg # rest" and st: "stuck s v hid"
    and ok: "sync_client_message_callback m True (sys_clients s u) msg = Ok (tbl, out)"
  shows "stuck (client_receive s u rest tbl out) v hid"
proof -
  obtain h n where h: "sys_clients s v hid = Some h" "\<not> sh_event h"
    "sh_thread h = Waiting SYNC_STATE_EXCLUSIVE n" by (rule stuckE [OF st])
  have ho: "handle_ok h" using sync_inv_links(1) [OF inv, of hid v, unfolded h(1)] by (rule link_SomeE)
  have u: "sh_used h" by (rule handle_ok_waiting(4) [OF ho h(3)])
  have sv: "lease_of (sys_server (client_receive s u rest tbl out)) v hid =
      lease_of (sys_server s) v hid" by (simp add: client_receive_def)
  have "\<exists>h'. sys_clients (client_receive s u rest tbl out) v hid = Some h' \<and>
      \<not> sh_event h' \<and> sh_thread h' = sh_thread h"
  proof (cases "u = v \<and> msg_id msg = hid")
    case True
    have "asks hid (for_handle hid (msg # rest))" using stuck_link(2) [OF inv st] q True by simp
    then obtain t where msg: "msg = Sync_Msg IPC_MSG_SYNC_REQUEST_DOWNGRADE hid t []"
      using True by (cases msg) (auto simp: asks_Cons)
    obtain h' where r: "do_request_downgrade m hid t h = Ok (h', out)" "tbl hid = Some h'"
      using ok h(1) True by (auto simp: msg sync_client_message_callback_def outcome_simps)
    from r(1) have "sh_event h' = sh_event h \<and> sh_thread h' = sh_thread h"
      by (cases rule: do_request_downgrade_cases) (use u in auto)
    thus ?thesis using r(2) h True by (simp add: client_receive_def)
  next
    case False
    define j where "j = msg_id msg"
    have lk: "link j (sys_clients s u j) (lease_of (sys_server s) u j) (for_handle j (up_queue s u))
        (msg # for_handle j rest)"
      using sync_inv_links(1) [OF inv, of j u] q j_def by simp
    obtain h' where "tbl = (sys_clients s u)(j \<mapsto> h')"
      using link_client_message(2) [OF lk j_def [symmetric] ok] by blast
    thus ?thesis using False h j_def by (auto simp: client_receive_def)
  qed
  thus ?thesis using st unfolding stuck_def sv h(1) by auto
qed

lemma stuck_client_update:
  assumes "stuck s v hid" "sys_clients s v hid = Some h" "sys_clients s u j = Some g" "g \<noteq> h"
  shows "stuck (client_update s u j h' out) v hid"
    "stuck (write_data i d (client_update s u j h' out)) v hid"
  using assms by (auto simp: stuck_def client_update_def)

lemma stuck_step:
  assumes inv: "sync_inv s" and step: "sync_step s s'"
    and vw: "v \<noteq> w" "stuck s v hid" "stuck s w hid"
  shows "stuck s' v hid"
proof -
  obtain h n where h: "sys_clients s v hid = Some h" "\<not> sh_event h"
    "sh_thread h = Waiting SYNC_STATE_EXCLUSIVE n" by (rule stuckE [OF vw(2)])
  have ho: "handle_ok h" using sync_inv_links(1) [OF inv, of hid v, unfolded h(1)] by (rule link_SomeE)
  have c: "sh_closer h = Nobody" by (rule handle_ok_waiting(2) [OF ho h(3)])
  from step show ?thesis
  proof cases
    case (create m e u j tbl)
    have "tbl = (sys_clients s u)(j \<mapsto> new_sync_handle)" "sys_clients s u j = None"
      using create(2) by (auto simp: sync_init_def asserting_Ok split: prod.splits if_splits option.splits)
    thus ?thesis using create(1) vw(2) h(1) by (auto simp: stuck_def)
  next
    case (server_message u msg rest m st out)
    have "sys_clients s' = sys_clients s" "sys_server s' = st"
      using server_message(1) by (simp_all add: server_update_def)
    thus ?thesis using stuck_server [OF inv server_message(2,3) vw] vw(2) h
      by (auto simp: stuck_def)
  next
    case (client_message u msg rest m tbl out)
    thus ?thesis using stuck_client_message [OF inv _ vw(2)] by simp
  next
    case (unlock u j g state ret data m h' out)
    show ?thesis unfolding unlock(1)
      by (rule stuck_client_update(2) [OF vw(2) h(1) unlock(2)]) (use unlock(3) h in auto)
  qed (use h c in \<open>auto intro!: stuck_client_update(1) [OF vw(2) h(1)]\<close>)
qed

lemma stuck_forever:
  assumes "sync_step\<^sup>*\<^sup>* s s'" "sync_inv s" "v \<noteq> w" "stuck s v hid" "stuck s w hid"
  shows "sync_inv s' \<and> stuck s' v hid \<and> stuck s' w hid"
  using assms
  by (induction rule: rtranclp_induct) (auto intro: sync_step_inv stuck_step)

section \<open>The guarantees\<close>

text \<open>What the owner of \<open>use_lock\<close> of a handle is doing in process \<open>v\<close>.\<close>

definition thread_of :: "sync_system \<Rightarrow> u32 \<Rightarrow> u64 \<Rightarrow> lock_thread option" where
  "thread_of s v hid = map_option sh_thread (sys_clients s v hid)"

definition data_of :: "sync_system \<Rightarrow> u32 \<Rightarrow> u64 \<Rightarrow> u8 list option" where
  "data_of s v hid = map_option sh_data (sys_clients s v hid)"

definition in_run :: "sync_action list \<Rightarrow> (sync_system \<Rightarrow> bool) \<Rightarrow> bool" where
  "in_run as P = (case sync_run as sync_start of None \<Rightarrow> False | Some s \<Rightarrow> P s)"

lemma in_runE:
  assumes "in_run as P" obtains s where "sync_reachable s" "P s"
  using assms sync_run_reachable [OF _ sync_reachable.start]
  by (auto simp: in_run_def split: option.splits)

lemma thread_ofE:
  assumes "sync_reachable s" "thread_of s v hid = Some t"
  obtains h where "sys_clients s v hid = Some h" "sh_thread h = t" "handle_ok h"
    "sys_link s v hid" "sys_data s v hid"
proof -
  have i: "sync_inv s" by (rule sync_reachable_inv [OF assms(1)])
  obtain h where h: "sys_clients s v hid = Some h" "sh_thread h = t"
    using assms(2) by (auto simp: thread_of_def)
  note lk = sync_inv_links [OF i, of hid v]
  have "handle_ok h" using lk(1) unfolding h(1) by (rule link_SomeE)
  thus ?thesis using that h lk by blast
qed

text \<open>A thread inside the lock has a lease that is at least as strong.\<close>

lemma locked_lease:
  assumes "sync_reachable s" "thread_of s v hid = Some (Locked st ret)"
  obtains l where "lease_of (sys_server s) v hid = Some l" "st \<le> lease_cur l"
    "st \<in> {SYNC_STATE_SHARED, SYNC_STATE_EXCLUSIVE}"
proof -
  obtain h where h: "sys_clients s v hid = Some h" "sh_thread h = Locked st ret" "handle_ok h"
    "sys_link s v hid" by (rule thread_ofE [OF assms])
  note k = handle_ok_locked(5,6) [OF h(3,2)]
  note c = link_cur_le [OF h(4) [unfolded h(1)]]
  show ?thesis
  proof (cases "lease_of (sys_server s) v hid")
    case None
    thus ?thesis using c k by (auto simp: sync_state_order)
  next
    case (Some l)
    thus ?thesis using c k by (intro that [OF Some]) auto
  qed
qed

lemma reachable_leases:
  assumes "sync_reachable s" "v \<noteq> w" "lease_of (sys_server s) v hid = Some l"
    "lease_of (sys_server s) w hid = Some k" "lease_cur l = SYNC_STATE_EXCLUSIVE"
  shows "lease_cur k = SYNC_STATE_INVALID"
proof -
  have "handles_ok (sys_server s)"
    using sync_reachable_inv [OF assms(1)] by (simp add: sync_inv_def)
  hence ls: "leases_ok (srv_leases (old_handle (sys_server s) hid))" by (rule handles_ok_old)
  have lk: "l \<in> set (srv_leases (old_handle (sys_server s) hid))"
    "k \<in> set (srv_leases (old_handle (sys_server s) hid))"
    "lease_client l = v" "lease_client k = w"
    using assms(3,4) lease_in_Some by (auto simp: lease_of_old)
  have "lease_ok k" using ls lk(2) by (simp add: leases_ok_def)
  thus ?thesis using exclusion_pair [of _ l k] ls lk assms(2,5)
    by (auto simp: leases_ok_def lease_ok_def)
qed

text \<open>
  C1: Mutual exclusion. While a thread of one process is between \<open>sync_lock\<close> with
  \<open>SYNC_STATE_EXCLUSIVE\<close> and \<open>sync_unlock\<close> on a handle, no thread of another process is between
  \<open>sync_lock\<close>, in either mode, and \<open>sync_unlock\<close> on the same handle. This holds in every state
  that the processes and the server can reach by calls, returns from waits and messages in
  any order.
\<close>

theorem sync_mutual_exclusion:
  assumes "sync_reachable s" "v \<noteq> w"
    and "thread_of s v hid = Some (Locked SYNC_STATE_EXCLUSIVE ret)"
  shows "thread_of s w hid \<noteq> Some (Locked st ret')"
proof
  assume w: "thread_of s w hid = Some (Locked st ret')"
  obtain l where l: "lease_of (sys_server s) v hid = Some l" "SYNC_STATE_EXCLUSIVE \<le> lease_cur l"
    by (rule locked_lease [OF assms(1,3)])
  obtain k where k: "lease_of (sys_server s) w hid = Some k" "st \<le> lease_cur k"
    "st \<in> {SYNC_STATE_SHARED, SYNC_STATE_EXCLUSIVE}" by (rule locked_lease [OF assms(1) w])
  have "lease_cur l = SYNC_STATE_EXCLUSIVE" using l(2) by (cases "lease_cur l") (auto simp: sync_state_order)
  hence "lease_cur k = SYNC_STATE_INVALID" by (rule reachable_leases [OF assms(1,2) l(1) k(1)])
  thus False using k(2,3) by (auto simp: sync_state_order)
qed

text \<open>
  Process 1 holds the exclusive lock, process 2 waits for it and process 1 has been asked to
  give it up.
\<close>

abbreviation contended_run :: "sync_action list" where
  "contended_run \<equiv> [Create 1 5, Create 2 5, Lock 1 5 SYNC_STATE_EXCLUSIVE 0, Server_Receive 1,
     Client_Receive 1, Wake 1 5, Lock 2 5 SYNC_STATE_EXCLUSIVE 0, Server_Receive 2,
     Client_Receive 1]"

theorem sync_mutual_exclusion_witness:
  "\<exists>s. sync_reachable s \<and> thread_of s 1 5 = Some (Locked SYNC_STATE_EXCLUSIVE None) \<and>
     thread_of s 2 5 = Some (Waiting SYNC_STATE_EXCLUSIVE 0) \<and>
     thread_of s 2 5 \<noteq> Some (Locked SYNC_STATE_SHARED None)"
proof -
  have "in_run contended_run (\<lambda>s. thread_of s 1 5 = Some (Locked SYNC_STATE_EXCLUSIVE None) \<and>
     thread_of s 2 5 = Some (Waiting SYNC_STATE_EXCLUSIVE 0))" by code_simp
  then obtain s where s: "sync_reachable s"
    "thread_of s 1 5 = Some (Locked SYNC_STATE_EXCLUSIVE None)"
    "thread_of s 2 5 = Some (Waiting SYNC_STATE_EXCLUSIVE 0)" by (rule in_runE) simp
  moreover have "thread_of s 2 5 \<noteq> Some (Locked SYNC_STATE_SHARED None)"
    by (rule sync_mutual_exclusion [OF s(1) _ s(2)]) simp
  ultimately show ?thesis by blast
qed

text \<open>
  C2: Data coherence. A thread that has locked a handle, in either mode, works on the data of
  the last \<open>sync_unlock\<close> that wrote any, in whichever process that was, unless the server has
  deleted the handle since that write; then it works on no data at all. The copy in its
  handle is that data, and if \<open>sync_lock\<close> returned data to it (returned true), that is the data.
\<close>

theorem sync_data_coherent:
  assumes "sync_reachable s" "thread_of s v hid = Some (Locked st ret)"
  shows "data_of s v hid = Some (if forgotten s hid then [] else written s hid) \<and>
    (ret = None \<or> ret = Some (if forgotten s hid then [] else written s hid))"
  unfolding latest_def [symmetric]
proof (rule conjI)
  obtain h where h: "sys_clients s v hid = Some h" "sh_thread h = Locked st ret" "handle_ok h"
    and d: "sys_data s v hid" by (rule thread_ofE [OF assms])
  have hd: "handle_data (latest s hid) h" using d h(1) by (simp add: link_data_def)
  have "SYNC_STATE_SHARED \<le> sh_cur h" using handle_ok_locked(5,6) [OF h(3,2)]
    by (auto simp: sync_state_order)
  thus "data_of s v hid = Some (latest s hid)" using hd h(1) by (simp add: handle_data_def data_of_def)
  show "ret = None \<or> ret = Some (latest s hid)"
    using hd h(2) by (cases ret) (auto simp: handle_data_def)
qed

text \<open>Process 1 writes a byte; process 2 writes another; process 1 locks the handle for reading
  and is given the second byte.\<close>

abbreviation written_run :: "sync_action list" where
  "written_run \<equiv> contended_run @ [Unlock 1 5 [7], Server_Receive 1, Client_Receive 2, Wake 2 5,
     Unlock 2 5 [9], Lock 1 5 SYNC_STATE_SHARED 1, Server_Receive 1, Client_Receive 2,
     Server_Receive 2, Client_Receive 1, Wake 1 5]"

theorem sync_data_coherent_witness:
  "\<exists>s. sync_reachable s \<and> thread_of s 1 5 = Some (Locked SYNC_STATE_SHARED (Some [9])) \<and>
     data_of s 1 5 = Some (written s 5) \<and> written s 5 = [9]"
proof -
  have "in_run written_run (\<lambda>s. thread_of s 1 5 = Some (Locked SYNC_STATE_SHARED (Some [9])) \<and>
    \<not> forgotten s 5)" by code_simp
  then obtain s where s: "sync_reachable s"
    "thread_of s 1 5 = Some (Locked SYNC_STATE_SHARED (Some [9]))" "\<not> forgotten s 5"
    by (rule in_runE) simp
  show ?thesis using s sync_data_coherent [OF s(1,2)] by auto
qed

text \<open>
  C38: When data is lost. A step makes the engine forget the data of a handle exactly if the
  server handles the close of the last lease on it. Other processes that have created the
  handle but hold no lease are not asked: after the step no process has a lease, and whoever
  locks the handle next gets no data.
\<close>

theorem sync_last_close_forgets:
  assumes "sync_reachable s" "sync_step s s'" "\<not> forgotten s hid"
  shows "forgotten s' hid \<longleftrightarrow>
    (\<exists>v st d rest m srv out. up_queue s v = close_msg hid st d # rest \<and>
       lease_of (sys_server s) v hid \<noteq> None \<and>
       (\<forall>w. w = v \<or> lease_of (sys_server s) w hid = None) \<and>
       sync_server_message_callback m (sys_server s) v (close_msg hid st d) = Ok (srv, out) \<and>
       s' = server_update s v rest srv out)" (is "_ \<longleftrightarrow> ?last")
proof
  assume f: "forgotten s' hid"
  from assms(2) show ?last
  proof cases
    case (server_message v msg rest m st out)
    have i: "sync_inv s" by (rule sync_reachable_inv [OF assms(1)])
    have gone: "server_handles (sys_server s) hid \<noteq> None" "server_handles st hid = None"
      using f assms(3) server_message(1) by (auto simp: server_update_def)
    note l = deleted_by_last_close [OF i server_message(2,3) gone]
    show ?thesis using l server_message by (metis (no_types))
  qed (use f assms(3) in \<open>auto simp: client_update_def client_receive_def write_data_def
      split: if_splits\<close>)
next
  assume ?last
  then obtain v st d rest m srv out where q: "up_queue s v = close_msg hid st d # rest"
    "lease_of (sys_server s) v hid \<noteq> None"
    "\<forall>w. w = v \<or> lease_of (sys_server s) w hid = None"
    "sync_server_message_callback m (sys_server s) v (close_msg hid st d) = Ok (srv, out)"
    and s': "s' = server_update s v rest srv out" by blast
  have i: "sync_inv s" by (rule sync_reachable_inv [OF assms(1)])
  have "server_handles srv hid = None" "server_handles (sys_server s) hid \<noteq> None"
    using last_close_deletes [OF i q(4)] q(2,3) by (auto simp: lease_of_def split: option.splits)
  thus "forgotten s' hid" unfolding s' by (simp add: server_update_def)
qed

text \<open>
  Process 1 writes a byte and destroys its handle; process 2, which has created the handle
  before, then locks it and is given nothing.
\<close>

abbreviation lost_run :: "sync_action list" where
  "lost_run \<equiv> [Create 1 5, Create 2 5, Lock 1 5 SYNC_STATE_EXCLUSIVE 0, Server_Receive 1,
     Client_Receive 1, Wake 1 5, Unlock 1 5 [7], Destroy 1 5]"

theorem sync_last_close_forgets_witness:
  "\<exists>s s'. sync_reachable s \<and> sync_step s s' \<and> written s 5 = [7] \<and> forgotten s' 5 \<and>
     in_run (lost_run @ [Server_Receive 1, Client_Receive 1, Destroy_Wake 1 5,
       Lock 2 5 SYNC_STATE_SHARED 1, Server_Receive 2, Client_Receive 2, Wake 2 5])
       (\<lambda>t. written t 5 = [7] \<and> thread_of t 2 5 = Some (Locked SYNC_STATE_SHARED None) \<and>
          data_of t 2 5 = Some [])"
proof -
  let ?msg = "close_msg 5 SYNC_STATE_EXCLUSIVE [7]"
  let ?P = "\<lambda>s. written s 5 = [7] \<and> \<not> forgotten s 5 \<and> up_queue s 1 = [?msg] \<and>
    (case sync_act (Server_Receive 1) s of None \<Rightarrow> False | Some s' \<Rightarrow> True) \<and>
    map_option (map lease_client \<circ> srv_leases) (server_handles (sys_server s) 5) = Some [1]"
  have "in_run lost_run ?P" by code_simp
  then obtain s where s: "sync_reachable s" "?P s" by (rule in_runE)
  then obtain srv out where c: "sync_server_message_callback [] (sys_server s) 1 ?msg = Ok (srv, out)"
    by (auto split: outcome.splits)
  have step: "sync_step s (server_update s 1 [] srv out)"
    by (rule sync_step.server_message [OF _ c]) (use s in simp)
  obtain h where h: "server_handles (sys_server s) 5 = Some h" "map lease_client (srv_leases h) = [1]"
    using s(2) by auto
  then obtain l where "srv_leases h = [l]" "lease_client l = 1" by (auto simp: map_eq_Cons_conv)
  hence l: "lease_of (sys_server s) 1 5 \<noteq> None" "\<forall>w. w = 1 \<or> lease_of (sys_server s) w 5 = None"
    using h by (auto simp: lease_of_def)
  have "forgotten (server_update s 1 [] srv out) 5"
    using sync_last_close_forgets [OF s(1) step, of 5] s(2) l c by blast
  moreover have "in_run (lost_run @ [Server_Receive 1, Client_Receive 1, Destroy_Wake 1 5,
       Lock 2 5 SYNC_STATE_SHARED 1, Server_Receive 2, Client_Receive 2, Wake 2 5])
       (\<lambda>t. written t 5 = [7] \<and> thread_of t 2 5 = Some (Locked SYNC_STATE_SHARED None) \<and>
          data_of t 2 5 = Some [])" by code_simp
  ultimately show ?thesis using s step by blast
qed

text \<open>
  C31: The assertions of the server hold and it is never confused. For the next message from any
  process in any reachable state, no assertion of the handler fails, whatever allocations
  and sends succeed; and when they succeed, the handler does not exit the server: a close
  is always about a handle and a client that it knows, and the code is one it handles.
\<close>

theorem sync_server_handles_messages:
  assumes "sync_reachable s" "up_queue s v = msg # rest"
  shows "sync_server_message_callback m (sys_server s) v msg \<noteq> Assertion_Failed \<and>
    (\<exists>st out. sync_server_message_callback [] (sys_server s) v msg = Ok (st, out))"
proof (rule conjI)
  have i: "sync_inv s" by (rule sync_reachable_inv [OF assms(1)])
  have st: "handles_ok (sys_server s)" using i by (simp add: sync_inv_def)
  have lk: "link (msg_id msg) (sys_clients s v (msg_id msg)) (lease_of (sys_server s) v (msg_id msg))
      (msg # for_handle (msg_id msg) rest) (for_handle (msg_id msg) (down_queue s v))"
    using sync_inv_links(1) [OF i, of "msg_id msg" v] assms(2) by simp
  note a = server_message_asserts [OF st lk refl]
  show "sync_server_message_callback m (sys_server s) v msg \<noteq> Assertion_Failed" by (rule a)
  show "\<exists>st out. sync_server_message_callback [] (sys_server s) v msg = Ok (st, out)"
    using a [of "[]"] server_message_succeeds [OF lk refl]
    by (cases "sync_server_message_callback [] (sys_server s) v msg") auto
qed

theorem sync_server_handles_messages_witness:
  "\<exists>s st out. sync_reachable s \<and>
     sync_server_message_callback [] (sys_server s) 1
       (Sync_Msg IPC_MSG_SYNC_CONFIRM_DOWNGRADE 5 SYNC_STATE_INVALID [7]) = Ok (st, out)"
proof -
  have "in_run (contended_run @ [Unlock 1 5 [7]]) (\<lambda>s. up_queue s 1 =
      [Sync_Msg IPC_MSG_SYNC_CONFIRM_DOWNGRADE 5 SYNC_STATE_INVALID [7]])" by code_simp
  then obtain s where s: "sync_reachable s" "up_queue s 1 =
      [Sync_Msg IPC_MSG_SYNC_CONFIRM_DOWNGRADE 5 SYNC_STATE_INVALID [7]]" by (rule in_runE)
  show ?thesis using s(1) sync_server_handles_messages [OF s] by blast
qed

text \<open>The client, with memory and with a working channel.\<close>

lemma client_handlers_succeed:
  "do_request_downgrade [] hid t h \<noteq> Fatal" "do_confirm_upgrade [] t d h \<noteq> Fatal"
  by (auto simp: do_request_downgrade_def do_confirm_upgrade_def sync_downgrade_def asserting_def
      ipc_sync_client_send_def client_update_handle_data_def Let_def)

lemma client_message_succeeds:
  assumes "link hid (tbl hid) l q (msg # r)" "msg_id msg = hid"
  shows "sync_client_message_callback [] True tbl msg \<noteq> Fatal"
proof -
  have f: "and_then x (\<lambda>(h, out). Ok (g h out)) \<noteq> Fatal" if "x \<noteq> Fatal"
    for x :: "(sync_handle \<times> sync_msg list) outcome" and g :: "_ \<Rightarrow> _ \<Rightarrow> client_table \<times> sync_msg list"
    using that by (cases x) auto
  have e: "and_then x (\<lambda>h. Ok (g h)) \<noteq> Fatal" if "x \<noteq> Fatal"
    for x :: "sync_handle outcome" and g :: "_ \<Rightarrow> client_table \<times> sync_msg list"
    using that by (cases x) auto
  obtain h where "tbl hid = Some h" using link_message_codes(1) [OF assms(1)] by auto
  thus ?thesis using link_message_codes(2) [OF assms(1)] assms(2)
      f [OF client_handlers_succeed(1)] e [OF client_handlers_succeed(2)]
    by (cases msg) (auto simp: sync_client_message_callback_def asserting_def split: if_splits)
qed

text \<open>
  C32: The same of the clients: no assertion fails when a process handles its next message,
  and with memory and a working channel it does not exit; in particular the process still
  has the handle that the message is about.
\<close>

theorem sync_client_handles_messages:
  assumes "sync_reachable s" "down_queue s v = msg # rest"
  shows "sync_client_message_callback m True (sys_clients s v) msg \<noteq> Assertion_Failed \<and>
    (\<exists>tbl out. sync_client_message_callback [] True (sys_clients s v) msg = Ok (tbl, out)) \<and>
    sys_clients s v (msg_id msg) \<noteq> None"
proof (intro conjI)
  have lk: "link (msg_id msg) (sys_clients s v (msg_id msg)) (lease_of (sys_server s) v (msg_id msg))
      (for_handle (msg_id msg) (up_queue s v)) (msg # for_handle (msg_id msg) rest)"
    using sync_inv_links(1) [OF sync_reachable_inv [OF assms(1)], of "msg_id msg" v] assms(2) by simp
  note a = link_client_message(1) [where tbl = "sys_clients s v", OF lk refl]
  show "sync_client_message_callback m True (sys_clients s v) msg \<noteq> Assertion_Failed" by (rule a)
  show "\<exists>tbl out. sync_client_message_callback [] True (sys_clients s v) msg = Ok (tbl, out)"
    using a [of "[]"] client_message_succeeds [where tbl = "sys_clients s v", OF lk refl]
    by (cases "sync_client_message_callback [] True (sys_clients s v) msg") auto
  show "sys_clients s v (msg_id msg) \<noteq> None" using link_message_codes(1) [OF lk] by auto
qed

theorem sync_client_handles_messages_witness:
  "\<exists>s tbl out. sync_reachable s \<and>
     sync_client_message_callback [] True (sys_clients s 2)
       (Sync_Msg IPC_MSG_SYNC_CONFIRM_UPGRADE 5 SYNC_STATE_EXCLUSIVE [7]) = Ok (tbl, out)"
proof -
  have "in_run (contended_run @ [Unlock 1 5 [7], Server_Receive 1]) (\<lambda>s. down_queue s 2 =
      [Sync_Msg IPC_MSG_SYNC_CONFIRM_UPGRADE 5 SYNC_STATE_EXCLUSIVE [7]])" by code_simp
  then obtain s where s: "sync_reachable s" "down_queue s 2 =
      [Sync_Msg IPC_MSG_SYNC_CONFIRM_UPGRADE 5 SYNC_STATE_EXCLUSIVE [7]]" by (rule in_runE)
  show ?thesis using s(1) sync_client_handles_messages [OF s] by blast
qed

lemma downs_rest: "downs hid a q c rest \<Longrightarrow> set rest \<subseteq> set q"
  by (induction q arbitrary: a) (auto split: if_splits)

text \<open>
  C33: No request is lost. A thread that waits in \<open>sync_lock\<close> either has its state already, and
  then the event it sleeps on is set, or its request is under way to the server, waits in its
  lease on the server, or has been granted by a message under way to the process. A thread
  that waits for the handle to be closed is likewise woken once it is closed.
\<close>

theorem sync_no_lost_request:
  assumes "sync_reachable s" "sys_clients s v hid = Some h"
  shows "(sh_closer h \<noteq> Nobody \<longrightarrow> sh_phase h = SYNC_PHASE_CLOSED \<longrightarrow> sh_event h) \<and>
    (\<forall>st n. sh_thread h = Waiting st n \<longrightarrow>
       st \<le> sh_cur h \<and> sh_event h \<or>
       upgrade_msg hid st \<in> set (up_queue s v) \<or>
       (\<exists>l. lease_of (sys_server s) v hid = Some l \<and> lease_client_req l = st) \<or>
       (\<exists>d. granted_msg hid st d \<in> set (down_queue s v)))"
proof (intro conjI allI impI)
  have lk: "sys_link s v hid"
    by (rule sync_inv_links(1) [OF sync_reachable_inv [OF assms(1)]])
  have ok: "handle_ok h" using lk unfolding assms(2) by (rule link_SomeE)
  have sub: "set (for_handle hid q) \<subseteq> set q" for q by (auto simp: for_handle_def)
  show "sh_event h" if "sh_closer h \<noteq> Nobody" "sh_phase h = SYNC_PHASE_CLOSED"
    using ok that by (simp add: handle_ok_def)
  fix st n assume t: "sh_thread h = Waiting st n"
  note w = handle_ok_waiting [OF ok t]
  have n: "st \<noteq> SYNC_STATE_NONE" using w(5) by auto
  show "st \<le> sh_cur h \<and> sh_event h \<or>
       upgrade_msg hid st \<in> set (up_queue s v) \<or>
       (\<exists>l. lease_of (sys_server s) v hid = Some l \<and> lease_client_req l = st) \<or>
       (\<exists>d. granted_msg hid st d \<in> set (down_queue s v))"
  proof (cases "sh_client_req h = st")
    case False
    thus ?thesis using ok t by (auto simp: handle_ok_def)
  next
    case True
    have "upgrade_msg hid st \<in> set (for_handle hid (up_queue s v)) \<or>
       (\<exists>l. lease_of (sys_server s) v hid = Some l \<and> lease_client_req l = st) \<or>
       (\<exists>d. granted_msg hid st d \<in> set (for_handle hid (down_queue s v)))"
      using lk [unfolded assms(2)]
    proof cases
      case (again s' l)
      have "set [upgrade_msg hid s'] \<subseteq> set (for_handle hid (up_queue s v))"
        by (rule downs_rest [OF again(7)])
      thus ?thesis using again(4) True by simp
    qed (use True n in auto)
    thus ?thesis using sub by blast
  qed
qed

theorem sync_no_lost_request_witness:
  "\<exists>s l. sync_reachable s \<and> thread_of s 2 5 = Some (Waiting SYNC_STATE_EXCLUSIVE 0) \<and>
     lease_of (sys_server s) 2 5 = Some l \<and> lease_client_req l = SYNC_STATE_EXCLUSIVE"
proof -
  have "in_run contended_run (\<lambda>s. thread_of s 2 5 = Some (Waiting SYNC_STATE_EXCLUSIVE 0) \<and>
      map_option sh_event (sys_clients s 2 5) = Some False \<and> up_queue s 2 = [] \<and>
      down_queue s 2 = [])" by code_simp
  then obtain s where s: "sync_reachable s"
    "thread_of s 2 5 = Some (Waiting SYNC_STATE_EXCLUSIVE 0)"
    "map_option sh_event (sys_clients s 2 5) = Some False" "up_queue s 2 = []" "down_queue s 2 = []"
    by (rule in_runE) simp
  then obtain h where h: "sys_clients s 2 5 = Some h" "\<not> sh_event h"
    "sh_thread h = Waiting SYNC_STATE_EXCLUSIVE 0" by (auto simp: thread_of_def)
  show ?thesis using sync_no_lost_request [OF s(1) h(1)] h s by auto
qed

text \<open>
  C34: The server settles. When \<open>process_handle\<close> returns, every request that still waits is in
  conflict with the lease of another client, and the clients in its way have been asked to
  downgrade far enough: all that hold the handle to \<open>SYNC_STATE_INVALID\<close> for a request for exclusive
  mode, the exclusive one at least to \<open>SYNC_STATE_SHARED\<close> for a request for shared mode. The messages
  sent to each client are exactly a confirmation with the data for its new state, if its
  lease was upgraded, and the request for the downgrade recorded in its lease, if that is new.
\<close>

theorem process_handle_settles:
  assumes "process_handle m hid h = Ok (h', out, m')" "leases_ok (srv_leases h)"
    and "l \<in> set (srv_leases h')"
  shows "leases_ok (srv_leases h') \<and>
    (lease_client_req l = SYNC_STATE_SHARED \<longrightarrow> (\<exists>x\<in>set (srv_leases h').
      lease_cur x = SYNC_STATE_EXCLUSIVE \<and>
      lease_server_req x \<in> {SYNC_STATE_SHARED, SYNC_STATE_INVALID})) \<and>
    (lease_client_req l = SYNC_STATE_EXCLUSIVE \<longrightarrow>
      (\<exists>x\<in>set (srv_leases h'). x \<noteq> l \<and>
        lease_cur x \<in> {SYNC_STATE_SHARED, SYNC_STATE_EXCLUSIVE}) \<and>
      (\<forall>x\<in>set (srv_leases h').
        lease_cur x \<in> {SYNC_STATE_SHARED, SYNC_STATE_EXCLUSIVE} \<longrightarrow>
        lease_server_req x = SYNC_STATE_INVALID)) \<and>
    list_all2 (\<lambda>x x'. lease_client x' = lease_client x \<and>
      to_client (lease_client x) out =
        (if lease_cur x' \<noteq> lease_cur x then [granted_msg hid (lease_cur x') (srv_data h)] else []) @
        (if lease_server_req x' \<noteq> lease_server_req x
         then [Sync_Msg IPC_MSG_SYNC_REQUEST_DOWNGRADE hid (lease_server_req x') []] else []))
      (srv_leases h) (srv_leases h')"
proof -
  have "leases_ok (srv_leases h')" by (rule process_handle_counted [OF assms(1,2)])
  thus ?thesis using process_handle_requests [OF assms]
      process_handle_news [OF assms(1,2), unfolded lease_news_def] by blast
qed

abbreviation a_lease :: "u32 \<Rightarrow> sync_state \<Rightarrow> sync_state \<Rightarrow> sync_state \<Rightarrow> server_lease" where
  "a_lease v c r q \<equiv>
     \<lparr>lease_client = v, lease_cur = c, lease_client_req = r, lease_server_req = q\<rparr>"

theorem process_handle_settles_witness:
  "\<exists>out. process_handle [] 5 \<lparr>srv_data = [7], srv_leases =
        [a_lease 1 SYNC_STATE_SHARED SYNC_STATE_NONE SYNC_STATE_NONE,
         a_lease 2 SYNC_STATE_INVALID SYNC_STATE_EXCLUSIVE SYNC_STATE_NONE]\<rparr>
     = Ok (\<lparr>srv_data = [7], srv_leases =
        [a_lease 1 SYNC_STATE_SHARED SYNC_STATE_NONE SYNC_STATE_INVALID,
         a_lease 2 SYNC_STATE_INVALID SYNC_STATE_EXCLUSIVE SYNC_STATE_NONE]\<rparr>, out, []) \<and>
     leases_ok [a_lease 1 SYNC_STATE_SHARED SYNC_STATE_NONE SYNC_STATE_INVALID,
         a_lease 2 SYNC_STATE_INVALID SYNC_STATE_EXCLUSIVE SYNC_STATE_NONE]"
proof -
  let ?ls = "[a_lease 1 SYNC_STATE_SHARED SYNC_STATE_NONE SYNC_STATE_INVALID,
         a_lease 2 SYNC_STATE_INVALID SYNC_STATE_EXCLUSIVE SYNC_STATE_NONE]"
  have p: "process_handle [] 5 \<lparr>srv_data = [7], srv_leases =
        [a_lease 1 SYNC_STATE_SHARED SYNC_STATE_NONE SYNC_STATE_NONE,
         a_lease 2 SYNC_STATE_INVALID SYNC_STATE_EXCLUSIVE SYNC_STATE_NONE]\<rparr>
     = Ok (\<lparr>srv_data = [7], srv_leases = ?ls\<rparr>,
         [(1, Sync_Msg IPC_MSG_SYNC_REQUEST_DOWNGRADE 5 SYNC_STATE_INVALID [])], [])"
    by code_simp
  have "leases_ok (srv_leases \<lparr>srv_data = [7], srv_leases = ?ls\<rparr>)"
    by (rule conjunct1 [OF process_handle_settles [OF p, of "hd ?ls"]])
      (simp_all add: leases_ok_def lease_ok_def exclusion_def sync_state_order)
  thus ?thesis using p by simp
qed

text \<open>
  C3: Two upgrades from shared to exclusive mode deadlock. When two processes that hold the
  same handle in shared mode are both in \<open>sync_lock\<close> for exclusive mode and the server has both
  requests, both stay there for good: whatever the processes and the server do from then on,
  neither thread is woken. (Each has been asked to give up its shared mode, but a handle is
  not downgraded while it is in use, and it is in use from the beginning of \<open>sync_lock\<close>.)
\<close>

theorem sync_upgrades_deadlock:
  assumes "sync_reachable s" "v \<noteq> w" "stuck s v hid" "stuck s w hid" "sync_step\<^sup>*\<^sup>* s s'"
  shows "(\<exists>n. thread_of s' v hid = Some (Waiting SYNC_STATE_EXCLUSIVE n)) \<and>
    (\<exists>n. thread_of s' w hid = Some (Waiting SYNC_STATE_EXCLUSIVE n)) \<and>
    stuck s' v hid \<and> stuck s' w hid"
proof -
  have t: "\<exists>n. thread_of s' x hid = Some (Waiting SYNC_STATE_EXCLUSIVE n)" if x: "stuck s' x hid" for x
    by (rule stuckE [OF x]) (simp add: thread_of_def)
  have "stuck s' v hid \<and> stuck s' w hid"
    using stuck_forever [OF assms(5) sync_reachable_inv [OF assms(1)] assms(2-4)] by simp
  thus ?thesis using t by blast
qed

text \<open>
  Both processes have locked the handle for reading, have unlocked it and lock it for writing;
  all messages have been delivered.
\<close>

abbreviation upgrades_run :: "sync_action list" where
  "upgrades_run \<equiv> [Create 1 5, Create 2 5, Lock 1 5 SYNC_STATE_SHARED 0, Server_Receive 1,
     Client_Receive 1, Wake 1 5, Unlock 1 5 [], Lock 2 5 SYNC_STATE_SHARED 0, Server_Receive 2,
     Client_Receive 2, Wake 2 5, Unlock 2 5 [], Lock 1 5 SYNC_STATE_EXCLUSIVE 0,
     Lock 2 5 SYNC_STATE_EXCLUSIVE 0, Server_Receive 1, Server_Receive 2, Client_Receive 1,
     Client_Receive 2]"

theorem sync_upgrades_deadlock_witness:
  "\<exists>s. sync_reachable s \<and> stuck s 1 5 \<and> stuck s 2 5 \<and> down_queue s 1 = [] \<and> down_queue s 2 = [] \<and>
     thread_of s 1 5 = Some (Waiting SYNC_STATE_EXCLUSIVE 0) \<and>
     {s'. sync_step\<^sup>*\<^sup>* s s'} \<subseteq> {s'. \<exists>n. thread_of s' 1 5 = Some (Waiting SYNC_STATE_EXCLUSIVE n)}"
proof -
  have "in_run upgrades_run (\<lambda>s. stuck s 1 5 \<and> stuck s 2 5 \<and> down_queue s 1 = [] \<and>
    down_queue s 2 = [] \<and> thread_of s 1 5 = Some (Waiting SYNC_STATE_EXCLUSIVE 0))" by code_simp
  then obtain s where s: "sync_reachable s" "stuck s 1 5" "stuck s 2 5" "down_queue s 1 = []"
    "down_queue s 2 = []" "thread_of s 1 5 = Some (Waiting SYNC_STATE_EXCLUSIVE 0)"
    by (rule in_runE) simp
  show ?thesis using s sync_upgrades_deadlock [OF s(1) _ s(2,3)] by auto
qed

text \<open>
  C36: The server's table of clients is exact. When a process disconnects, the server exits if
  the process has a lease on some handle and goes on if it has none; the assertion that a
  client in the table has leases does not fail.
\<close>

theorem sync_disconnect_exact:
  assumes "sync_reachable s"
  shows "sync_server_disconnect_callback (sys_server s) v =
    (if \<exists>hid. lease_of (sys_server s) v hid \<noteq> None then Fatal else Ok ())"
proof -
  have c: "clients_ok (sys_server s)"
    using sync_reachable_inv [OF assms] by (simp add: sync_inv_def)
  show ?thesis
  proof (cases "server_clients (sys_server s) v")
    case None
    thus ?thesis using c [unfolded clients_ok_def, rule_format, of v]
      by (simp add: sync_server_disconnect_callback_def find_client_def)
  next
    case (Some ids)
    hence i: "ids \<noteq> []" "set ids = {hid. lease_of (sys_server s) v hid \<noteq> None}"
      using c [unfolded clients_ok_def, rule_format, of v] by auto
    hence "\<exists>hid. lease_of (sys_server s) v hid \<noteq> None"
      by (metis (mono_tags) list.set_sel(1) mem_Collect_eq)
    thus ?thesis using Some i(1)
      by (simp add: sync_server_disconnect_callback_def find_client_def asserting_def)
  qed
qed

theorem sync_disconnect_exact_witness:
  "\<exists>s. sync_reachable s \<and> sync_server_disconnect_callback (sys_server s) 1 = Fatal \<and>
     (\<exists>hid. lease_of (sys_server s) 1 hid \<noteq> None)"
proof -
  have "in_run contended_run (\<lambda>s. lease_of (sys_server s) 1 5 \<noteq> None)" by code_simp
  then obtain s where s: "sync_reachable s" "lease_of (sys_server s) 1 5 \<noteq> None" by (rule in_runE)
  have e: "\<exists>hid. lease_of (sys_server s) 1 hid \<noteq> None" using s(2) by blast
  show ?thesis using s(1) e sync_disconnect_exact [OF s(1), of 1, unfolded if_P [OF e]] by blast
qed

text \<open>
  C35: The states of handles and leases are as the comments of the structures say. The current
  state of a handle is not \<open>SYNC_STATE_NONE\<close> and at most that of the lease; a state requested by the
  client is above the current one, a state requested by the server below it; a handle that
  is not open is invalid; and there is a lease for every handle in a state other than
  invalid.
\<close>

theorem sync_states_typed:
  assumes "sync_reachable s" "sys_clients s v hid = Some h"
  shows "sh_cur h \<noteq> SYNC_STATE_NONE \<and>
    (sh_client_req h = SYNC_STATE_NONE \<or> sh_cur h < sh_client_req h) \<and>
    (sh_server_req h = SYNC_STATE_NONE \<or> sh_server_req h < sh_cur h) \<and>
    (sh_phase h = SYNC_PHASE_OPEN \<or> sh_cur h = SYNC_STATE_INVALID) \<and>
    (case lease_of (sys_server s) v hid of
       None \<Rightarrow> sh_cur h = SYNC_STATE_INVALID
     | Some l \<Rightarrow> sh_cur h \<le> lease_cur l \<and> lease_client l = v \<and> lease_ok l)"
proof -
  have i: "sync_inv s" by (rule sync_reachable_inv [OF assms(1)])
  have lk: "sys_link s v hid" by (rule sync_inv_links(1) [OF i])
  have ok: "handle_ok h" using lk unfolding assms(2) by (rule link_SomeE)
  have "leases_ok (srv_leases (old_handle (sys_server s) hid))"
    by (rule handles_ok_old) (use i in \<open>simp add: sync_inv_def\<close>)
  hence l: "lease_client l = v \<and> lease_ok l" if "lease_of (sys_server s) v hid = Some l" for l
    using that lease_in_Some by (auto simp: lease_of_old leases_ok_def)
  have "case lease_of (sys_server s) v hid of
       None \<Rightarrow> sh_cur h = SYNC_STATE_INVALID
     | Some l \<Rightarrow> sh_cur h \<le> lease_cur l \<and> lease_client l = v \<and> lease_ok l"
    using link_cur_le [OF lk [unfolded assms(2)]] l by (simp split: option.splits)
  thus ?thesis using ok by (simp add: handle_ok_def disj_commute) blast
qed

theorem sync_states_typed_witness:
  "\<exists>s h. sync_reachable s \<and> sys_clients s 1 5 = Some h \<and> sh_cur h = SYNC_STATE_EXCLUSIVE \<and>
     sh_server_req h = SYNC_STATE_INVALID \<and> lease_of (sys_server s) 1 5 \<noteq> None"
proof -
  have "in_run contended_run (\<lambda>s. map_option sh_cur (sys_clients s 1 5) = Some SYNC_STATE_EXCLUSIVE \<and>
    map_option sh_server_req (sys_clients s 1 5) = Some SYNC_STATE_INVALID)" by code_simp
  then obtain s where s: "sync_reachable s"
    "map_option sh_cur (sys_clients s 1 5) = Some SYNC_STATE_EXCLUSIVE"
    "map_option sh_server_req (sys_clients s 1 5) = Some SYNC_STATE_INVALID" by (rule in_runE) simp
  then obtain h where h: "sys_clients s 1 5 = Some h" "sh_cur h = SYNC_STATE_EXCLUSIVE"
    "sh_server_req h = SYNC_STATE_INVALID" by auto
  show ?thesis using sync_states_typed [OF s(1) h(1)] h s(1) by (auto split: option.splits)
qed

text \<open>The identifier of a handle is the process id and the counter side by side.\<close>

lemma sync_new_id_value:
  assumes "sync_new_id pid c = Ok (hid, c')"
  shows "unat hid = unat pid * 2 ^ 32 + unat c" "pid \<noteq> 0" "unat c' = unat c + 1"
proof -
  have h: "hid = push_bit 32 (ucast pid) + ucast c" "pid \<noteq> 0" "c' = c + 1" "c + 1 \<noteq> 0"
    using assms by (auto simp: sync_new_id_def asserting_Ok Let_def split: if_splits)
  have b: "unat pid < 2 ^ 32" "unat c < 2 ^ 32"
    using unsigned_less [of pid] unsigned_less [of c] by simp_all
  have u: "unat (ucast x :: u64) = unat x" for x :: u32
  proof -
    have "unat x < 2 ^ 32" using unsigned_less [of x] by simp
    hence "unat x < 2 ^ 64" by simp
    thus ?thesis by (simp add: unsigned_ucast_eq take_bit_nat_eq_self)
  qed
  have p: "unat (push_bit 32 (ucast pid) :: u64) = unat pid * 2 ^ 32"
    using b(1) by (simp add: push_bit_eq_mult unat_word_ariths u)
  show "unat hid = unat pid * 2 ^ 32 + unat c"
    unfolding h(1) using b by (simp add: unat_word_ariths p u)
  show "pid \<noteq> 0" by (rule h(2))
  have e: "unat (c + 1) = (unat c + 1) mod 2 ^ 32" by (simp add: unat_word_ariths)
  have "unat (c + 1) \<noteq> 0" using h(4) by (simp add: unat_eq_zero)
  hence "unat c + 1 \<noteq> 2 ^ 32" using e by (metis mod_self)
  thus "unat c' = unat c + 1" unfolding h(3) e using b(2) by simp
qed

text \<open>
  C37: Handle ids are globally unique. \<open>sync_new_id\<close> gives different ids in different
  processes and for different values of the counter, never 0 (which stands for no id), and the
  counter grows by one without wrapping around: on a wrap-around the process exits.
\<close>

theorem sync_new_id_unique:
  assumes "sync_new_id pid c = Ok (hid, c')" "sync_new_id pid' d = Ok (hid', d')"
  shows "hid \<noteq> 0 \<and> unat c' = unat c + 1 \<and> (hid = hid' \<longleftrightarrow> pid = pid' \<and> c = d)"
proof -
  note v = sync_new_id_value [OF assms(1)] and w = sync_new_id_value [OF assms(2)]
  have "unat pid \<noteq> 0" using v(2) by (simp add: unat_eq_zero)
  hence "unat hid \<noteq> 0" using v(1) by simp
  hence n: "hid \<noteq> 0" by auto
  have b: "unat c < 2 ^ 32" "unat d < 2 ^ 32"
    using unsigned_less [of c] unsigned_less [of d] by simp_all
  have "pid = pid' \<and> c = d" if "hid = hid'"
  proof -
    have e: "unat pid * 2 ^ 32 + unat c = unat pid' * 2 ^ 32 + unat d" using v(1) w(1) that by simp
    hence "unat pid = unat pid'" "unat c = unat d"
      using b by (metis (no_types, lifting) div_mult_self3 mod_mult_self3 mod_less div_less add_0_right
          power_not_zero zero_neq_numeral)+
    thus ?thesis by (simp add: word_unat_eq_iff)
  qed
  thus ?thesis using n v(3) assms by auto
qed

theorem sync_new_id_unique_witness:
  "\<exists>i j. sync_new_id 2 1 = Ok (i, 2) \<and> sync_new_id 3 1 = Ok (j, 2) \<and> i \<noteq> j"
proof -
  have i: "sync_new_id 2 1 = Ok (0x200000001, 2)" and j: "sync_new_id 3 1 = Ok (0x300000001, 2)"
    by (simp_all add: sync_new_id_def asserting_def push_bit_eq_mult)
  show ?thesis using sync_new_id_unique [OF i j] i j by simp
qed

end
