(* ===== verification/Path_Utils.thy ===== *)
theory Path_Utils
  imports Prelude
begin

text \<open>
  Normalisation of paths: \<^verbatim>\<open>common/src/path_utils.c\<close>. A C string is the list of its characters
  before the terminating zero; a pointer into a string is the rest of the string from there.
  The output buffer is the list of the characters written to it, with its size as a number.
\<close>

section \<open>The functions\<close>

abbreviation slash :: char where "slash \<equiv> CHR ''/''"

fun find_next_slash :: "string \<Rightarrow> string" where
  "find_next_slash [] = []"
| "find_next_slash (c # path) = (if c \<noteq> slash then find_next_slash path else c # path)"

text \<open>The backward loop of \<open>find_prev_slash_offset\<close>.\<close>

fun prev_slash_loop :: "string \<Rightarrow> nat \<Rightarrow> nat" where
  "prev_slash_loop path 0 = 0"
| "prev_slash_loop path (Suc off) =
     (if path ! Suc off \<noteq> slash then prev_slash_loop path off else Suc off)"

definition find_prev_slash_offset :: "string \<Rightarrow> nat \<Rightarrow> bool \<times> nat" where
  "find_prev_slash_offset path offset =
     (if offset = 0 then (False, offset)
      else let off = offset - 1;
               off = (if off \<noteq> 0 \<and> path ! off = slash then off - 1 else off);
               off = prev_slash_loop path off
           in (path ! off = slash, off))"

text \<open>
  The variables of \<open>get_norm_path\<close>: the characters before \<open>buf\<close>, which are never taken back
  (their number is \<open>ret_size\<close>), the \<open>offset\<close> characters at \<open>buf\<close>, the bytes left from \<open>buf\<close> on, and
  \<open>need_slash\<close>.
\<close>

record norm_state =
  norm_fixed :: string
  norm_buf :: string
  norm_size :: nat
  need_slash :: bool

definition slash_if :: "bool \<Rightarrow> string" where
  "slash_if b = (if b then [slash] else [])"

text \<open>The body of the loop for the token before the next slash; \<open>None\<close> is the return of false.\<close>

definition norm_token :: "bool \<Rightarrow> string \<Rightarrow> norm_state \<Rightarrow> norm_state option" where
  "norm_token is_absolute_path tok st =
     (let need = length (slash_if (need_slash st)) in
      if tok = ''..'' then
        (if length (norm_buf st) \<noteq> 0 then
           (let (found, off) = find_prev_slash_offset (norm_buf st) (length (norm_buf st))
            in Some (st\<lparr>norm_buf := take off (norm_buf st), need_slash := found\<rparr>))
         else if \<not> is_absolute_path then
           (if need + 2 > norm_size st then None
            else Some (st\<lparr>norm_fixed := norm_fixed st @ slash_if (need_slash st) @ ''..'',
                          norm_size := norm_size st - (need + 2), need_slash := True\<rparr>))
         else Some st)
      else if tok = [] \<or> tok = ''.'' then Some st
      else if need + length tok > norm_size st - length (norm_buf st) then None
      else Some (st\<lparr>norm_buf := norm_buf st @ slash_if (need_slash st) @ tok,
                    need_slash := True\<rparr>))"

lemma find_next_slash_tl:
  "find_next_slash path \<noteq> [] \<Longrightarrow> length (tl (find_next_slash path)) < length path"
  by (induction path) (auto split: if_splits)

function norm_loop :: "bool \<Rightarrow> string \<Rightarrow> norm_state \<Rightarrow> norm_state option" where
  "norm_loop is_absolute_path path st =
     (let rest = find_next_slash path;
          tok = take (length path - length rest) path
      in case norm_token is_absolute_path tok st of
           None \<Rightarrow> None
         | Some st' \<Rightarrow>
             if rest = [] then Some st' else norm_loop is_absolute_path (tl rest) st')"
  by pat_completeness auto
termination
proof (relation "measure (\<lambda>(b, path, st). length path)", goal_cases)
  case (2 b path st rest tok st')
  thus ?case using find_next_slash_tl [of path] by simp
qed simp

declare norm_loop.simps [simp del]

text \<open>The results: false, or true with the string and the new \<open>*inout_size\<close>.\<close>

datatype path_result = Path_False | Path_True string nat | Path_Assertion_Failed

definition get_norm_path :: "string \<Rightarrow> nat \<Rightarrow> path_result" where
  "get_norm_path path inout_size =
     (let path_size = length path + 1 in
      if inout_size = 0 then Path_False
      else let size = inout_size - 1;
               is_absolute_path = (case path of [] \<Rightarrow> False | c # _ \<Rightarrow> c = slash)
        in if is_absolute_path \<and> size < 1 then Path_False
           else (case norm_loop is_absolute_path
                        (if is_absolute_path then tl path else path)
                        \<lparr>norm_fixed = slash_if is_absolute_path, norm_buf = [],
                         norm_size = (if is_absolute_path then size - 1 else size),
                         need_slash = False\<rparr> of
               None \<Rightarrow> Path_False
             | Some st \<Rightarrow>
                 let new_size = length (norm_fixed st) + length (norm_buf st) + 1
                 in if new_size \<le> path_size
                    then Path_True (norm_fixed st @ norm_buf st) new_size
                    else Path_Assertion_Failed))"

text \<open>\<open>get_base_name\<close> with arguments that are not \<open>NULL\<close>; its loop skips to the last token.\<close>

function base_name_loop :: "string \<Rightarrow> string" where
  "base_name_loop path =
     (let rest = find_next_slash path
      in if rest = [] then path else base_name_loop (tl rest))"
  by pat_completeness auto
termination
proof (relation "measure length", goal_cases)
  case (2 path rest)
  thus ?case using find_next_slash_tl [of path] by simp
qed simp

declare base_name_loop.simps [simp del]

definition get_base_name :: "string \<Rightarrow> nat \<Rightarrow> path_result" where
  "get_base_name path inout_size =
     (let base = base_name_loop path; result = length base
      in if result + 1 > inout_size then Path_False else Path_True base (result + 1))"

definition is_dot_or_dotdot :: "string \<Rightarrow> bool" where
  "is_dot_or_dotdot name \<longleftrightarrow> name = ''.'' \<or> name = ''..''"

end
