(* ===== verification/Path_Norm.thy ===== *)
theory Path_Norm
  imports Path_Utils
begin

text \<open>
  What \<open>get_norm_path\<close> computes. The specification works on the list of the tokens between the
  slashes and keeps a stack: a token is pushed, \<open>..\<close> pops one or, at the bottom of the stack of
  a relative path, is counted. The theory shows that the loop over the buffer refines this.
\<close>

section \<open>The specification\<close>

fun tokens :: "string \<Rightarrow> string list" where
  "tokens [] = [[]]"
| "tokens (c # path) =
     (if c = slash then [] # tokens path
      else (c # hd (tokens path)) # tl (tokens path))"

fun join :: "string list \<Rightarrow> string" where
  "join [] = []"
| "join [t] = t"
| "join (t # u # ts) = t @ slash # join (u # ts)"

definition resolve_token :: "bool \<Rightarrow> nat \<times> string list \<Rightarrow> string \<Rightarrow> nat \<times> string list" where
  "resolve_token absolute s tok =
     (case s of (ups, ts) \<Rightarrow>
        if tok = ''..'' then
          (if ts \<noteq> [] then (ups, butlast ts) else if absolute then (ups, []) else (ups + 1, []))
        else if tok = [] \<or> tok = ''.'' then (ups, ts)
        else (ups, ts @ [tok]))"

definition is_absolute :: "string \<Rightarrow> bool" where
  "is_absolute path \<longleftrightarrow> path \<noteq> [] \<and> hd path = slash"

definition resolve :: "string \<Rightarrow> string list" where
  "resolve path =
     (case foldl (resolve_token (is_absolute path)) (0, []) (tokens path) of
        (ups, ts) \<Rightarrow> replicate ups ''..'' @ ts)"

definition norm_path :: "string \<Rightarrow> string" where
  "norm_path path = slash_if (is_absolute path) @ join (resolve path)"

section \<open>Tokens\<close>

lemma tokens_not_Nil [simp]: "tokens path \<noteq> []"
  by (cases path) auto

lemma tokens_step:
  "tokens path =
     (let rest = find_next_slash path; tok = take (length path - length rest) path
      in tok # (if rest = [] then [] else tokens (tl rest)))"
proof (induction path)
  case (Cons c path)
  have "length (find_next_slash path) \<le> length path" by (induction path) auto
  thus ?case using Cons by (simp add: Let_def Suc_diff_le)
qed simp

lemma join_append:
  "ts \<noteq> [] \<Longrightarrow> us \<noteq> [] \<Longrightarrow> join (ts @ us) = join ts @ slash # join us"
proof (induction ts rule: join.induct)
  case (2 t)
  thus ?case by (cases us) auto
qed auto

lemma join_snoc: "join (ts @ [t]) = (if ts = [] then t else join ts @ slash # t)"
  using join_append [of ts "[t]"] by simp

lemma join_Nil: "[] \<notin> set ts \<Longrightarrow> join ts = [] \<longleftrightarrow> ts = []"
  by (induction ts rule: join.induct) auto

section \<open>Going back to the previous slash\<close>

lemma prev_slash_loop_stop:
  "slash \<notin> set tok \<Longrightarrow> k \<le> length tok \<Longrightarrow>
     prev_slash_loop (pre @ slash # tok) (length pre + k) = length pre"
proof (induction k)
  case 0
  show ?case by (cases pre) (simp_all add: nth_append)
next
  case (Suc k)
  have "(pre @ slash # tok) ! Suc (length pre + k) = tok ! k"
    using nth_append_length_plus [of pre "slash # tok" "Suc k"] by simp
  moreover have "tok ! k \<noteq> slash" using Suc.prems by (metis Suc_le_lessD nth_mem)
  ultimately show ?case using Suc by simp
qed

lemma prev_slash_loop_first:
  "slash \<notin> set tok \<Longrightarrow> k < length tok \<Longrightarrow> prev_slash_loop tok k = 0"
proof (induction k)
  case (Suc k)
  have "tok ! Suc k \<noteq> slash" using Suc.prems by (metis nth_mem)
  thus ?case using Suc by simp
qed simp

lemma find_prev_slash_offset_token:
  assumes "tok \<noteq> []" "slash \<notin> set tok"
  shows "find_prev_slash_offset (pre @ slash # tok) (length (pre @ slash # tok)) = (True, length pre)"
    "find_prev_slash_offset tok (length tok) = (False, 0)"
proof -
  obtain n where n: "length tok = Suc n" using assms(1) by (cases tok) auto
  have last: "tok ! n \<noteq> slash" using assms(2) n by (metis lessI nth_mem)
  have "(pre @ slash # tok) ! (length pre + Suc n) = tok ! n"
    using nth_append_length_plus [of pre "slash # tok" "Suc n"] by simp
  moreover have "prev_slash_loop (pre @ slash # tok) (length pre + Suc n) = length pre"
    by (rule prev_slash_loop_stop) (use assms n in simp_all)
  ultimately show "find_prev_slash_offset (pre @ slash # tok) (length (pre @ slash # tok)) =
      (True, length pre)"
    using n last by (simp add: find_prev_slash_offset_def Let_def)
  have "tok ! 0 \<noteq> slash" using assms by (cases tok) auto
  thus "find_prev_slash_offset tok (length tok) = (False, 0)"
    using n last prev_slash_loop_first [of tok n] assms(2)
    by (auto simp: find_prev_slash_offset_def Let_def)
qed

section \<open>The loop refines the specification\<close>

definition norm_rel :: "bool \<Rightarrow> nat \<times> string list \<Rightarrow> norm_state \<Rightarrow> bool" where
  "norm_rel a s st \<longleftrightarrow>
     (case s of (ups, ts) \<Rightarrow>
        (\<forall>t\<in>set ts. t \<noteq> [] \<and> slash \<notin> set t) \<and> (a \<longrightarrow> ups = 0) \<and>
        norm_fixed st = (if a then [slash] else join (replicate ups ''..'')) \<and>
        norm_buf st = slash_if (ups \<noteq> 0 \<and> ts \<noteq> []) @ join ts \<and>
        (need_slash st \<longleftrightarrow> ups \<noteq> 0 \<or> ts \<noteq> []))"

lemma join_replicate: "join (replicate (Suc n) ''..'') =
    join (replicate n ''..'') @ slash_if (n \<noteq> 0) @ ''..''"
  using join_snoc [of "replicate n ''..''" "''..''"]
  by (simp add: replicate_append_same [symmetric] slash_if_def)

text \<open>A \<open>..\<close> after a token takes the token back, with the slash before it.\<close>

lemma norm_token_pop:
  assumes r: "norm_rel a (ups, ts @ [t]) st"
  shows "norm_token a ''..'' st = Some (st\<lparr>norm_buf := slash_if (ups \<noteq> 0 \<and> ts \<noteq> []) @ join ts,
    need_slash := ups \<noteq> 0 \<or> ts \<noteq> []\<rparr>)"
proof -
  have t: "t \<noteq> []" "slash \<notin> set t" using r by (auto simp: norm_rel_def)
  have b: "norm_buf st = slash_if (ups \<noteq> 0) @ join (ts @ [t])" using r by (simp add: norm_rel_def)
  have n: "length (norm_buf st) \<noteq> 0" using t b by (auto simp: join_snoc)
  note f = find_prev_slash_offset_token [OF t]
  show ?thesis
  proof (cases "ups \<noteq> 0 \<or> ts \<noteq> []")
    case True
    let ?pre = "slash_if (ups \<noteq> 0 \<and> ts \<noteq> []) @ join ts"
    have e: "norm_buf st = ?pre @ slash # t"
      using True unfolding b by (auto simp: join_snoc slash_if_def)
    show ?thesis using f(1) [of ?pre] True n unfolding norm_token_def e by simp
  next
    case False
    hence "norm_buf st = t" unfolding b by (simp add: slash_if_def)
    thus ?thesis using f(2) False n by (simp add: norm_token_def slash_if_def)
  qed
qed

lemma norm_token_rel:
  assumes r: "norm_rel a s st" and tok: "slash \<notin> set tok" and ok: "norm_token a tok st = Some st'"
  shows "norm_rel a (resolve_token a s tok) st'"
proof -
  obtain ups ts where s: "s = (ups, ts)" by (cases s)
  have ne: "[] \<notin> set ts" using r s by (auto simp: norm_rel_def)
  consider (pop) t us where "tok = ''..''" "ts = us @ [t]" | (up) "tok = ''..''" "ts = []"
    | (skip) "tok = [] \<or> tok = ''.''" | (push) "tok \<noteq> ''..''" "tok \<noteq> []" "tok \<noteq> ''.''"
    by (cases ts rule: rev_cases) blast+
  thus ?thesis
  proof cases
    case pop
    have r': "norm_rel a (ups, us @ [t]) st" using r s pop(2) by simp
    have "st' = st\<lparr>norm_buf := slash_if (ups \<noteq> 0 \<and> us \<noteq> []) @ join us,
        need_slash := ups \<noteq> 0 \<or> us \<noteq> []\<rparr>"
      using norm_token_pop [OF r'] ok pop(1) by simp
    moreover have "resolve_token a s tok = (ups, us)" using s pop by (simp add: resolve_token_def)
    ultimately show ?thesis using r' by (simp add: norm_rel_def)
  next
    case up
    have b: "norm_buf st = []" using r s up by (simp add: norm_rel_def slash_if_def)
    show ?thesis
    proof (cases a)
      case True
      thus ?thesis using r s ok up b by (simp add: norm_token_def resolve_token_def)
    next
      case False
      have "norm_fixed st' = norm_fixed st @ slash_if (need_slash st) @ ''..''" "norm_buf st' = []"
        "need_slash st'" using False ok up b by (auto simp: norm_token_def Let_def split: if_splits)
      moreover have "resolve_token a s tok = (Suc ups, [])"
        using False s up by (simp add: resolve_token_def)
      ultimately show ?thesis using False r s up join_replicate [of ups]
        by (simp add: norm_rel_def slash_if_def del: replicate.simps)
    qed
  next
    case skip
    hence "tok \<noteq> ''..''" by auto
    hence "resolve_token a s tok = s" "st' = st"
      using skip s ok unfolding resolve_token_def norm_token_def Let_def by simp_all
    thus ?thesis using r by simp
  next
    case push
    hence "norm_buf st' = norm_buf st @ slash_if (need_slash st) @ tok" "need_slash st'"
      "norm_fixed st' = norm_fixed st"
      using ok by (auto simp: norm_token_def Let_def split: if_splits)
    moreover have "resolve_token a s tok = (ups, ts @ [tok])"
      using push s by (simp add: resolve_token_def)
    ultimately show ?thesis using push(2) r s tok by (auto simp: norm_rel_def join_snoc slash_if_def)
  qed
qed

lemma take_next_slash: "slash \<notin> set (take (length path - length (find_next_slash path)) path)"
proof (induction path)
  case (Cons c path)
  have "length (find_next_slash path) \<le> length path" by (induction path) auto
  thus ?case using Cons by (simp add: Suc_diff_le)
qed simp

lemma norm_loop_rel:
  "norm_loop a path st = Some st' \<Longrightarrow> norm_rel a s st \<Longrightarrow>
     norm_rel a (foldl (resolve_token a) s (tokens path)) st'"
proof (induction a path st arbitrary: s rule: norm_loop.induct)
  case (1 a path st)
  let ?rest = "find_next_slash path"
  let ?tok = "take (length path - length ?rest) path"
  obtain st1 where st1: "norm_token a ?tok st = Some st1"
    using 1(2) by (subst (asm) norm_loop.simps) (auto simp: Let_def split: option.splits)
  have r: "norm_rel a (resolve_token a s ?tok) st1"
    by (rule norm_token_rel [OF 1(3) take_next_slash st1])
  show ?case
  proof (cases "?rest = []")
    case True
    thus ?thesis using 1(2) st1 r tokens_step [of path]
      by (subst (asm) norm_loop.simps) (simp add: Let_def)
  next
    case False
    hence "norm_loop a (tl ?rest) st1 = Some st'"
      using 1(2) st1 by (subst (asm) norm_loop.simps) (simp add: Let_def)
    from 1(1) [OF refl refl st1 False this r] show ?thesis
      using False tokens_step [of path] by (simp add: Let_def)
  qed
qed

section \<open>The size of the buffer\<close>

definition weight :: "norm_state \<Rightarrow> nat" where
  "weight st = length (norm_fixed st) + length (norm_buf st) + length (slash_if (need_slash st))"

definition room :: "norm_state \<Rightarrow> nat" where
  "room st = norm_size st + length (norm_fixed st)"

lemma prev_slash_loop_le: "prev_slash_loop path k \<le> k"
  by (induction k) auto

lemma find_prev_slash_offset_less:
  "find_prev_slash_offset path n = (b, off) \<Longrightarrow> n \<noteq> 0 \<Longrightarrow> off < n"
  using prev_slash_loop_le [of path "n - 1"] prev_slash_loop_le [of path "n - 1 - 1"]
  by (auto simp: find_prev_slash_offset_def Let_def split: if_splits)

lemma norm_token_size:
  assumes "norm_token a tok st = Some st'"
  shows "length (norm_fixed st' @ norm_buf st') \<le> weight st + length tok"
    "weight st' \<le> weight st + length tok + 1" "room st' = room st"
    "length (norm_buf st) \<le> norm_size st \<Longrightarrow> length (norm_buf st') \<le> norm_size st'"
proof -
  obtain b off where f: "find_prev_slash_offset (norm_buf st) (length (norm_buf st)) = (b, off)"
    by (cases "find_prev_slash_offset (norm_buf st) (length (norm_buf st))")
  note l = find_prev_slash_offset_less [OF f]
  show "length (norm_fixed st' @ norm_buf st') \<le> weight st + length tok"
    using assms l by (auto simp: norm_token_def Let_def f weight_def split: if_splits)
  show "weight st' \<le> weight st + length tok + 1"
    using assms l by (auto simp: norm_token_def Let_def f weight_def slash_if_def split: if_splits)
  show "room st' = room st"
    using assms by (auto simp: norm_token_def Let_def f room_def slash_if_def split: if_splits)
  show "length (norm_buf st') \<le> norm_size st'" if "length (norm_buf st) \<le> norm_size st"
    using assms that l by (auto simp: norm_token_def Let_def f slash_if_def split: if_splits)
qed

lemma norm_token_fits:
  assumes "weight st + length tok \<le> room st"
  shows "norm_token a tok st \<noteq> None"
  using assms by (auto simp: norm_token_def Let_def weight_def room_def split: prod.split if_splits)

lemma next_slash_split:
  "length path = length (take (length path - length (find_next_slash path)) path)
     + length (find_next_slash path)"
proof -
  have "length (find_next_slash path) \<le> length path" by (induction path) auto
  thus ?thesis by simp
qed

lemma norm_loop_size:
  "norm_loop a path st = Some st' \<Longrightarrow>
     length (norm_fixed st' @ norm_buf st') \<le> weight st + length path \<and> room st' = room st \<and>
     (length (norm_buf st) \<le> norm_size st \<longrightarrow> length (norm_buf st') \<le> norm_size st')"
proof (induction a path st rule: norm_loop.induct)
  case (1 a path st)
  let ?rest = "find_next_slash path"
  let ?tok = "take (length path - length ?rest) path"
  obtain st1 where st1: "norm_token a ?tok st = Some st1"
    using 1(2) by (subst (asm) norm_loop.simps) (auto simp: Let_def split: option.splits)
  note z = norm_token_size [OF st1] and l = next_slash_split [of path]
  show ?case
  proof (cases "?rest = []")
    case True
    hence "st1 = st'" using 1(2) st1 by (subst (asm) norm_loop.simps) (simp add: Let_def)
    thus ?thesis using z l True by auto
  next
    case False
    hence n: "norm_loop a (tl ?rest) st1 = Some st'"
      using 1(2) st1 by (subst (asm) norm_loop.simps) (simp add: Let_def)
    have "length ?rest = Suc (length (tl ?rest))" using False by (cases ?rest) auto
    thus ?thesis using 1(1) [OF refl refl st1 False n] z l by linarith
  qed
qed

lemma norm_loop_fits:
  "weight st + length path \<le> room st \<Longrightarrow> norm_loop a path st \<noteq> None"
proof (induction a path st rule: norm_loop.induct)
  case (1 a path st)
  let ?rest = "find_next_slash path"
  let ?tok = "take (length path - length ?rest) path"
  note l = next_slash_split [of path]
  have "weight st + length ?tok \<le> room st" using 1(2) l by linarith
  then obtain st1 where st1: "norm_token a ?tok st = Some st1" using norm_token_fits by blast
  note z = norm_token_size(2,3) [OF st1]
  show ?case
  proof (cases "?rest = []")
    case True
    thus ?thesis using st1 by (subst norm_loop.simps) (simp add: Let_def)
  next
    case False
    have "length ?rest = Suc (length (tl ?rest))" using False by (cases ?rest) auto
    hence "weight st1 + length (tl ?rest) \<le> room st1" using 1(2) z l by linarith
    hence "norm_loop a (tl ?rest) st1 \<noteq> None" by (rule 1(1) [OF refl refl st1 False])
    thus ?thesis using st1 False by (subst norm_loop.simps) (simp add: Let_def)
  qed
qed

section \<open>get_norm_path\<close>

abbreviation norm_start :: "string \<Rightarrow> nat \<Rightarrow> norm_state" where
  "norm_start path sz \<equiv>
     \<lparr>norm_fixed = slash_if (is_absolute path), norm_buf = [],
      norm_size = (if is_absolute path then sz - 1 - 1 else sz - 1), need_slash = False\<rparr>"

abbreviation norm_rest :: "string \<Rightarrow> string" where
  "norm_rest path \<equiv> (if is_absolute path then tl path else path)"

lemma get_norm_path_unfold:
  "get_norm_path path sz =
     (if sz = 0 \<or> is_absolute path \<and> sz - 1 < 1 then Path_False
      else case norm_loop (is_absolute path) (norm_rest path) (norm_start path sz) of
          None \<Rightarrow> Path_False
        | Some st \<Rightarrow>
            if length (norm_fixed st @ norm_buf st) \<le> length path
            then Path_True (norm_fixed st @ norm_buf st) (length (norm_fixed st @ norm_buf st) + 1)
            else Path_Assertion_Failed)"
  unfolding get_norm_path_def is_absolute_def
  by (cases path) (simp_all add: Let_def split: option.split)

lemma norm_loop_result:
  assumes "norm_loop (is_absolute path) (norm_rest path) (norm_start path sz) = Some st"
  shows "norm_fixed st @ norm_buf st = norm_path path"
proof -
  let ?a = "is_absolute path"
  have "norm_rel ?a (0, []) (norm_start path sz)"
    by (simp add: norm_rel_def slash_if_def)
  from norm_loop_rel [OF assms this]
  have r: "norm_rel ?a (foldl (resolve_token ?a) (0, []) (tokens (norm_rest path))) st" .
  have "foldl (resolve_token ?a) (0, []) (tokens (norm_rest path)) =
      foldl (resolve_token ?a) (0, []) (tokens path)"
    by (cases path) (auto simp: is_absolute_def resolve_token_def)
  with r obtain ups ts where f: "foldl (resolve_token ?a) (0, []) (tokens path) = (ups, ts)"
    and r: "norm_rel ?a (ups, ts) st" by (cases "foldl (resolve_token ?a) (0, []) (tokens path)") auto
  have "join (replicate ups ''..'' @ ts) =
      (if ups = 0 \<or> ts = [] then join (replicate ups ''..'') @ join ts
       else join (replicate ups ''..'') @ slash # join ts)"
    using join_append [of "replicate ups ''..''" ts] by (cases ups) auto
  thus ?thesis using r unfolding norm_path_def resolve_def f
    by (auto simp: norm_rel_def slash_if_def split: if_splits)
qed

lemma get_norm_path_cases:
  "get_norm_path path sz = Path_False \<and> sz \<le> length path \<or>
   get_norm_path path sz = Path_True (norm_path path) (length (norm_path path) + 1) \<and>
   length (norm_path path) < sz \<and> length (norm_path path) \<le> length path"
proof (cases "sz = 0 \<or> is_absolute path \<and> sz - 1 < 1")
  case True
  hence "sz \<le> length path" by (cases path) (auto simp: is_absolute_def)
  thus ?thesis using True unfolding get_norm_path_unfold by simp
next
  case False
  let ?st = "norm_start path sz"
  have w: "weight ?st + length (norm_rest path) = length path"
    by (cases path) (auto simp: weight_def slash_if_def is_absolute_def)
  have m: "room ?st = sz - 1" using False by (auto simp: room_def slash_if_def)
  show ?thesis
  proof (cases "norm_loop (is_absolute path) (norm_rest path) ?st")
    case None
    hence "\<not> length path \<le> sz - 1" using norm_loop_fits [of ?st "norm_rest path"] w m by metis
    thus ?thesis using False None unfolding get_norm_path_unfold by simp
  next
    case (Some st)
    note z = norm_loop_size [OF Some] and e = norm_loop_result [OF Some]
    have "length (norm_path path) \<le> length path" using z w e by metis
    moreover have "length (norm_path path) \<le> room st"
      using z unfolding e [symmetric] room_def by auto
    ultimately show ?thesis using False Some z m e unfolding get_norm_path_unfold by auto
  qed
qed

section \<open>Normal paths\<close>

definition plain :: "string \<Rightarrow> bool" where
  "plain t \<longleftrightarrow> t \<noteq> [] \<and> t \<noteq> ''.'' \<and> t \<noteq> ''..'' \<and> slash \<notin> set t"

lemma tokens_no_slash: "t \<in> set (tokens path) \<Longrightarrow> slash \<notin> set t"
proof (induction path arbitrary: t)
  case (Cons c path)
  obtain u us where u: "tokens path = u # us" by (cases "tokens path") auto
  show ?case using Cons.prems Cons.IH [of u] Cons.IH [of t] u by (auto split: if_splits)
qed simp

lemma resolve_tokens_plain:
  assumes "foldl (resolve_token a) (n, ts) toks = (ups, us)"
    and "\<forall>t\<in>set ts. plain t" "\<forall>t\<in>set toks. slash \<notin> set t" "a \<longrightarrow> n = 0"
  shows "(\<forall>t\<in>set us. plain t) \<and> (a \<longrightarrow> ups = 0)"
  using assms
proof (induction toks arbitrary: n ts)
  case (Cons t toks)
  obtain k vs where v: "resolve_token a (n, ts) t = (k, vs)" by (cases "resolve_token a (n, ts) t")
  have "(\<forall>t\<in>set vs. plain t) \<and> (a \<longrightarrow> k = 0)"
  proof -
    consider "t = ''..''" | "t = [] \<or> t = ''.''" | "plain t"
      using Cons.prems(3) by (auto simp: plain_def)
    thus ?thesis
    proof cases
      case 1
      have "vs = butlast ts \<or> vs = []" "k = n \<or> \<not> a"
        using v unfolding resolve_token_def 1 by (auto split: if_splits)
      thus ?thesis using Cons.prems(2,4) in_set_butlastD [of _ ts] by auto
    next
      case 2
      hence "resolve_token a (n, ts) t = (n, ts)" unfolding resolve_token_def by auto
      thus ?thesis using v Cons.prems(2,4) by simp
    next
      case 3
      hence "resolve_token a (n, ts) t = (n, ts @ [t])" by (simp add: resolve_token_def plain_def)
      thus ?thesis using v Cons.prems(2,4) 3 by auto
    qed
  qed
  thus ?case using Cons.IH [of k vs] Cons.prems(1,3) v by simp
qed simp

lemma resolve_plain: "foldl (resolve_token a) (n, ts) us = (n, ts @ us)" if "\<forall>t\<in>set us. plain t"
  using that by (induction us arbitrary: ts) (simp_all add: resolve_token_def plain_def)

lemma resolve_ups: "foldl (resolve_token False) (n, []) (replicate k ''..'') = (n + k, [])"
  by (induction k arbitrary: n) (simp_all add: resolve_token_def)

lemma tokens_plain: "slash \<notin> set t \<Longrightarrow> tokens t = [t]"
  by (induction t) auto

lemma tokens_append: "slash \<notin> set t \<Longrightarrow> tokens (t @ slash # path) = t # tokens path"
  by (induction t) auto

lemma tokens_join: "ts \<noteq> [] \<Longrightarrow> \<forall>t\<in>set ts. slash \<notin> set t \<Longrightarrow> tokens (join ts) = ts"
  by (induction ts rule: join.induct) (simp_all add: tokens_plain tokens_append)

lemma resolveE:
  obtains ups us where "foldl (resolve_token (is_absolute path)) (0, []) (tokens path) = (ups, us)"
    "resolve path = replicate ups ''..'' @ us" "\<forall>t\<in>set us. plain t" "is_absolute path \<longrightarrow> ups = 0"
proof -
  obtain ups us where f: "foldl (resolve_token (is_absolute path)) (0, []) (tokens path) = (ups, us)"
    by (cases "foldl (resolve_token (is_absolute path)) (0, []) (tokens path)")
  have "(\<forall>t\<in>set us. plain t) \<and> (is_absolute path \<longrightarrow> ups = 0)"
    by (rule resolve_tokens_plain [OF f]) (use tokens_no_slash in auto)
  thus ?thesis using that f by (simp add: resolve_def)
qed

lemma resolve_no_slash: "t \<in> set (resolve path) \<Longrightarrow> t \<noteq> [] \<and> slash \<notin> set t"
proof -
  assume t: "t \<in> set (resolve path)"
  obtain ups us where u: "resolve path = replicate ups ''..'' @ us" "\<forall>t\<in>set us. plain t"
    by (rule resolveE)
  have "t = ''..'' \<or> plain t" using t u by (auto split: if_splits)
  thus ?thesis by (auto simp: plain_def)
qed

lemma join_head: "ts \<noteq> [] \<Longrightarrow> hd ts \<noteq> [] \<Longrightarrow> join ts \<noteq> [] \<and> hd (join ts) = hd (hd ts)"
  by (induction ts rule: join.induct) auto

lemma norm_path_absolute: "is_absolute (norm_path path) = is_absolute path"
proof (cases "is_absolute path \<or> resolve path = []")
  case True
  thus ?thesis by (auto simp: norm_path_def slash_if_def is_absolute_def)
next
  case False
  hence h: "hd (resolve path) \<noteq> [] \<and> slash \<notin> set (hd (resolve path))"
    using resolve_no_slash [OF list.set_sel(1), of path] by simp
  hence "hd (hd (resolve path)) \<noteq> slash" by (metis list.set_sel(1))
  thus ?thesis using False h join_head [of "resolve path"]
    by (simp add: norm_path_def slash_if_def is_absolute_def)
qed

lemma norm_path_tokens:
  "tokens (norm_path path) = (if is_absolute path then [[]] else []) @
     (if resolve path = [] then [[]] else resolve path)"
proof -
  have "\<forall>t\<in>set (resolve path). slash \<notin> set t" using resolve_no_slash by blast
  thus ?thesis using tokens_join [of "resolve path"] by (simp add: norm_path_def slash_if_def)
qed

lemma resolve_norm_path: "resolve (norm_path path) = resolve path"
proof -
  let ?a = "is_absolute path"
  obtain ups us where u: "resolve path = replicate ups ''..'' @ us" "\<forall>t\<in>set us. plain t"
    "?a \<longrightarrow> ups = 0" by (rule resolveE)
  have e: "foldl (resolve_token ?a) (0, []) (replicate ups ''..'' @ us) = (ups, us)"
    using u(3) resolve_ups [of 0 ups] resolve_plain [OF u(2)] by (cases ?a) simp_all
  have n: "resolve_token ?a (0, []) [] = (0, [])" by (simp add: resolve_token_def)
  have "foldl (resolve_token ?a) (0, []) (tokens (norm_path path)) = (ups, us)"
    using e n u(1) unfolding norm_path_tokens by (cases ups; cases us) auto
  thus ?thesis unfolding resolve_def [of "norm_path path"] norm_path_absolute using u(1) by simp
qed

lemma norm_path_idem: "norm_path (norm_path path) = norm_path path"
  unfolding norm_path_def [of "norm_path path"] resolve_norm_path norm_path_absolute
  by (simp add: norm_path_def)

section \<open>get_base_name\<close>

lemma base_name_last: "base_name_loop path = last (tokens path)"
proof (induction path rule: base_name_loop.induct)
  case (1 path)
  show ?case
  proof (cases "find_next_slash path = []")
    case True
    thus ?thesis using tokens_step [of path] by (subst base_name_loop.simps) (simp add: Let_def)
  next
    case False
    thus ?thesis using 1 [OF refl False] tokens_step [of path]
      by (subst base_name_loop.simps) (simp add: Let_def)
  qed
qed

lemma token_length: "t \<in> set (tokens path) \<Longrightarrow> length t \<le> length path"
proof (induction path arbitrary: t)
  case (Cons c path)
  obtain u us where u: "tokens path = u # us" by (cases "tokens path") auto
  show ?case using Cons.prems Cons.IH [of u] Cons.IH [of t] u by (auto split: if_splits)
qed simp

section \<open>The guarantees\<close>

text \<open>
  C39: \<open>get_norm_path\<close> computes the normalised path. It either returns it, with its size and never
  writing more bytes than the buffer has, or returns false because the buffer is smaller than
  the input with its terminating zero. The result is never longer than the input, so the
  assertion at the end does not fail.
\<close>

theorem get_norm_path_exact:
  "get_norm_path path sz = Path_False \<and> sz \<le> length path \<or>
   get_norm_path path sz = Path_True (norm_path path) (length (norm_path path) + 1) \<and>
   length (norm_path path) < sz \<and> length (norm_path path) \<le> length path"
  by (rule get_norm_path_cases)

text \<open>
  C40: The result of \<open>get_norm_path\<close> is in normal form. It consists of tokens that are not empty,
  \<open>.\<close> or \<open>..\<close>, separated by single slashes, except that a relative path may begin with several
  \<open>..\<close>; an absolute path has none, so it does not lead out of the root. Normalising the result
  again, in a buffer of exactly the returned size, gives it back, and \<open>get_base_name\<close> gives its
  last token.
\<close>

theorem get_norm_path_normal:
  assumes "get_norm_path path sz = Path_True out n"
  shows "(\<exists>ups us. out = slash_if (is_absolute path) @ join (replicate ups ''..'' @ us) \<and>
      list_all plain us \<and> (ups = 0 \<or> is_absolute path = False)) \<and>
    get_norm_path out n = Path_True out n \<and>
    get_base_name out n = Path_True (last (tokens out)) (length (last (tokens out)) + 1)"
proof -
  have o: "out = norm_path path" "n = length out + 1"
    using get_norm_path_cases [of path sz] assms by auto
  obtain ups us where u: "resolve path = replicate ups ''..'' @ us" "\<forall>t\<in>set us. plain t"
    "is_absolute path \<longrightarrow> ups = 0" by (rule resolveE)
  have "get_norm_path out n = Path_True out n"
    using get_norm_path_cases [of out n] norm_path_idem [of path] o by auto
  moreover have "get_base_name out n = Path_True (last (tokens out)) (length (last (tokens out)) + 1)"
    using token_length [OF last_in_set, of out] o(2)
    by (simp add: get_base_name_def base_name_last Let_def)
  ultimately show ?thesis using u unfolding o(1) norm_path_def list_all_iff by auto
qed

theorem get_norm_path_normal_witness:
  "get_norm_path ''/../a/../../b'' 20 = Path_True ''/b'' 3 \<and>
   get_norm_path ''/b'' 3 = Path_True ''/b'' 3 \<and> get_base_name ''/b'' 3 = Path_True ''b'' 2"
proof -
  have p: "get_norm_path ''/../a/../../b'' 20 = Path_True ''/b'' 3" by code_simp
  have "last (tokens ''/b'') = ''b''" by simp
  thus ?thesis using p get_norm_path_normal [OF p] by simp
qed

end
