(* ===== verification/Spec2Isabelle.thy ===== *)
theory Spec2Isabelle
  imports Fs_Lock_Table Avl_Tree_Correct Vma_Properties Sync_Properties Path_Norm
begin

text \<open>
  Gramine runs unmodified Linux programs on a library OS (\<^verbatim>\<open>libos/\<close>) above a platform adaptation
  layer (the PAL, \<^verbatim>\<open>pal/\<close>) that calls the host. A program may consist of several processes. One
  of them, the leader, keeps the state that they share; the others ask it by messages. This
  library models five parts of the LibOS and of the common library whose correctness does not
  depend on the host, and proves what they promise to their callers.

  \<^bold>\<open>Conventions.\<close> A C structure is a record, an enumeration a datatype; \<^verbatim>\<open>uint64_t\<close> and other
  integers are words of their width where a wrap-around can matter. Every function that can
  fail has the error in its result, with the sign left out. Calls whose outcome is not up to
  the code are arguments: allocations (and, in the sync engine, sends) are a list of outcomes
  consumed in order, after whose end everything succeeds; results of the PAL, of the manifest
  and of the file systems are parameters. A failed \<^verbatim>\<open>assert\<close> or a \<^verbatim>\<open>FATAL\<close> can be told, so
  that its absence can be proved: in the sync engine, the AVL trees and the path functions it is a
  result of its own; in the bookkeeping of the address space it is a flag of the state or a
  predicate of \<open>Vma_Asserts\<close> and \<open>Vma_Files\<close>; for the file locks the predicate \<open>clear_pid_asserts\<close> is
  the one assertion that the types do not carry. That a lock is held is not asserted. A function
  that takes the lock of its data at the start and releases it at the end is one atomic step. All models can be executed, and every property
  with a hypothesis has an instance that is computed. \<open>Prelude\<close> has the shared types and the
  lemmas on words.

  \<^bold>\<open>File locks\<close> (\<^verbatim>\<open>libos/src/fs/libos_fs_lock.c\<close>). \<open>Fs_Lock\<close> is the model: POSIX and BSD locks of
  a dentry, the loop of \<open>_posix_lock_set\<close> that cuts and merges ranges, pending requests, the
  table of the leader, the calls of other processes, and process exit. \<open>Fs_Lock_Posix\<close> relates
  the list of ranges to the bytes of the file. \<open>Fs_Lock_Requests\<close> proves, in the locale
  \<open>lock_kind\<close>, what the processing of requests needs of a kind of lock, with one interpretation for
  each of the two kinds. \<open>Fs_Lock_Table\<close> has the reachable states of the table and the
  properties: locks that are held never conflict, a call changes exactly the bytes it names,
  the list stays sorted and merged, no request waits that could be granted, \<^verbatim>\<open>F_GETLK\<close> and the
  family of the locks in use predict \<^verbatim>\<open>F_SETLK\<close>, and exit releases everything. The request loop terminates because each round
  removes a request.

  \<^bold>\<open>AVL trees\<close> (\<^verbatim>\<open>common/src/avl_tree.c\<close>). \<open>Avl_Tree\<close> models the nodes with their balance
  factors; a pointer to a node is the subtree with its ancestors, so the walks up the parent
  pointers are recursions over the list of ancestors. \<open>Avl_Tree_Correct\<close> proves balance, order
  and the effect of insertion, deletion, search and iteration on the in-order sequence, and
  that no assertion fails. The locale \<open>ordered_tree\<close> is the contract that users of the trees
  rely on; it is interpreted on the functions of the model.

  \<^bold>\<open>Bookkeeping of the address space\<close> (\<^verbatim>\<open>libos/src/bookkeep/libos_vma.c\<close>). \<open>Vma\<close> models the areas
  and all operations on them over the sorted list of areas; \<open>Vma_State\<close> shows that the list
  operations are those of the AVL tree with the comparison functions of the code. \<open>Vma_Tree\<close>,
  \<open>Vma_Remove\<close>, \<open>Vma_Ops\<close>, \<open>Vma_Search\<close> and \<open>Vma_Protect\<close> prove the invariant (areas disjoint,
  sorted, counted) and the effect of each operation address by address. \<open>Vma_Query\<close>, \<open>Vma_Files\<close>
  and \<open>Vma_Init\<close> have the dumps, \<^verbatim>\<open>madvise\<close>, \<^verbatim>\<open>msync\<close> and reloading of files, and the start with the
  areas that the memory manager of \<^verbatim>\<open>common/include/memmgr.h\<close> takes. \<open>Vma_Asserts\<close> has the
  assertions of the operations, the contracts of their callers, and the histories of calls
  that keep them: exactly one assertion can fail there, in \<open>_vma_bkeep_change\<close>. The
  read loop of \<open>reload_vma\<close>, which may retry for ever, and the loop of \<open>dump_vmas\<close>, which races
  with other threads, take the list of outcomes as fuel; the properties state how many
  outcomes are enough. \<open>Vma_Cache\<close> has the per-thread list of free areas, a tagged pointer
  list that implements the locale \<open>bounded_stack\<close>. The properties are in \<open>Vma_Properties\<close>.

  \<^bold>\<open>The sync engine\<close> (\<^verbatim>\<open>libos/src/sync/\<close>, \<^verbatim>\<open>libos/src/ipc/libos_ipc_sync.c\<close>). Processes share
  handles with data; a handle is invalid, shared or exclusive in each process, and the server
  in the leader grants and revokes these states. \<open>Sync_Server\<close> and \<open>Sync_Client\<close> model the two
  sides, function by function; a function that waits is split at the wait. \<open>Sync_Lease\<close> proves
  what \<open>process_handle\<close> does to the leases of a handle. \<open>Sync_System\<close> composes the server, any
  number of processes and the two message channels of each process into the step relation
  \<open>sync_step\<close>, and states, as the inductive predicate \<open>link\<close>, how a handle, its lease and the
  messages under way belong together. \<open>Sync_Invariant\<close>, \<open>Sync_Correct\<close> and \<open>Sync_Safety\<close> show that
  every step keeps this and that the data is the last written wherever it may be read, unless the
  server has deleted the handle meanwhile (the fields \<open>written\<close> and \<open>forgotten\<close> of the system record
  these and are not part of the code).
  \<open>Sync_Properties\<close> has the properties: mutual exclusion between processes, coherence of the
  data and when it is lost, no failed assertion and no unknown handle on either side, no lost request, the
  settling of the server with the messages it sends; and that two simultaneous upgrades from shared to exclusive mode
  deadlock. Runs are computed by \<open>sync_run\<close>, whose results are reachable states.

  \<^bold>\<open>Path normalisation\<close> (\<^verbatim>\<open>common/src/path_utils.c\<close>). \<open>Path_Utils\<close> models the functions on the output
  buffer; sizes and offsets are natural numbers, as the offset never exceeds the size and a
  string fits into memory. \<open>Path_Norm\<close> specifies normalisation by a stack of tokens and shows that
  \<open>get_norm_path\<close> computes it within the buffer, that the result is in normal form and that
  normalising it again changes nothing.

  \<^bold>\<open>Not modelled.\<close> In the modelled parts: the locks themselves and reference counts of sync
  handles; the free lists of the memory manager and the copying of the first areas off the stack
  in \<open>init_vma\<close> and \<open>alloc_vma\<close>, which are about the representation of C objects; \<open>shutdown_sync_client\<close> is there as the bodies of its two
  loops, for each handle. The rest of the system is not modelled: the system calls, file
  systems, networking, signals, threads and process creation of the LibOS work by the host
  calls they make on shared graphs of reference-counted objects; checkpointing copies raw
  memory; the PAL hosts (Linux, SGX, EncOS) are host system calls, enclave transitions and
  assembly; protected files and attestation rest on cryptographic libraries that are not part
  of the sources; the Python package, the tools and the example applications, with the
  third-party programs among them, run outside the library OS or on top of it.
\<close>

end
